theory Spec2Isabelle
  imports Complex_Main "HOL-Library.Multiset" "HOL-Library.Monad_Syntax"
begin

section \<open>Numeric types of the source\<close>

text \<open>
  A C \<open>int\<close> is modelled as an HOL \<open>int\<close>; \<open>c_int\<close> says that a value fits the 32-bit
  type.  A C \<open>double\<close> is a finite real, an infinity or a NaN.  Only the operations that
  vtkPKdTree.cxx applies to doubles are given a meaning.
\<close>

definition c_int :: "int \<Rightarrow> bool" where
  "c_int i \<longleftrightarrow> - 2147483648 \<le> i \<and> i \<le> 2147483647"

datatype double = Finite real | PInf | NInf | NaN

text \<open>\<open>(double)i\<close>: every 32-bit integer is a double, the conversion is exact.\<close>

definition double_of_int :: "int \<Rightarrow> double" where
  "double_of_int i = Finite (of_int i)"

text \<open>
  \<open>(int)d\<close> truncates towards zero; the behaviour is undefined (\<open>None\<close>) when the
  truncated value is no \<open>int\<close>, in particular for infinities and NaN.
\<close>

fun int_of_double :: "double \<Rightarrow> int option" where
  "int_of_double (Finite r) =
     (let t = (if 0 \<le> r then \<lfloor>r\<rfloor> else \<lceil>r\<rceil>) in if c_int t then Some t else None)"
| "int_of_double _ = None"

text \<open>
  The test \<open>(a - b) != 0.0\<close>.  For finite operands the IEEE difference is zero exactly
  when the operands are equal (gradual underflow); as soon as an infinity or a NaN is
  involved the difference is an infinity or a NaN, and both differ from \<open>0.0\<close>.
\<close>

fun diff_nonzero :: "double \<Rightarrow> double \<Rightarrow> bool" where
  "diff_nonzero (Finite a) (Finite b) = (a \<noteq> b)"
| "diff_nonzero _ _ = True"

section \<open>Region nodes\<close>

text \<open>
  vtkKdNode is declared outside vtkPKdTree.cxx.  Its accessors are modelled as plain
  field access: \<open>SetBounds(x0,x1,y0,y1,z0,z1)\<close> stores \<open>(x0,y0,z0)\<close> as the minimum and
  \<open>(x1,y1,z1)\<close> as the maximum corner, \<open>SetDataBounds\<close> likewise for the data bounds, and
  \<open>AddChildNodes\<close> installs both children at once, so a node has two children or none.
\<close>

datatype vec3 = Vec3 double double double

fun vget :: "vec3 \<Rightarrow> nat \<Rightarrow> double" where
  "vget (Vec3 x y z) i = (if i = 0 then x else if i = 1 then y else z)"

fun vset :: "vec3 \<Rightarrow> nat \<Rightarrow> double \<Rightarrow> vec3" where
  "vset (Vec3 x y z) i v =
     (if i = 0 then Vec3 v y z else if i = 1 then Vec3 x v z else Vec3 x y v)"

record NodeData =
  Dim :: int
  NumberOfPoints :: int
  MinBounds :: vec3
  MaxBounds :: vec3
  MinDataBounds :: vec3
  MaxDataBounds :: vec3

datatype KdNode = Leaf NodeData | Branch NodeData KdNode KdNode

fun node_data :: "KdNode \<Rightarrow> NodeData" where
  "node_data (Leaf d) = d"
| "node_data (Branch d l r) = d"

fun update_data :: "(NodeData \<Rightarrow> NodeData) \<Rightarrow> KdNode \<Rightarrow> KdNode" where
  "update_data f (Leaf d) = Leaf (f d)"
| "update_data f (Branch d l r) = Branch (f d) l r"

definition SetBounds ::
  "double \<Rightarrow> double \<Rightarrow> double \<Rightarrow> double \<Rightarrow> double \<Rightarrow> double \<Rightarrow> NodeData \<Rightarrow> NodeData" where
  "SetBounds x0 x1 y0 y1 z0 z1 d = d\<lparr>MinBounds := Vec3 x0 y0 z0, MaxBounds := Vec3 x1 y1 z1\<rparr>"

definition SetDataBounds ::
  "double \<Rightarrow> double \<Rightarrow> double \<Rightarrow> double \<Rightarrow> double \<Rightarrow> double \<Rightarrow> NodeData \<Rightarrow> NodeData" where
  "SetDataBounds x0 x1 y0 y1 z0 z1 d =
     d\<lparr>MinDataBounds := Vec3 x0 y0 z0, MaxDataBounds := Vec3 x1 y1 z1\<rparr>"

section \<open>Packing a node for transfer\<close>

text \<open>
  \<open>PackData\<close> writes the split dimension, the two children's point counts and, for every
  axis, eight bounds of the children into an array of 27 doubles.  A node without
  children makes the source dereference a null pointer: \<open>None\<close>.
\<close>

definition pack_axis :: "NodeData \<Rightarrow> NodeData \<Rightarrow> nat \<Rightarrow> double list" where
  "pack_axis l r i =
     [vget (MinBounds l) i, vget (MaxBounds l) i,
      vget (MinDataBounds l) i, vget (MaxDataBounds l) i,
      vget (MinBounds r) i, vget (MaxBounds r) i,
      vget (MinDataBounds r) i, vget (MaxDataBounds r) i]"

fun PackData :: "KdNode \<Rightarrow> double list option" where
  "PackData (Leaf d) = None"
| "PackData (Branch d l r) =
     Some ([double_of_int (Dim d),
            double_of_int (NumberOfPoints (node_data l)),
            double_of_int (NumberOfPoints (node_data r))]
           @ concat (map (pack_axis (node_data l) (node_data r)) [0, 1, 2]))"

text \<open>
  \<open>UnpackData\<close> reads the array back into a node and its two children.  Reading beyond
  the array, a conversion that is no \<open>int\<close> and a missing child are \<open>None\<close>.
\<close>

definition rd :: "double list \<Rightarrow> nat \<Rightarrow> double option" where
  "rd data v = (if v < length data then Some (data ! v) else None)"

text \<open>The three entries of one kind of bound, one per axis, lie eight places apart.\<close>

definition unpack_vec :: "double list \<Rightarrow> nat \<Rightarrow> vec3 option" where
  "unpack_vec data off = do {
     x \<leftarrow> rd data (3 + off);
     y \<leftarrow> rd data (11 + off);
     z \<leftarrow> rd data (19 + off);
     Some (Vec3 x y z)
   }"

fun UnpackData :: "KdNode \<Rightarrow> double list \<Rightarrow> KdNode option" where
  "UnpackData (Leaf d) data = None"
| "UnpackData (Branch d l r) data = do {
     dm \<leftarrow> Option.bind (rd data 0) int_of_double;
     nl \<leftarrow> Option.bind (rd data 1) int_of_double;
     nr \<leftarrow> Option.bind (rd data 2) int_of_double;
     lmin \<leftarrow> unpack_vec data 0;
     lmax \<leftarrow> unpack_vec data 1;
     lminData \<leftarrow> unpack_vec data 2;
     lmaxData \<leftarrow> unpack_vec data 3;
     rmin \<leftarrow> unpack_vec data 4;
     rmax \<leftarrow> unpack_vec data 5;
     rminData \<leftarrow> unpack_vec data 6;
     rmaxData \<leftarrow> unpack_vec data 7;
     Some (Branch (d\<lparr>Dim := dm\<rparr>)
       (update_data
          (SetDataBounds (vget lminData 0) (vget lmaxData 0) (vget lminData 1)
             (vget lmaxData 1) (vget lminData 2) (vget lmaxData 2)
           \<circ> SetBounds (vget lmin 0) (vget lmax 0) (vget lmin 1) (vget lmax 1)
               (vget lmin 2) (vget lmax 2)
           \<circ> (\<lambda>c. c\<lparr>NumberOfPoints := nl\<rparr>)) l)
       (update_data
          (SetDataBounds (vget rminData 0) (vget rmaxData 0) (vget rminData 1)
             (vget rmaxData 1) (vget rminData 2) (vget rmaxData 2)
           \<circ> SetBounds (vget rmin 0) (vget rmax 0) (vget rmin 1) (vget rmax 1)
               (vget rmin 2) (vget rmax 2)
           \<circ> (\<lambda>c. c\<lparr>NumberOfPoints := nr\<rparr>)) r))
   }"

fun GetLeft :: "KdNode \<Rightarrow> KdNode option" where
  "GetLeft (Leaf d) = None"
| "GetLeft (Branch d l r) = Some l"

fun GetRight :: "KdNode \<Rightarrow> KdNode option" where
  "GetRight (Leaf d) = None"
| "GetRight (Branch d l r) = Some r"

definition same_payload :: "NodeData \<Rightarrow> NodeData \<Rightarrow> bool" where
  "same_payload a b \<longleftrightarrow>
     NumberOfPoints a = NumberOfPoints b \<and> MinBounds a = MinBounds b \<and>
     MaxBounds a = MaxBounds b \<and> MinDataBounds a = MinDataBounds b \<and>
     MaxDataBounds a = MaxDataBounds b"


lemma vec3_eta: "Vec3 (vget v 0) (vget v (Suc 0)) (vget v 2) = v"
  by (cases v) simp

lemma int_of_double_of_int: "c_int i \<Longrightarrow> int_of_double (double_of_int i) = Some i"
  by (simp add: double_of_int_def)

lemma node_data_update_data: "node_data (update_data f n) = f (node_data n)"
  by (cases n) simp_all

lemma PackData_length: "PackData kd = Some data \<Longrightarrow> length data = 27"
  by (cases kd) (auto simp: pack_axis_def)

lemma rd_PackData_head:
  "rd ([a, b, c] @ rest) 0 = Some a" "rd ([a, b, c] @ rest) 1 = Some b"
  "rd ([a, b, c] @ rest) 2 = Some c"
  by (simp_all add: rd_def)

lemma unpack_vec_pack:
  assumes "off < 8"
  shows "unpack_vec ([a, b, c] @ concat (map (pack_axis l r) [0, 1, 2])) off =
         Some (Vec3 (pack_axis l r 0 ! off) (pack_axis l r 1 ! off) (pack_axis l r 2 ! off))"
proof -
  have len: "length (pack_axis l r i) = 8" for i by (simp add: pack_axis_def)
  let ?xs = "pack_axis l r 0 @ pack_axis l r 1 @ pack_axis l r 2"
  have c: "concat (map (pack_axis l r) [0, 1, 2]) = ?xs" by simp
  have r0: "rd ([a, b, c] @ ?xs) (3 + off) = Some (pack_axis l r 0 ! off)"
    using assms len by (simp add: rd_def nth_append)
  have r1: "rd ([a, b, c] @ ?xs) (11 + off) = Some (pack_axis l r 1 ! off)"
    using assms len by (simp add: rd_def nth_append)
  have r2: "rd ([a, b, c] @ ?xs) (19 + off) = Some (pack_axis l r 2 ! off)"
    using assms len by (simp add: rd_def nth_append)
  show ?thesis unfolding c unpack_vec_def r0 r1 r2 by simp
qed


text \<open>
  Claim C10.  For a node whose two children exist and whose integer fields are C \<open>int\<close>
  values, \<open>PackData\<close> yields 27 doubles, and \<open>UnpackData\<close> applied to them and to any
  node with two children succeeds and reproduces exactly the split dimension, both
  children's point counts, both children's region bounds and both children's data bounds.
\<close>

theorem PackData_UnpackData_roundtrip:
  assumes "c_int (Dim d)" and "c_int (NumberOfPoints (node_data l))"
    and "c_int (NumberOfPoints (node_data r))"
  shows "\<exists>data d2 l2 r2.
           PackData (Branch d l r) = Some data \<and> length data = 27 \<and>
           UnpackData (Branch d' l' r') data = Some (Branch d2 l2 r2) \<and>
           Dim d2 = Dim d \<and>
           same_payload (node_data l2) (node_data l) \<and>
           same_payload (node_data r2) (node_data r)"
proof -
  define a where "a = double_of_int (Dim d)"
  define b where "b = double_of_int (NumberOfPoints (node_data l))"
  define c where "c = double_of_int (NumberOfPoints (node_data r))"
  define data where
    "data = [a, b, c] @ concat (map (pack_axis (node_data l) (node_data r)) [0, 1, 2])"
  have pk: "PackData (Branch d l r) = Some data"
    by (simp add: data_def a_def b_def c_def)
  have len: "length data = 27"
    by (rule PackData_length [OF pk])
  have h0: "Option.bind (rd data 0) int_of_double = Some (Dim d)"
    unfolding data_def rd_PackData_head a_def using assms(1)
    by (simp add: int_of_double_of_int)
  have h1: "Option.bind (rd data 1) int_of_double = Some (NumberOfPoints (node_data l))"
    unfolding data_def rd_PackData_head b_def using assms(2)
    by (simp add: int_of_double_of_int)
  have h2: "Option.bind (rd data 2) int_of_double = Some (NumberOfPoints (node_data r))"
    unfolding data_def rd_PackData_head c_def using assms(3)
    by (simp add: int_of_double_of_int)
  have u: "unpack_vec data off =
           Some (Vec3 (pack_axis (node_data l) (node_data r) 0 ! off)
                      (pack_axis (node_data l) (node_data r) 1 ! off)
                      (pack_axis (node_data l) (node_data r) 2 ! off))" if "off < 8" for off
    unfolding data_def by (rule unpack_vec_pack [OF that])
  have un: "UnpackData (Branch d' l' r') data = Some (Branch (d'\<lparr>Dim := Dim d\<rparr>)
       (update_data (\<lambda>c. c\<lparr>NumberOfPoints := NumberOfPoints (node_data l),
            MinBounds := MinBounds (node_data l), MaxBounds := MaxBounds (node_data l),
            MinDataBounds := MinDataBounds (node_data l),
            MaxDataBounds := MaxDataBounds (node_data l)\<rparr>) l')
       (update_data (\<lambda>c. c\<lparr>NumberOfPoints := NumberOfPoints (node_data r),
            MinBounds := MinBounds (node_data r), MaxBounds := MaxBounds (node_data r),
            MinDataBounds := MinDataBounds (node_data r),
            MaxDataBounds := MaxDataBounds (node_data r)\<rparr>) r'))"
    unfolding UnpackData.simps h0 h1 h2
    by (simp add: u pack_axis_def SetBounds_def SetDataBounds_def vec3_eta comp_def)
  show ?thesis
    apply (rule exI [of _ data])
    apply (intro exI conjI)
         apply (rule pk)
        apply (rule len)
       apply (rule un)
      apply (simp_all add: same_payload_def node_data_update_data)
    done
qed

text \<open>An internal node as built by a division, and the blank node \<open>FillOutTree\<close> attaches.\<close>

definition corner :: "real \<Rightarrow> real \<Rightarrow> real \<Rightarrow> vec3" where
  "corner x y z = Vec3 (Finite x) (Finite y) (Finite z)"

definition sample_parent :: NodeData where
  "sample_parent = \<lparr>Dim = 0, NumberOfPoints = 10,
     MinBounds = corner 0 0 0, MaxBounds = corner 8 4 2,
     MinDataBounds = corner 1 1 1, MaxDataBounds = corner 7 3 1\<rparr>"

definition sample_left :: NodeData where
  "sample_left = \<lparr>Dim = 3, NumberOfPoints = 6,
     MinBounds = corner 0 0 0, MaxBounds = corner 4 4 2,
     MinDataBounds = corner 1 1 1, MaxDataBounds = corner 3 3 1\<rparr>"

definition sample_right :: NodeData where
  "sample_right = \<lparr>Dim = 3, NumberOfPoints = 4,
     MinBounds = corner 4 0 0, MaxBounds = corner 8 4 2,
     MinDataBounds = corner 5 2 1, MaxDataBounds = corner 7 3 1\<rparr>"

definition blank_node :: NodeData where
  "blank_node = \<lparr>Dim = 3, NumberOfPoints = - 1,
     MinBounds = corner (- 1) (- 1) (- 1), MaxBounds = corner (- 1) (- 1) (- 1),
     MinDataBounds = corner (- 1) (- 1) (- 1), MaxDataBounds = corner (- 1) (- 1) (- 1)\<rparr>"

theorem PackData_UnpackData_roundtrip_witness:
  "c_int (Dim sample_parent) \<and> c_int (NumberOfPoints sample_left) \<and>
   c_int (NumberOfPoints sample_right) \<and>
   (\<exists>data d2 l2 r2.
      PackData (Branch sample_parent (Leaf sample_left) (Leaf sample_right)) = Some data \<and>
      length data = 27 \<and>
      UnpackData (Branch blank_node (Leaf blank_node) (Leaf blank_node)) data
        = Some (Branch d2 l2 r2) \<and>
      Dim d2 = 0 \<and> same_payload (node_data l2) sample_left \<and>
      same_payload (node_data r2) sample_right)"
  using PackData_UnpackData_roundtrip [of sample_parent "Leaf sample_left" "Leaf sample_right"
      blank_node "Leaf blank_node" "Leaf blank_node"]
  by (simp add: c_int_def sample_parent_def sample_left_def sample_right_def)

section \<open>Reconciling region boundaries\<close>

text \<open>
  \<open>CheckFixRegionBoundaries\<close> walks the tree.  At a node with children it runs over the
  three axes and overwrites the children's region bounds wherever they differ from what
  the parent prescribes; \<open>fix_axis\<close> is one round of that loop (\<open>mn\<close> and \<open>mx\<close> are the
  parent's corners), \<open>fix_children\<close> the whole loop.  The walk then descends into the
  children it has just rewritten.
\<close>

definition fix_axis ::
  "int \<Rightarrow> vec3 \<Rightarrow> vec3 \<Rightarrow> nat \<Rightarrow> vec3 \<times> vec3 \<times> vec3 \<times> vec3 \<Rightarrow> vec3 \<times> vec3 \<times> vec3 \<times> vec3" where
  "fix_axis nextDim mn mx dm b =
     (case b of (lmin, lmax, rmin, rmax) \<Rightarrow>
        let lmin = (if diff_nonzero (vget lmin dm) (vget mn dm)
                    then vset lmin dm (vget mn dm) else lmin);
            rmax = (if diff_nonzero (vget rmax dm) (vget mx dm)
                    then vset rmax dm (vget mx dm) else rmax)
        in if int dm \<noteq> nextDim
           then let lmax = (if diff_nonzero (vget lmax dm) (vget mx dm)
                            then vset lmax dm (vget mx dm) else lmax);
                    rmin = (if diff_nonzero (vget rmin dm) (vget mn dm)
                            then vset rmin dm (vget mn dm) else rmin)
                in (lmin, lmax, rmin, rmax)
           else let lmax = (if diff_nonzero (vget lmax dm) (vget rmin dm)
                            then vset lmax dm (vget rmin dm) else lmax)
                in (lmin, lmax, rmin, rmax))"

definition fix_children :: "NodeData \<Rightarrow> KdNode \<Rightarrow> KdNode \<Rightarrow> KdNode \<times> KdNode" where
  "fix_children d l r =
     (case fold (fix_axis (Dim d) (MinBounds d) (MaxBounds d)) [0, 1, 2]
             (MinBounds (node_data l), MaxBounds (node_data l),
              MinBounds (node_data r), MaxBounds (node_data r)) of
        (lmin, lmax, rmin, rmax) \<Rightarrow>
          (update_data (\<lambda>c. c\<lparr>MinBounds := lmin, MaxBounds := lmax\<rparr>) l,
           update_data (\<lambda>c. c\<lparr>MinBounds := rmin, MaxBounds := rmax\<rparr>) r))"

lemma size_update_data [simp]: "size (update_data f n) = size n"
  by (cases n) simp_all

lemma size_fix_children:
  "fix_children d l r = (l', r') \<Longrightarrow> size l' = size l \<and> size r' = size r"
  by (auto simp: fix_children_def split: prod.splits)

function CheckFixRegionBoundaries :: "KdNode \<Rightarrow> KdNode" where
  "CheckFixRegionBoundaries (Leaf d) = Leaf d"
| "CheckFixRegionBoundaries (Branch d l r) =
     (case fix_children d l r of
        (left, right) \<Rightarrow>
          Branch d (CheckFixRegionBoundaries left) (CheckFixRegionBoundaries right))"
  by pat_completeness auto
termination
  by (relation "measure size") (auto dest!: size_fix_children [OF sym])

fun boundaries_fixed :: "KdNode \<Rightarrow> bool" where
  "boundaries_fixed (Leaf d) = True"
| "boundaries_fixed (Branch d l r) =
     ((\<forall>i \<in> {0, 1, 2}.
         vget (MinBounds (node_data l)) i = vget (MinBounds d) i \<and>
         vget (MaxBounds (node_data r)) i = vget (MaxBounds d) i \<and>
         (int i \<noteq> Dim d \<longrightarrow>
            vget (MaxBounds (node_data l)) i = vget (MaxBounds d) i \<and>
            vget (MinBounds (node_data r)) i = vget (MinBounds d) i) \<and>
         (int i = Dim d \<longrightarrow>
            vget (MaxBounds (node_data l)) i = vget (MinBounds (node_data r)) i))
      \<and> boundaries_fixed l \<and> boundaries_fixed r)"

lemma diff_nonzero_eq: "\<not> diff_nonzero a b \<Longrightarrow> a = b"
  by (cases a; cases b) simp_all

lemma vget_vset: "i < 3 \<Longrightarrow> j < 3 \<Longrightarrow> vget (vset v i x) j = (if i = j then x else vget v j)"
  by (cases v) auto

lemma assign_eq:
  "i < 3 \<Longrightarrow> vget (if diff_nonzero (vget v i) x then vset v i x else v) i = x"
  by (auto simp: vget_vset dest: diff_nonzero_eq)

lemma assign_other:
  "i < 3 \<Longrightarrow> j < 3 \<Longrightarrow> i \<noteq> j \<Longrightarrow>
   vget (if diff_nonzero (vget v i) x then vset v i x else v) j = vget v j"
  by (auto simp: vget_vset)

definition axis_ok :: "int \<Rightarrow> vec3 \<Rightarrow> vec3 \<Rightarrow> vec3 \<times> vec3 \<times> vec3 \<times> vec3 \<Rightarrow> nat \<Rightarrow> bool" where
  "axis_ok nextDim mn mx b i =
     (case b of (lmin, lmax, rmin, rmax) \<Rightarrow>
        vget lmin i = vget mn i \<and> vget rmax i = vget mx i \<and>
        (int i \<noteq> nextDim \<longrightarrow> vget lmax i = vget mx i \<and> vget rmin i = vget mn i) \<and>
        (int i = nextDim \<longrightarrow> vget lmax i = vget rmin i))"

lemma fix_axis_establishes:
  "i < 3 \<Longrightarrow> axis_ok nd mn mx (fix_axis nd mn mx i b) i"
  by (cases b) (simp add: fix_axis_def axis_ok_def Let_def assign_eq del: vget.simps vset.simps)

lemma fix_axis_preserves:
  "i < 3 \<Longrightarrow> j < 3 \<Longrightarrow> i \<noteq> j \<Longrightarrow> axis_ok nd mn mx b j \<Longrightarrow>
   axis_ok nd mn mx (fix_axis nd mn mx i b) j"
  by (cases b) (simp add: fix_axis_def axis_ok_def Let_def assign_other del: vget.simps vset.simps)

lemma fold_fix_axis_ok:
  assumes "i < 3"
  shows "axis_ok nd mn mx (fold (fix_axis nd mn mx) [0, 1, 2] b) i"
proof -
  consider "i = 0" | "i = 1" | "i = 2" using assms by linarith
  then show ?thesis
  proof cases
    case 1
    then show ?thesis
      by (simp add: fix_axis_establishes fix_axis_preserves)
  next
    case 2
    then show ?thesis
      by (simp add: fix_axis_establishes fix_axis_preserves)
  next
    case 3
    then show ?thesis
      by (simp add: fix_axis_establishes fix_axis_preserves)
  qed
qed

lemma node_data_CheckFix [simp]: "node_data (CheckFixRegionBoundaries t) = node_data t"
  by (cases t) (simp_all split: prod.splits)

lemma fix_children_ok:
  assumes "fix_children d l r = (l', r')" and "i < 3"
  shows "axis_ok (Dim d) (MinBounds d) (MaxBounds d)
           (MinBounds (node_data l'), MaxBounds (node_data l'),
            MinBounds (node_data r'), MaxBounds (node_data r')) i"
proof -
  obtain lmin lmax rmin rmax where f:
    "fold (fix_axis (Dim d) (MinBounds d) (MaxBounds d)) [0, 1, 2]
             (MinBounds (node_data l), MaxBounds (node_data l),
              MinBounds (node_data r), MaxBounds (node_data r)) = (lmin, lmax, rmin, rmax)"
    by (metis prod_cases4)
  have "axis_ok (Dim d) (MinBounds d) (MaxBounds d) (lmin, lmax, rmin, rmax) i"
    using fold_fix_axis_ok [OF assms(2)] f by metis
  moreover have "l' = update_data (\<lambda>c. c\<lparr>MinBounds := lmin, MaxBounds := lmax\<rparr>) l"
    "r' = update_data (\<lambda>c. c\<lparr>MinBounds := rmin, MaxBounds := rmax\<rparr>) r"
    using assms(1) unfolding fix_children_def f by simp_all
  ultimately show ?thesis
    by (simp add: node_data_update_data)
qed


text \<open>
  \<open>kept d d'\<close>: the two records differ at most in their region bounds.  \<open>follows t t'\<close>:
  \<open>t'\<close> is \<open>t\<close> with region bounds rewritten; it has the shape of \<open>t\<close>, every node keeps its
  split dimension, its number of points and its data bounds, and at every node with
  children the right child keeps its minimum on the parent's split axis.
\<close>

definition kept :: "NodeData \<Rightarrow> NodeData \<Rightarrow> bool" where
  "kept d d' \<longleftrightarrow>
     Dim d' = Dim d \<and> NumberOfPoints d' = NumberOfPoints d \<and>
     MinDataBounds d' = MinDataBounds d \<and> MaxDataBounds d' = MaxDataBounds d"

fun follows :: "KdNode \<Rightarrow> KdNode \<Rightarrow> bool" where
  "follows (Leaf d) (Leaf d') = kept d d'"
| "follows (Branch d l r) (Branch d' l' r') =
     (kept d d' \<and>
      (\<forall>i \<in> {0, 1, 2}. int i = Dim d \<longrightarrow>
         vget (MinBounds (node_data r')) i = vget (MinBounds (node_data r)) i) \<and>
      follows l l' \<and> follows r r')"
| "follows (Leaf d) (Branch d' l' r') = False"
| "follows (Branch d l r) (Leaf d') = False"

lemma kept_refl [simp]: "kept d d"
  by (simp add: kept_def)

lemma kept_trans: "kept a b \<Longrightarrow> kept b c \<Longrightarrow> kept a c"
  by (simp add: kept_def)

lemma follows_refl [simp]: "follows t t"
  by (induction t) simp_all

lemma follows_node_data: "follows a b \<Longrightarrow> kept (node_data a) (node_data b)"
  by (cases a; cases b) simp_all

lemma follows_trans: "follows a b \<Longrightarrow> follows b c \<Longrightarrow> follows a c"
proof (induction a b arbitrary: c rule: follows.induct)
  case (1 d d')
  then show ?case by (cases c) (auto intro: kept_trans)
next
  case (2 d l r d' l' r')
  from "2.prems"(2) obtain d'' l'' r'' where c: "c = Branch d'' l'' r''"
    by (cases c) simp_all
  have k: "kept d d'" "kept d' d''" using "2.prems" c by simp_all
  then have dd: "Dim d' = Dim d" by (simp add: kept_def)
  have "follows l l''" "follows r r''"
    using "2.IH" "2.prems" c by simp_all
  moreover have "\<forall>i \<in> {0, 1, 2}. int i = Dim d \<longrightarrow>
         vget (MinBounds (node_data r'')) i = vget (MinBounds (node_data r)) i"
    using "2.prems" c dd by auto
  ultimately show ?case using k c by (simp add: kept_trans [OF k])
qed simp_all

lemma follows_update_bounds:
  "follows t (update_data (\<lambda>c. c\<lparr>MinBounds := a, MaxBounds := b\<rparr>) t)"
  by (cases t) (simp_all add: kept_def)

lemma fix_axis_rmin:
  "i < 3 \<Longrightarrow> j < 3 \<Longrightarrow> int j = nd \<Longrightarrow>
   vget (fst (snd (snd (fix_axis nd mn mx i b)))) j = vget (fst (snd (snd b))) j"
  by (cases b) (auto simp: fix_axis_def Let_def assign_other vget_vset simp del: vget.simps vset.simps)

lemma fold_fix_axis_rmin:
  assumes "j < 3" "int j = nd"
  shows "vget (fst (snd (snd (fold (fix_axis nd mn mx) [0, 1, 2] b)))) j = vget (fst (snd (snd b))) j"
  using assms by (simp add: fix_axis_rmin del: vget.simps)

lemma fix_children_follows:
  assumes "fix_children d l r = (l', r')"
  shows "follows l l'" "follows r r'"
    "\<forall>i \<in> {0, 1, 2}. int i = Dim d \<longrightarrow>
       vget (MinBounds (node_data r')) i = vget (MinBounds (node_data r)) i"
proof -
  obtain lmin lmax rmin rmax where f:
    "fold (fix_axis (Dim d) (MinBounds d) (MaxBounds d)) [0, 1, 2]
             (MinBounds (node_data l), MaxBounds (node_data l),
              MinBounds (node_data r), MaxBounds (node_data r)) = (lmin, lmax, rmin, rmax)"
    by (metis prod_cases4)
  have e: "l' = update_data (\<lambda>c. c\<lparr>MinBounds := lmin, MaxBounds := lmax\<rparr>) l"
    "r' = update_data (\<lambda>c. c\<lparr>MinBounds := rmin, MaxBounds := rmax\<rparr>) r"
    using assms unfolding fix_children_def f by simp_all
  show "follows l l'" "follows r r'" unfolding e by (rule follows_update_bounds)+
  show "\<forall>i \<in> {0, 1, 2}. int i = Dim d \<longrightarrow>
       vget (MinBounds (node_data r')) i = vget (MinBounds (node_data r)) i"
  proof (intro ballI impI)
    fix i :: nat assume i: "i \<in> {0, 1, 2}" "int i = Dim d"
    then have "i < 3" by auto
    from fold_fix_axis_rmin [OF this i(2), of "MinBounds d" "MaxBounds d"
        "(MinBounds (node_data l), MaxBounds (node_data l),
              MinBounds (node_data r), MaxBounds (node_data r))"]
    have "vget rmin i = vget (MinBounds (node_data r)) i" unfolding f by simp
    then show "vget (MinBounds (node_data r')) i = vget (MinBounds (node_data r)) i"
      unfolding e by (simp add: node_data_update_data)
  qed
qed

lemma CheckFixRegionBoundaries_follows: "follows t (CheckFixRegionBoundaries t)"
proof (induction t rule: CheckFixRegionBoundaries.induct)
  case (1 d)
  then show ?case by simp
next
  case (2 d l r)
  obtain l' r' where f: "fix_children d l r = (l', r')" by fastforce
  note c = fix_children_follows [OF f]
  have "follows l' (CheckFixRegionBoundaries l')" "follows r' (CheckFixRegionBoundaries r')"
    using "2.IH" f by auto
  with c have "follows l (CheckFixRegionBoundaries l')" "follows r (CheckFixRegionBoundaries r')"
    by (auto intro: follows_trans)
  with c(3) show ?case by (simp add: f)
qed

lemma CheckFixRegionBoundaries_bounds: "boundaries_fixed (CheckFixRegionBoundaries t)"
proof (induction t rule: CheckFixRegionBoundaries.induct)
  case (1 d)
  then show ?case by simp
next
  case (2 d l r)
  obtain l' r' where f: "fix_children d l r = (l', r')" by fastforce
  have ok: "axis_ok (Dim d) (MinBounds d) (MaxBounds d)
           (MinBounds (node_data l'), MaxBounds (node_data l'),
            MinBounds (node_data r'), MaxBounds (node_data r')) i" if "i < 3" for i
    by (rule fix_children_ok [OF f that])
  have "boundaries_fixed (CheckFixRegionBoundaries l')"
    "boundaries_fixed (CheckFixRegionBoundaries r')"
    using "2.IH" f by auto
  then show ?case
    using ok [of 0] ok [of 1] ok [of 2] by (simp add: f axis_ok_def)
qed

text \<open>
  Claim C7.  \<open>CheckFixRegionBoundaries\<close> returns the tree it was given with region bounds
  rewritten: the shape is the same, the root is unchanged, every node keeps its split
  dimension, its number of points and its data bounds, and at every node with children
  and split dimension \<open>d\<close> the right child keeps its minimum on axis \<open>d\<close>.  In the result,
  at every such node: on every axis the left child's minimum is the parent's minimum and
  the right child's maximum is the parent's maximum; on every axis other than \<open>d\<close> the
  left child's maximum is the parent's maximum and the right child's minimum is the
  parent's minimum; on axis \<open>d\<close> the left child's maximum is the right child's minimum.
  These facts fix every field of the result in terms of the given tree.
\<close>

theorem CheckFixRegionBoundaries_fixed:
  "boundaries_fixed (CheckFixRegionBoundaries t) \<and> follows t (CheckFixRegionBoundaries t) \<and>
   node_data (CheckFixRegionBoundaries t) = node_data t"
  by (simp add: CheckFixRegionBoundaries_bounds CheckFixRegionBoundaries_follows)

text \<open>A tree whose children have drifted away from the parent's box on every axis.\<close>

definition drifted_tree :: KdNode where
  "drifted_tree =
     Branch sample_parent
       (Leaf (sample_left\<lparr>MinBounds := corner 0.5 0 0, MaxBounds := corner 3 5 2\<rparr>))
       (Branch (sample_right\<lparr>Dim := 1, MinBounds := corner 4 1 0, MaxBounds := corner 9 4 3\<rparr>)
          (Leaf blank_node) (Leaf blank_node))"

definition mended_tree :: KdNode where
  "mended_tree =
     Branch sample_parent
       (Leaf (sample_left\<lparr>MinBounds := corner 0 0 0, MaxBounds := corner 4 4 2\<rparr>))
       (Branch (sample_right\<lparr>Dim := 1, MinBounds := corner 4 0 0, MaxBounds := corner 8 4 2\<rparr>)
          (Leaf (blank_node\<lparr>MinBounds := corner 4 0 0, MaxBounds := corner 8 (- 1) 2\<rparr>))
          (Leaf (blank_node\<lparr>MinBounds := corner 4 (- 1) 0, MaxBounds := corner 8 4 2\<rparr>)))"

theorem CheckFixRegionBoundaries_fixed_witness:
  "CheckFixRegionBoundaries drifted_tree = mended_tree \<and> boundaries_fixed mended_tree \<and>
   follows drifted_tree mended_tree \<and> node_data mended_tree = node_data drifted_tree"
proof -
  have e: "CheckFixRegionBoundaries drifted_tree = mended_tree"
    by (simp add: drifted_tree_def mended_tree_def fix_children_def fix_axis_def
        sample_parent_def sample_left_def sample_right_def blank_node_def corner_def)
  show ?thesis
    using CheckFixRegionBoundaries_fixed [of drifted_tree] unfolding e by simp
qed

section \<open>Vectors and loops of the source\<close>

text \<open>
  A \<open>std::vector\<close> or array is a list; an index is a C \<open>int\<close>.  Reading or writing outside
  the vector is undefined behaviour in the source and \<open>None\<close> here.
\<close>

definition vec_get :: "'a list \<Rightarrow> int \<Rightarrow> 'a option" where
  "vec_get xs i = (if 0 \<le> i \<and> i < int (length xs) then Some (xs ! nat i) else None)"

definition vec_set :: "'a list \<Rightarrow> int \<Rightarrow> 'a \<Rightarrow> 'a list option" where
  "vec_set xs i v = (if 0 \<le> i \<and> i < int (length xs) then Some (xs[nat i := v]) else None)"

text \<open>\<open>for (i = a; i < b; i++) body\<close>, the body possibly failing.\<close>

fun for_loop :: "int list \<Rightarrow> (int \<Rightarrow> 's \<Rightarrow> 's option) \<Rightarrow> 's \<Rightarrow> 's option" where
  "for_loop [] body s = Some s"
| "for_loop (i # is) body s = Option.bind (body i s) (for_loop is body)"

section \<open>The tree builder's state\<close>

text \<open>
  The members of vtkPKdTree that the functions below read or write, as seen by one
  process.  A point is a triple of floats; the floats are only compared and copied, and
  are modelled as reals.  \<open>NumberOfRegions\<close> and \<open>Top\<close> belong to the base class vtkKdTree,
  which is outside these sources, and are plain fields here.
\<close>

type_synonym point = "real \<times> real \<times> real"

record PKdTree =
  NumProcesses :: int
  MyId :: int
  StartVal :: "int list"
  EndVal :: "int list"
  NumCells :: "int list"
  TotalNumCells :: int
  CurrentPtArray :: "point list"
  Top :: "KdNode option"
  NumberOfRegions :: int
  ValidDirections :: int
  RegionAssignment :: int
  RegionAssignmentMap :: "int list"
  NumRegionsAssigned :: "int list"
  ProcessAssignmentMap :: "int list list"
  DataLocationMap :: "int list"

section \<open>Global index directory\<close>

text \<open>
  \<open>BuildGlobalIndexLists\<close>.  The gather and broadcast at its start leave in \<open>NumCells\<close> the
  counts of all processes, one per process; that vector is the argument \<open>counts\<close>.
\<close>

definition AllocateAndZeroGlobalIndexLists :: "PKdTree \<Rightarrow> PKdTree" where
  "AllocateAndZeroGlobalIndexLists t =
     t\<lparr>StartVal := replicate (nat (NumProcesses t)) 0,
       EndVal := replicate (nat (NumProcesses t)) 0,
       NumCells := replicate (nat (NumProcesses t)) 0\<rparr>"

definition index_step :: "int \<Rightarrow> PKdTree \<Rightarrow> PKdTree option" where
  "index_step i t = do {
     e \<leftarrow> vec_get (EndVal t) (i - 1);
     sv \<leftarrow> vec_set (StartVal t) i (e + 1);
     n \<leftarrow> vec_get (NumCells t) i;
     ev \<leftarrow> vec_set (EndVal t) i (e + n);
     Some (t\<lparr>StartVal := sv, EndVal := ev, TotalNumCells := TotalNumCells t + n\<rparr>)
   }"

definition BuildGlobalIndexLists :: "PKdTree \<Rightarrow> int list \<Rightarrow> PKdTree option" where
  "BuildGlobalIndexLists t0 counts = do {
     let t = (AllocateAndZeroGlobalIndexLists t0)\<lparr>NumCells := counts\<rparr>;
     sv \<leftarrow> vec_set (StartVal t) 0 0;
     n \<leftarrow> vec_get (NumCells t) 0;
     ev \<leftarrow> vec_set (EndVal t) 0 (n - 1);
     for_loop [1..NumProcesses t - 1] index_step
       (t\<lparr>StartVal := sv, EndVal := ev, TotalNumCells := n\<rparr>)
   }"

text \<open>
  \<open>_whoHas\<close> bisects \<open>StartVal\<close>.  Nothing in its text bounds the recursion, so it is
  defined as a partial function: \<open>None\<close> is a read outside \<open>StartVal\<close> or no result at all.
\<close>

partial_function (option) u_whoHas :: "int list \<Rightarrow> int \<Rightarrow> int \<Rightarrow> int \<Rightarrow> int option" where
  "u_whoHas sv L R pos =
     (if L = R then Some L
      else let M = (L + R) div 2 in
        Option.bind (vec_get sv M) (\<lambda>a.
          if pos < a then u_whoHas sv L (M - 1) pos
          else Option.bind (vec_get sv (M + 1)) (\<lambda>b.
            if pos < b then Some M else u_whoHas sv (M + 1) R pos)))"

definition WhoHas :: "PKdTree \<Rightarrow> int \<Rightarrow> int option" where
  "WhoHas t pos =
     (if pos < 0 \<or> pos \<ge> TotalNumCells t then Some (- 1)
      else u_whoHas (StartVal t) 0 (NumProcesses t - 1) pos)"

subsection \<open>Facts about vectors and loops\<close>

lemma vec_get_Some: "0 \<le> i \<Longrightarrow> i < int (length xs) \<Longrightarrow> vec_get xs i = Some (xs ! nat i)"
  by (simp add: vec_get_def)

lemma vec_set_Some: "0 \<le> i \<Longrightarrow> i < int (length xs) \<Longrightarrow> vec_set xs i v = Some (xs[nat i := v])"
  by (simp add: vec_set_def)

lemma for_loop_upto_rule:
  assumes step: "\<And>i t. a \<le> i \<Longrightarrow> i \<le> b \<Longrightarrow> I i t \<Longrightarrow> \<exists>t'. body i t = Some t' \<and> I (i + 1) t'"
  shows "a \<le> k \<Longrightarrow> k \<le> b + 1 \<Longrightarrow> I k s \<Longrightarrow> \<exists>s'. for_loop [k..b] body s = Some s' \<and> I (b + 1) s'"
proof (induction "nat (b + 1 - k)" arbitrary: k s)
  case 0
  then have "k = b + 1" by simp
  with 0 show ?case by simp
next
  case (Suc n)
  then have kb: "k \<le> b" by linarith
  then have u: "[k..b] = k # [k + 1..b]" by (simp add: upto_rec1)
  from step [OF Suc.prems(1) kb Suc.prems(3)] obtain t' where
    t': "body k s = Some t'" "I (k + 1) t'" by blast
  have "n = nat (b + 1 - (k + 1))" using Suc.hyps(2) by linarith
  from Suc.hyps(1) [OF this _ _ t'(2)] Suc.prems(1) kb
  obtain s' where "for_loop [k + 1..b] body t' = Some s'" "I (b + 1) s'" by auto
  then show ?case by (simp add: u t'(1))
qed

subsection \<open>What the directory holds\<close>

definition psum :: "int list \<Rightarrow> nat \<Rightarrow> int" where
  "psum counts n = sum_list (take n counts)"

lemma psum_0 [simp]: "psum counts 0 = 0"
  by (simp add: psum_def)

lemma psum_Suc: "n < length counts \<Longrightarrow> psum counts (Suc n) = psum counts n + counts ! n"
  by (simp add: psum_def take_Suc_conv_app_nth)

lemma psum_all: "length counts \<le> n \<Longrightarrow> psum counts n = sum_list counts"
  by (simp add: psum_def)

lemma psum_mono:
  assumes "\<forall>c \<in> set counts. 0 \<le> c" and "m \<le> n"
  shows "psum counts m \<le> psum counts n"
proof -
  have "take n counts = take m counts @ take (n - m) (drop m counts)"
    using assms(2) by (metis le_add_diff_inverse take_add)
  moreover have "0 \<le> sum_list (take (n - m) (drop m counts))"
    using assms(1) by (auto intro!: sum_list_nonneg dest: in_set_takeD in_set_dropD)
  ultimately show ?thesis by (simp add: psum_def)
qed

definition directory_upto :: "int list \<Rightarrow> int \<Rightarrow> int \<Rightarrow> PKdTree \<Rightarrow> bool" where
  "directory_upto counts P k t \<longleftrightarrow>
     NumProcesses t = P \<and> NumCells t = counts \<and>
     length (StartVal t) = nat P \<and> length (EndVal t) = nat P \<and>
     TotalNumCells t = psum counts (nat k) \<and>
     (\<forall>j < nat k. StartVal t ! j = psum counts j \<and> EndVal t ! j = psum counts (Suc j) - 1)"

lemma index_step_directory:
  assumes "directory_upto counts P i t" and "1 \<le> i" and "i \<le> P - 1"
    and "length counts = nat P"
  shows "\<exists>t'. index_step i t = Some t' \<and> directory_upto counts P (i + 1) t'"
proof -
  from assms(1) have d: "NumProcesses t = P" "NumCells t = counts"
    "length (StartVal t) = nat P" "length (EndVal t) = nat P"
    "TotalNumCells t = psum counts (nat i)"
    "\<And>j. j < nat i \<Longrightarrow> StartVal t ! j = psum counts j \<and> EndVal t ! j = psum counts (Suc j) - 1"
    by (auto simp: directory_upto_def)
  have lt: "nat i < nat P" "nat (i - 1) < nat i" "Suc (nat (i - 1)) = nat i"
    using assms(2,3) by linarith+
  have e: "vec_get (EndVal t) (i - 1) = Some (psum counts (nat i) - 1)"
    using d(4) d(6) [OF lt(2)] assms(2,3) lt by (simp add: vec_get_def)
  have n: "vec_get (NumCells t) i = Some (counts ! nat i)"
    using d(2) assms by (simp add: vec_get_def)
  have sv: "vec_set (StartVal t) i v = Some ((StartVal t)[nat i := v])" for v
    using d(3) assms by (simp add: vec_set_def)
  have ev: "vec_set (EndVal t) i v = Some ((EndVal t)[nat i := v])" for v
    using d(4) assms by (simp add: vec_set_def)
  have ps: "psum counts (Suc (nat i)) = psum counts (nat i) + counts ! nat i"
    using lt(1) assms(4) by (simp add: psum_Suc)
  have ni: "nat (i + 1) = Suc (nat i)" using assms(2) by linarith
  show ?thesis
    unfolding index_step_def e n sv ev
    using d lt ps
    by (auto simp: directory_upto_def ni nth_list_update less_Suc_eq)
qed

lemma BuildGlobalIndexLists_directory:
  assumes "0 < NumProcesses t" and "length counts = nat (NumProcesses t)"
  shows "\<exists>t'. BuildGlobalIndexLists t counts = Some t' \<and>
              directory_upto counts (NumProcesses t) (NumProcesses t) t'"
proof -
  let ?P = "NumProcesses t"
  let ?t1 = "(AllocateAndZeroGlobalIndexLists t)\<lparr>NumCells := counts\<rparr>"
  let ?t2 = "?t1\<lparr>StartVal := (replicate (nat ?P) 0)[0 := 0],
                  EndVal := (replicate (nat ?P) 0)[0 := counts ! 0 - 1],
                  TotalNumCells := counts ! 0\<rparr>"
  have len: "0 < length counts" using assms by simp
  have init: "directory_upto counts ?P 1 ?t2"
    using assms len
    by (auto simp: directory_upto_def AllocateAndZeroGlobalIndexLists_def psum_Suc)
  have step: "\<exists>t'. index_step i u = Some t' \<and> directory_upto counts ?P (i + 1) t'"
    if "1 \<le> i" "i \<le> ?P - 1" "directory_upto counts ?P i u" for i u
    by (rule index_step_directory [OF that(3) that(1,2) assms(2)])
  from for_loop_upto_rule [where I = "directory_upto counts ?P" and a = 1 and b = "?P - 1"
      and k = 1 and body = index_step, OF step _ _ init] assms(1)
  obtain s' where s': "for_loop [1..?P - 1] index_step ?t2 = Some s'"
    "directory_upto counts ?P ?P s'"
    by auto
  have "counts \<noteq> []" using len by simp
  then have "BuildGlobalIndexLists t counts = for_loop [1..?P - 1] index_step ?t2"
    using assms
    by (simp add: BuildGlobalIndexLists_def AllocateAndZeroGlobalIndexLists_def
        vec_set_def vec_get_def Let_def)
  with s' show ?thesis by auto
qed


lemma u_whoHas_finds:
  assumes mono: "\<And>i j. i \<le> j \<Longrightarrow> j < length sv \<Longrightarrow> sv ! i \<le> sv ! j"
  shows "0 \<le> L \<Longrightarrow> L \<le> R \<Longrightarrow> R < int (length sv) \<Longrightarrow> sv ! nat L \<le> pos \<Longrightarrow>
         (R + 1 < int (length sv) \<longrightarrow> pos < sv ! nat (R + 1)) \<Longrightarrow>
         \<exists>p. u_whoHas sv L R pos = Some p \<and> L \<le> p \<and> p \<le> R \<and> sv ! nat p \<le> pos \<and>
             (p + 1 < int (length sv) \<longrightarrow> pos < sv ! nat (p + 1))"
proof (induction "nat (R - L)" arbitrary: L R rule: less_induct)
  case less
  show ?case
  proof (cases "L = R")
    case True
    with less.prems show ?thesis by (simp add: u_whoHas.simps)
  next
    case False
    define M where "M = (L + R) div 2"
    have M: "L \<le> M" "M < R" using False less.prems(2) by (auto simp: M_def)
    have gM: "vec_get sv M = Some (sv ! nat M)"
      using M less.prems by (simp add: vec_get_def)
    have gM1: "vec_get sv (M + 1) = Some (sv ! nat (M + 1))"
      using M less.prems by (simp add: vec_get_def)
    show ?thesis
    proof (cases "pos < sv ! nat M")
      case True
      have "M \<noteq> L" using True less.prems(4) by auto
      then have LM: "L \<le> M - 1" using M by simp
      have "nat (M - 1 - L) < nat (R - L)" using M LM by linarith
      from less.hyps [OF this less.prems(1) LM] M less.prems True
      obtain p where "u_whoHas sv L (M - 1) pos = Some p" "L \<le> p" "p \<le> M - 1"
        "sv ! nat p \<le> pos" "p + 1 < int (length sv) \<longrightarrow> pos < sv ! nat (p + 1)"
        by auto
      then show ?thesis
        using False True M by (subst u_whoHas.simps) (simp add: M_def [symmetric] gM)
    next
      case nl: False
      show ?thesis
      proof (cases "pos < sv ! nat (M + 1)")
        case True
        then show ?thesis
          using False nl M less.prems
          by (subst u_whoHas.simps) (simp add: M_def [symmetric] gM gM1)
      next
        case nr: False
        have "nat (R - (M + 1)) < nat (R - L)" using M by linarith
        from less.hyps [OF this, of] M less.prems nr
        obtain p where "u_whoHas sv (M + 1) R pos = Some p" "M + 1 \<le> p" "p \<le> R"
          "sv ! nat p \<le> pos" "p + 1 < int (length sv) \<longrightarrow> pos < sv ! nat (p + 1)"
          by auto
        then show ?thesis
          using False nl nr M by (subst u_whoHas.simps) (simp add: M_def [symmetric] gM gM1)
      qed
    qed
  qed
qed

text \<open>The state a constructor call leaves behind.\<close>

definition vtkPKdTree_new :: PKdTree where
  "vtkPKdTree_new =
     \<lparr>NumProcesses = 1, MyId = 0, StartVal = [], EndVal = [], NumCells = [],
      TotalNumCells = 0, CurrentPtArray = [], Top = None, NumberOfRegions = 0,
      ValidDirections = 7, RegionAssignment = 1, RegionAssignmentMap = [],
      NumRegionsAssigned = [], ProcessAssignmentMap = [], DataLocationMap = []\<rparr>"

text \<open>
  Claim C5 as stated asks for strictly increasing \<open>StartVal\<close> and \<open>EndVal\<close> vectors for all
  counts \<open>count[i] \<ge> 0\<close>.  With two processes holding 0 and 3 points, \<open>StartVal\<close> is
  \<open>[0, 0]\<close>.
\<close>

theorem BuildGlobalIndexLists_strict_counterexample:
  "map_option StartVal (BuildGlobalIndexLists (vtkPKdTree_new\<lparr>NumProcesses := 2\<rparr>) [0, 3])
     = Some [0, 0] \<and>
   \<not> sorted_wrt (<) [0, 0 :: int]"
  by (simp add: BuildGlobalIndexLists_def AllocateAndZeroGlobalIndexLists_def index_step_def
      vec_get_def vec_set_def vtkPKdTree_new_def upto.simps numeral_2_eq_2 numeral_3_eq_3)

text \<open>
  Claim C5, amended.  For per-process counts \<open>count[i] \<ge> 0\<close>, one per process:
  \<open>StartVal[0] = 0\<close>, \<open>EndVal[i] = StartVal[i] + count[i] - 1\<close>,
  \<open>StartVal[i+1] = EndVal[i] + 1\<close>, \<open>TotalNumCells\<close> is the sum of the counts, both vectors
  are non-decreasing, \<open>StartVal\<close> increases strictly from \<open>i\<close> to \<open>i+1\<close> exactly when
  \<open>count[i] > 0\<close> and \<open>EndVal\<close> exactly when \<open>count[i+1] > 0\<close>, and for every global index
  \<open>g\<close> in \<open>[0, N)\<close> \<open>WhoHas(g)\<close> returns the unique process \<open>p\<close> with
  \<open>StartVal[p] \<le> g \<le> EndVal[p]\<close>.
\<close>

theorem BuildGlobalIndexLists_owner:
  assumes "0 < NumProcesses t" and "length counts = nat (NumProcesses t)"
    and "\<forall>c \<in> set counts. 0 \<le> c"
  shows "\<exists>t'. BuildGlobalIndexLists t counts = Some t' \<and>
     StartVal t' ! 0 = 0 \<and>
     (\<forall>i < length counts. EndVal t' ! i = StartVal t' ! i + counts ! i - 1) \<and>
     (\<forall>i. Suc i < length counts \<longrightarrow> StartVal t' ! Suc i = EndVal t' ! i + 1) \<and>
     TotalNumCells t' = sum_list counts \<and>
     sorted (StartVal t') \<and> sorted (EndVal t') \<and>
     (\<forall>i. Suc i < length counts \<longrightarrow>
        (StartVal t' ! i < StartVal t' ! Suc i \<longleftrightarrow> 0 < counts ! i) \<and>
        (EndVal t' ! i < EndVal t' ! Suc i \<longleftrightarrow> 0 < counts ! Suc i)) \<and>
     (\<forall>g. 0 \<le> g \<and> g < sum_list counts \<longrightarrow>
        (\<exists>p < length counts. WhoHas t' g = Some (int p) \<and>
           StartVal t' ! p \<le> g \<and> g \<le> EndVal t' ! p \<and>
           (\<forall>q < length counts. StartVal t' ! q \<le> g \<and> g \<le> EndVal t' ! q \<longrightarrow> q = p)))"
proof -
  let ?P = "NumProcesses t"
  let ?n = "length counts"
  from BuildGlobalIndexLists_directory [OF assms(1,2)] obtain t' where
    b: "BuildGlobalIndexLists t counts = Some t'" and
    d: "directory_upto counts ?P ?P t'" by blast
  have n: "?n = nat ?P" "0 < ?n" using assms by simp_all
  have P': "NumProcesses t' = ?P" and lens: "length (StartVal t') = ?n" "length (EndVal t') = ?n"
    and tot: "TotalNumCells t' = sum_list counts"
    using d n by (simp_all add: directory_upto_def psum_all)
  have sv: "StartVal t' ! j = psum counts j" and ev: "EndVal t' ! j = psum counts (Suc j) - 1"
    if "j < ?n" for j
    using d that n by (simp_all add: directory_upto_def)
  have mono: "psum counts i \<le> psum counts j" if "i \<le> j" for i j
    by (rule psum_mono [OF assms(3) that])
  have c1: "StartVal t' ! 0 = 0" using sv [OF n(2)] by simp
  have c2: "\<forall>i < ?n. EndVal t' ! i = StartVal t' ! i + counts ! i - 1"
    by (simp add: sv ev psum_Suc)
  have c3: "\<forall>i. Suc i < ?n \<longrightarrow> StartVal t' ! Suc i = EndVal t' ! i + 1"
    by (simp add: sv ev)
  have c5: "sorted (StartVal t')"
    unfolding sorted_iff_nth_mono using lens sv mono by simp
  have c6: "sorted (EndVal t')"
    unfolding sorted_iff_nth_mono
  proof (intro allI impI)
    fix i j assume ij: "i \<le> j" "j < length (EndVal t')"
    then have "psum counts (Suc i) \<le> psum counts (Suc j)" by (intro mono) simp
    then show "EndVal t' ! i \<le> EndVal t' ! j" using ij lens ev by simp
  qed
  have c7: "\<forall>i. Suc i < ?n \<longrightarrow>
        (StartVal t' ! i < StartVal t' ! Suc i \<longleftrightarrow> 0 < counts ! i) \<and>
        (EndVal t' ! i < EndVal t' ! Suc i \<longleftrightarrow> 0 < counts ! Suc i)"
    by (simp add: sv ev psum_Suc)
  have c8: "\<exists>p < ?n. WhoHas t' g = Some (int p) \<and>
           StartVal t' ! p \<le> g \<and> g \<le> EndVal t' ! p \<and>
           (\<forall>q < ?n. StartVal t' ! q \<le> g \<and> g \<le> EndVal t' ! q \<longrightarrow> q = p)"
    if g: "0 \<le> g" "g < sum_list counts" for g
  proof -
    have m: "StartVal t' ! i \<le> StartVal t' ! j" if "i \<le> j" "j < length (StartVal t')" for i j
      using that lens sv mono by simp
    have "\<exists>p. u_whoHas (StartVal t') 0 (?P - 1) g = Some p \<and> 0 \<le> p \<and> p \<le> ?P - 1 \<and>
             StartVal t' ! nat p \<le> g \<and>
             (p + 1 < int (length (StartVal t')) \<longrightarrow> g < StartVal t' ! nat (p + 1))"
      by (rule u_whoHas_finds [OF m]) (use assms(1) g lens n c1 in auto)
    then obtain p where p: "u_whoHas (StartVal t') 0 (?P - 1) g = Some p" "0 \<le> p" "p \<le> ?P - 1"
      "StartVal t' ! nat p \<le> g"
      "p + 1 < int ?n \<longrightarrow> g < StartVal t' ! nat (p + 1)"
      using lens by auto
    have pn: "nat p < ?n" using p(2,3) n by linarith
    have up: "g < psum counts (Suc (nat p))"
    proof (cases "p + 1 < int ?n")
      case True
      then have "Suc (nat p) < ?n" "nat (p + 1) = Suc (nat p)" using p(2) by linarith+
      with p(5) True sv show ?thesis by simp
    next
      case False
      then have "?n \<le> Suc (nat p)" by linarith
      then show ?thesis using g(2) by (simp add: psum_all)
    qed
    have w: "WhoHas t' g = Some (int (nat p))"
      using g p(1,2) by (simp add: WhoHas_def tot P')
    have uniq: "q = nat p" if q: "q < ?n" "StartVal t' ! q \<le> g" "g \<le> EndVal t' ! q" for q
    proof (rule ccontr)
      assume "q \<noteq> nat p"
      then consider "Suc q \<le> nat p" | "Suc (nat p) \<le> q" by linarith
      then show False
      proof cases
        case 1
        from mono [OF 1] q(3) ev [OF q(1)] p(4) sv [OF pn] show False by simp
      next
        case 2
        from mono [OF 2] up q(2) sv [OF q(1)] show False by simp
      qed
    qed
    have "g \<le> EndVal t' ! nat p" using up ev [OF pn] by simp
    have ge: "g \<le> EndVal t' ! nat p" by fact
    show ?thesis
    proof (intro exI [of _ "nat p"] conjI allI impI)
      show "nat p < ?n" by (rule pn)
      show "WhoHas t' g = Some (int (nat p))" by (rule w)
      show "StartVal t' ! nat p \<le> g" by (rule p(4))
      show "g \<le> EndVal t' ! nat p" by (rule ge)
      fix q assume "q < ?n" "StartVal t' ! q \<le> g \<and> g \<le> EndVal t' ! q"
      then show "q = nat p" using uniq by blast
    qed
  qed
  then have c8': "\<forall>g. 0 \<le> g \<and> g < sum_list counts \<longrightarrow>
        (\<exists>p < ?n. WhoHas t' g = Some (int p) \<and>
           StartVal t' ! p \<le> g \<and> g \<le> EndVal t' ! p \<and>
           (\<forall>q < ?n. StartVal t' ! q \<le> g \<and> g \<le> EndVal t' ! q \<longrightarrow> q = p))"
    by simp
  show ?thesis
    by (rule exI [of _ t']) (intro conjI b c1 c2 c3 tot c5 c6 c7 c8')
qed

theorem BuildGlobalIndexLists_owner_witness:
  "0 < NumProcesses (vtkPKdTree_new\<lparr>NumProcesses := 3\<rparr>) \<and>
   length [2, 0, 3 :: int] = nat (NumProcesses (vtkPKdTree_new\<lparr>NumProcesses := 3\<rparr>)) \<and>
   list_all (\<lambda>c. 0 \<le> c) [2, 0, 3 :: int] \<and>
   (\<exists>t'. BuildGlobalIndexLists (vtkPKdTree_new\<lparr>NumProcesses := 3\<rparr>) [2, 0, 3] = Some t' \<and>
      StartVal t' = [0, 2, 2] \<and> EndVal t' = [1, 1, 4] \<and> TotalNumCells t' = 5 \<and>
      WhoHas t' 2 = Some 2 \<and> (\<exists>p < 3. WhoHas t' 1 = Some (int p) \<and> StartVal t' ! p \<le> 1))"
proof -
  let ?t = "vtkPKdTree_new\<lparr>NumProcesses := 3\<rparr>"
  have h: "0 < NumProcesses ?t" "length [2, 0, 3 :: int] = nat (NumProcesses ?t)"
    "\<forall>c \<in> set [2, 0, 3 :: int]. 0 \<le> c"
    by (simp_all add: vtkPKdTree_new_def)
  from BuildGlobalIndexLists_owner [OF h] obtain t' where
    t': "BuildGlobalIndexLists ?t [2, 0, 3] = Some t'"
    and o: "\<forall>g. 0 \<le> g \<and> g < sum_list [2, 0, 3] \<longrightarrow>
        (\<exists>p < length [2, 0, 3 :: int]. WhoHas t' g = Some (int p) \<and>
           StartVal t' ! p \<le> g \<and> g \<le> EndVal t' ! p \<and>
           (\<forall>q < length [2, 0, 3 :: int]. StartVal t' ! q \<le> g \<and> g \<le> EndVal t' ! q \<longrightarrow> q = p))"
    by blast
  have v: "StartVal t' = [0, 2, 2]" "EndVal t' = [1, 1, 4]" "TotalNumCells t' = 5"
    "NumProcesses t' = 3"
    using t'
    by (auto simp: BuildGlobalIndexLists_def AllocateAndZeroGlobalIndexLists_def index_step_def
        vec_get_def vec_set_def vtkPKdTree_new_def upto.simps numeral_2_eq_2 numeral_3_eq_3)
  have "WhoHas t' 2 = u_whoHas [0, 2, 2] 0 2 2"
    by (simp add: WhoHas_def v)
  also have "\<dots> = Some 2"
    by (simp add: u_whoHas.simps vec_get_def)
  finally have w2: "WhoHas t' 2 = Some 2" .
  have a: "0 \<le> (1::int) \<and> 1 < sum_list [2, 0, 3 :: int]" by simp
  from mp [OF spec [OF o, of 1] a]
  obtain p where "p < length [2, 0, 3 :: int]" "WhoHas t' 1 = Some (int p)"
    "StartVal t' ! p \<le> 1"
    by (elim exE conjE)
  then have w1: "\<exists>p < 3. WhoHas t' 1 = Some (int p) \<and> StartVal t' ! p \<le> 1"
    by (intro exI [of _ p]) simp
  have la: "list_all (\<lambda>c. 0 \<le> c) [2, 0, 3 :: int]" by simp
  show ?thesis
    by (intro conjI h(1,2) la exI [of _ t'] t' v w2 w1)
qed

section \<open>Region assignment\<close>

text \<open>
  \<open>GetNumberOfRegions\<close> is an accessor of the base class and reads \<open>NumberOfRegions\<close>;
  \<open>GetRegionAssignmentMapLength\<close> is declared in the header, which is outside these
  sources, and is modelled by its name: the length of \<open>RegionAssignmentMap\<close>.
\<close>

definition NoRegionAssignment :: int where "NoRegionAssignment = 0"
definition ContiguousAssignment :: int where "ContiguousAssignment = 1"
definition UserDefinedAssignment :: int where "UserDefinedAssignment = 2"
definition RoundRobinAssignment :: int where "RoundRobinAssignment = 3"

definition GetRegionAssignmentMapLength :: "PKdTree \<Rightarrow> int" where
  "GetRegionAssignmentMapLength t = int (length (RegionAssignmentMap t))"

definition AllocateAndZeroRegionAssignmentLists :: "PKdTree \<Rightarrow> PKdTree" where
  "AllocateAndZeroRegionAssignmentLists t =
     t\<lparr>RegionAssignmentMap := replicate (nat (NumberOfRegions t)) 0,
       NumRegionsAssigned := replicate (nat (NumProcesses t)) 0,
       ProcessAssignmentMap := replicate (nat (NumProcesses t)) []\<rparr>"

text \<open>
  \<open>BuildRegionListsForProcesses\<close>: size every process's list by its count, then drop
  each region into the next free place of its owner's list.
\<close>

definition resize_step :: "int \<Rightarrow> PKdTree \<times> int list \<Rightarrow> (PKdTree \<times> int list) option" where
  "resize_step p tc = (case tc of (t, cnt) \<Rightarrow> do {
     n \<leftarrow> vec_get (NumRegionsAssigned t) p;
     old \<leftarrow> vec_get (ProcessAssignmentMap t) p;
     pam \<leftarrow> vec_set (ProcessAssignmentMap t) p (take (nat n) old @ replicate (nat n - length old) 0);
     cnt' \<leftarrow> vec_set cnt p 0;
     Some (t\<lparr>ProcessAssignmentMap := pam\<rparr>, cnt')
   })"

definition place_step :: "int \<Rightarrow> PKdTree \<times> int list \<Rightarrow> (PKdTree \<times> int list) option" where
  "place_step r tc = (case tc of (t, cnt) \<Rightarrow> do {
     proc \<leftarrow> vec_get (RegionAssignmentMap t) r;
     next \<leftarrow> vec_get cnt proc;
     row \<leftarrow> vec_get (ProcessAssignmentMap t) proc;
     row' \<leftarrow> vec_set row next r;
     pam \<leftarrow> vec_set (ProcessAssignmentMap t) proc row';
     cnt' \<leftarrow> vec_set cnt proc (next + 1);
     Some (t\<lparr>ProcessAssignmentMap := pam\<rparr>, cnt')
   })"

definition BuildRegionListsForProcesses :: "PKdTree \<Rightarrow> PKdTree option" where
  "BuildRegionListsForProcesses t = do {
     tc \<leftarrow> for_loop [0..NumProcesses t - 1] resize_step (t, replicate (nat (NumProcesses t)) 0);
     tc' \<leftarrow> for_loop [0..GetRegionAssignmentMapLength (fst tc) - 1] place_step tc;
     Some (fst tc')
   }"

text \<open>The loop of \<open>AssignRegionsRoundRobin\<close> carries \<open>procID\<close> beside the object.\<close>

definition round_robin_step :: "int \<Rightarrow> int \<Rightarrow> PKdTree \<times> int \<Rightarrow> (PKdTree \<times> int) option" where
  "round_robin_step nProcesses i tp = (case tp of (t, procID) \<Rightarrow> do {
     ram \<leftarrow> vec_set (RegionAssignmentMap t) i procID;
     n \<leftarrow> vec_get (NumRegionsAssigned t) procID;
     nra \<leftarrow> vec_set (NumRegionsAssigned t) procID (n + 1);
     Some (t\<lparr>RegionAssignmentMap := ram, NumRegionsAssigned := nra\<rparr>,
           if procID = nProcesses - 1 then 0 else procID + 1)
   })"

definition AssignRegionsRoundRobin :: "PKdTree \<Rightarrow> PKdTree option" where
  "AssignRegionsRoundRobin t0 =
     (let t = t0\<lparr>RegionAssignment := RoundRobinAssignment\<rparr> in
      if Top t = None then Some t
      else do {
        let nProcesses = NumProcesses t;
        let nRegions = NumberOfRegions t;
        tp \<leftarrow> for_loop [0..nRegions - 1] (round_robin_step nProcesses)
                (AllocateAndZeroRegionAssignmentLists t, 0);
        BuildRegionListsForProcesses (fst tp)
      })"

subsection \<open>Counting sort of the regions\<close>

definition regs :: "int list \<Rightarrow> int \<Rightarrow> int \<Rightarrow> int list" where
  "regs ram p k = filter (\<lambda>r. ram ! nat r = p) [0..k - 1]"

lemma regs_0 [simp]: "regs ram p 0 = []"
  by (simp add: regs_def)

lemma regs_step:
  "0 \<le> k \<Longrightarrow> regs ram p (k + 1) = regs ram p k @ (if ram ! nat k = p then [k] else [])"
  by (simp add: regs_def upto_rec2)

lemma length_regs_mono: "0 \<le> k \<Longrightarrow> k \<le> n \<Longrightarrow> length (regs ram p k) \<le> length (regs ram p n)"
proof -
  assume "0 \<le> k" "k \<le> n"
  then have "[0..n - 1] = [0..k - 1] @ [k..n - 1]"
    using upto_split2 [of 0 "k - 1" "n - 1"] by (cases "k = 0") auto
  then show ?thesis by (simp add: regs_def)
qed

lemma length_regs_less:
  assumes "0 \<le> k" and "k < n" and "ram ! nat k = p"
  shows "length (regs ram p k) < length (regs ram p n)"
proof -
  have "length (regs ram p (k + 1)) \<le> length (regs ram p n)"
    using assms by (intro length_regs_mono) auto
  then show ?thesis using assms by (simp add: regs_step)
qed

definition sized :: "int \<Rightarrow> int list \<Rightarrow> int list \<Rightarrow> int \<Rightarrow> PKdTree \<times> int list \<Rightarrow> bool" where
  "sized P ram nra k tc \<longleftrightarrow> (case tc of (t, cnt) \<Rightarrow>
     NumProcesses t = P \<and> RegionAssignmentMap t = ram \<and> NumRegionsAssigned t = nra \<and>
     length (ProcessAssignmentMap t) = nat P \<and> length cnt = nat P \<and>
     (\<forall>p < nat k. length (ProcessAssignmentMap t ! p) = nat (nra ! p) \<and> cnt ! p = 0))"

lemma min_plus_diff [simp]: "min (a::nat) b + (b - a) = b"
  by arith

lemma resize_step_sized:
  assumes "sized P ram nra k tc" and "0 \<le> k" and "k \<le> P - 1" and "length nra = nat P"
  shows "\<exists>tc'. resize_step k tc = Some tc' \<and> sized P ram nra (k + 1) tc'"
proof -
  obtain t cnt where tc: "tc = (t, cnt)" by (cases tc)
  from assms(1) have d: "NumProcesses t = P" "RegionAssignmentMap t = ram"
    "NumRegionsAssigned t = nra" "length (ProcessAssignmentMap t) = nat P" "length cnt = nat P"
    "\<And>p. p < nat k \<Longrightarrow> length (ProcessAssignmentMap t ! p) = nat (nra ! p) \<and> cnt ! p = 0"
    by (auto simp: sized_def tc)
  have kP: "nat k < nat P" "nat (k + 1) = Suc (nat k)" using assms(2,3) by linarith+
  have g1: "vec_get (NumRegionsAssigned t) k = Some (nra ! nat k)"
    using d(3) assms kP by (simp add: vec_get_def)
  have g2: "vec_get (ProcessAssignmentMap t) k = Some (ProcessAssignmentMap t ! nat k)"
    using d(4) assms kP by (simp add: vec_get_def)
  have s1: "vec_set (ProcessAssignmentMap t) k v = Some ((ProcessAssignmentMap t)[nat k := v])" for v
    using d(4) assms kP by (simp add: vec_set_def)
  have s2: "vec_set cnt k v = Some (cnt[nat k := v])" for v
    using d(5) assms kP by (simp add: vec_set_def)
  show ?thesis
    unfolding tc resize_step_def prod.case g1 g2 s1 s2
    using d kP by (auto simp: sized_def nth_list_update less_Suc_eq)
qed

definition placed :: "int \<Rightarrow> int list \<Rightarrow> int list \<Rightarrow> int \<Rightarrow> PKdTree \<times> int list \<Rightarrow> bool" where
  "placed P ram nra k tc \<longleftrightarrow> (case tc of (t, cnt) \<Rightarrow>
     NumProcesses t = P \<and> RegionAssignmentMap t = ram \<and> NumRegionsAssigned t = nra \<and>
     length (ProcessAssignmentMap t) = nat P \<and> length cnt = nat P \<and>
     (\<forall>p < nat P. length (ProcessAssignmentMap t ! p) = nat (nra ! p) \<and>
        cnt ! p = int (length (regs ram (int p) k)) \<and>
        take (length (regs ram (int p) k)) (ProcessAssignmentMap t ! p) = regs ram (int p) k))"

lemma place_step_placed:
  assumes inv: "placed P ram nra k tc" and k: "0 \<le> k" "k \<le> int (length ram) - 1"
    and ram: "\<forall>r \<in> set ram. 0 \<le> r \<and> r < P"
    and nra: "\<forall>p < nat P. nra ! p = int (length (regs ram (int p) (int (length ram))))"
  shows "\<exists>tc'. place_step k tc = Some tc' \<and> placed P ram nra (k + 1) tc'"
proof -
  obtain t cnt where tc: "tc = (t, cnt)" by (cases tc)
  from inv have d: "NumProcesses t = P" "RegionAssignmentMap t = ram"
    "NumRegionsAssigned t = nra" "length (ProcessAssignmentMap t) = nat P" "length cnt = nat P"
    and rows: "\<And>p. p < nat P \<Longrightarrow> length (ProcessAssignmentMap t ! p) = nat (nra ! p) \<and>
        cnt ! p = int (length (regs ram (int p) k)) \<and>
        take (length (regs ram (int p) k)) (ProcessAssignmentMap t ! p) = regs ram (int p) k"
    by (auto simp: placed_def tc)
  define proc where "proc = ram ! nat k"
  have kl: "nat k < length ram" using k by linarith
  then have pr: "0 \<le> proc" "proc < P" using ram by (auto simp: proc_def)
  then have pP: "nat proc < nat P" "int (nat proc) = proc" by linarith+
  define row where "row = ProcessAssignmentMap t ! nat proc"
  define c where "c = length (regs ram proc k)"
  have row: "length row = nat (nra ! nat proc)" "cnt ! nat proc = int c" "take c row = regs ram proc k"
    using rows [OF pP(1), unfolded pP(2)] by (simp_all add: row_def c_def)
  have "c < length (regs ram proc (int (length ram)))"
    unfolding c_def using k by (intro length_regs_less) (auto simp: proc_def)
  then have cl: "c < length row" using row(1) nra pP by simp
  have g1: "vec_get (RegionAssignmentMap t) k = Some proc"
    using d(2) kl k by (simp add: vec_get_def proc_def)
  have g2: "vec_get cnt proc = Some (int c)"
    using d(5) pr pP(1) row(2) by (simp add: vec_get_def)
  have g3: "vec_get (ProcessAssignmentMap t) proc = Some row"
    using d(4) pr pP(1) by (simp add: vec_get_def row_def)
  have s1: "vec_set row (int c) k = Some (row[c := k])"
    using cl by (simp add: vec_set_def)
  have s2: "vec_set (ProcessAssignmentMap t) proc v = Some ((ProcessAssignmentMap t)[nat proc := v])" for v
    using d(4) pr pP(1) by (simp add: vec_set_def)
  have s3: "vec_set cnt proc v = Some (cnt[nat proc := v])" for v
    using d(5) pr pP(1) by (simp add: vec_set_def)
  let ?t' = "t\<lparr>ProcessAssignmentMap := (ProcessAssignmentMap t)[nat proc := row[c := k]]\<rparr>"
  let ?cnt' = "cnt[nat proc := int c + 1]"
  have st: "place_step k tc = Some (?t', ?cnt')"
    by (simp add: tc place_step_def g1 g2 g3 s1 s2 s3)
  have own: "take (length (regs ram proc (k + 1))) (row[c := k]) = regs ram proc (k + 1)"
  proof -
    have "take (Suc c) (row[c := k]) = take c row @ [k]"
      using cl by (simp add: take_Suc_conv_app_nth)
    then show ?thesis using k(1) row(3) by (simp add: regs_step proc_def c_def)
  qed
  have "placed P ram nra (k + 1) (?t', ?cnt')"
    unfolding placed_def prod.case
  proof (intro conjI allI impI)
    fix p assume p: "p < nat P"
    show "length (ProcessAssignmentMap ?t' ! p) = nat (nra ! p)"
      using rows [OF p] d(4) p row(1) by (cases "p = nat proc") (simp_all add: row_def)
    show "?cnt' ! p = int (length (regs ram (int p) (k + 1)))"
    proof (cases "p = nat proc")
      case True
      then show ?thesis using d(5) p pP k(1) by (simp add: regs_step c_def proc_def)
    next
      case False
      then have "ram ! nat k \<noteq> int p" using pP by (auto simp: proc_def)
      then show ?thesis using False rows [OF p] k(1) by (simp add: regs_step)
    qed
    show "take (length (regs ram (int p) (k + 1))) (ProcessAssignmentMap ?t' ! p)
            = regs ram (int p) (k + 1)"
    proof (cases "p = nat proc")
      case True
      then show ?thesis using d(4) p pP own by simp
    next
      case False
      then have "ram ! nat k \<noteq> int p" using pP by (auto simp: proc_def)
      then show ?thesis using False rows [OF p] k(1) by (simp add: regs_step)
    qed
  qed (use d in simp_all)
  with st show ?thesis by blast
qed

lemma BuildRegionListsForProcesses_sorts:
  assumes P: "0 < NumProcesses t"
    and ram: "\<forall>r \<in> set (RegionAssignmentMap t). 0 \<le> r \<and> r < NumProcesses t"
    and len: "length (NumRegionsAssigned t) = nat (NumProcesses t)"
      "length (ProcessAssignmentMap t) = nat (NumProcesses t)"
    and nra: "\<forall>p < nat (NumProcesses t). NumRegionsAssigned t ! p =
                int (length (regs (RegionAssignmentMap t) (int p)
                               (int (length (RegionAssignmentMap t)))))"
  shows "\<exists>t'. BuildRegionListsForProcesses t = Some t' \<and>
              RegionAssignmentMap t' = RegionAssignmentMap t \<and>
              length (ProcessAssignmentMap t') = nat (NumProcesses t) \<and>
              (\<forall>p < nat (NumProcesses t). ProcessAssignmentMap t' ! p =
                 regs (RegionAssignmentMap t) (int p) (int (length (RegionAssignmentMap t))))"
proof -
  let ?P = "NumProcesses t" and ?ram = "RegionAssignmentMap t" and ?nra = "NumRegionsAssigned t"
  let ?R = "int (length ?ram)"
  have i1: "sized ?P ?ram ?nra 0 (t, replicate (nat ?P) 0)"
    using len by (simp add: sized_def)
  have st1: "\<exists>tc'. resize_step i u = Some tc' \<and> sized ?P ?ram ?nra (i + 1) tc'"
    if "0 \<le> i" "i \<le> ?P - 1" "sized ?P ?ram ?nra i u" for i u
    by (rule resize_step_sized [OF that(3) that(1,2) len(1)])
  from for_loop_upto_rule [where I = "sized ?P ?ram ?nra" and a = 0 and b = "?P - 1"
      and k = 0 and body = resize_step, OF st1 _ _ i1] P
  obtain tc where tc: "for_loop [0..?P - 1] resize_step (t, replicate (nat ?P) 0) = Some tc"
    "sized ?P ?ram ?nra ?P tc" by auto
  obtain t1 c1 where t1: "tc = (t1, c1)" by (cases tc)
  have i2: "placed ?P ?ram ?nra 0 tc"
    using tc(2) by (auto simp: sized_def placed_def t1)
  have st2: "\<exists>tc'. place_step i u = Some tc' \<and> placed ?P ?ram ?nra (i + 1) tc'"
    if "0 \<le> i" "i \<le> ?R - 1" "placed ?P ?ram ?nra i u" for i u
    by (rule place_step_placed [OF that(3) that(1,2) ram nra])
  from for_loop_upto_rule [where I = "placed ?P ?ram ?nra" and a = 0 and b = "?R - 1"
      and k = 0 and body = place_step, OF st2 _ _ i2]
  obtain tc' where tc': "for_loop [0..?R - 1] place_step tc = Some tc'"
    "placed ?P ?ram ?nra ?R tc'" by auto
  obtain t2 c2 where t2: "tc' = (t2, c2)" by (cases tc')
  have r1: "RegionAssignmentMap t1 = ?ram" using tc(2) by (simp add: sized_def t1)
  have b: "BuildRegionListsForProcesses t = Some t2"
    by (simp add: BuildRegionListsForProcesses_def tc(1) t1 GetRegionAssignmentMapLength_def r1
        tc'(1) [unfolded t1] t2)
  from tc'(2) have f: "RegionAssignmentMap t2 = ?ram" "length (ProcessAssignmentMap t2) = nat ?P"
    and rows: "\<And>p. p < nat ?P \<Longrightarrow> length (ProcessAssignmentMap t2 ! p) = nat (?nra ! p) \<and>
        take (length (regs ?ram (int p) ?R)) (ProcessAssignmentMap t2 ! p) = regs ?ram (int p) ?R"
    by (auto simp: placed_def t2)
  have "ProcessAssignmentMap t2 ! p = regs ?ram (int p) ?R" if "p < nat ?P" for p
  proof -
    have "length (ProcessAssignmentMap t2 ! p) = length (regs ?ram (int p) ?R)"
      using rows [OF that] nra that by simp
    then have "take (length (regs ?ram (int p) ?R)) (ProcessAssignmentMap t2 ! p)
                 = ProcessAssignmentMap t2 ! p"
      by simp
    then show ?thesis using rows [OF that] by simp
  qed
  with b f show ?thesis by blast
qed

subsection \<open>Round robin\<close>

definition dealt :: "int \<Rightarrow> int \<Rightarrow> int \<Rightarrow> PKdTree \<times> int \<Rightarrow> bool" where
  "dealt P R k tp \<longleftrightarrow> (case tp of (t, procID) \<Rightarrow>
     NumProcesses t = P \<and> length (RegionAssignmentMap t) = nat R \<and>
     (\<forall>r < nat k. RegionAssignmentMap t ! r = int r mod P) \<and>
     length (NumRegionsAssigned t) = nat P \<and>
     (\<forall>p < nat P. NumRegionsAssigned t ! p
                     = int (length (filter (\<lambda>r. r mod P = int p) [0..k - 1]))) \<and>
     length (ProcessAssignmentMap t) = nat P \<and>
     procID = k mod P)"

lemma next_procID:
  assumes "0 < (P::int)"
  shows "(if k mod P = P - 1 then 0 else k mod P + 1) = (k + 1) mod P"
proof -
  have b: "0 \<le> k mod P" "k mod P < P" using assms by simp_all
  have e: "(k + 1) mod P = (k mod P + 1) mod P" by (simp add: mod_add_left_eq)
  show ?thesis
  proof (cases "k mod P = P - 1")
    case True
    then show ?thesis unfolding e by simp
  next
    case False
    then have "k mod P + 1 < P" using b by linarith
    then show ?thesis unfolding e using b False by (simp add: mod_pos_pos_trivial)
  qed
qed

lemma round_robin_step_dealt:
  assumes inv: "dealt P R k tp" and k: "0 \<le> k" "k \<le> R - 1" and P: "0 < P"
  shows "\<exists>tp'. round_robin_step P k tp = Some tp' \<and> dealt P R (k + 1) tp'"
proof -
  obtain t procID where tp: "tp = (t, procID)" by (cases tp)
  from inv have d: "NumProcesses t = P" "length (RegionAssignmentMap t) = nat R"
    "\<And>r. r < nat k \<Longrightarrow> RegionAssignmentMap t ! r = int r mod P"
    "length (NumRegionsAssigned t) = nat P"
    "\<And>p. p < nat P \<Longrightarrow> NumRegionsAssigned t ! p
                     = int (length (filter (\<lambda>r. r mod P = int p) [0..k - 1]))"
    "length (ProcessAssignmentMap t) = nat P" "procID = k mod P"
    by (auto simp: dealt_def tp)
  have pr: "0 \<le> procID" "procID < P" using P d(7) by simp_all
  then have pP: "nat procID < nat P" by linarith
  have kR: "nat k < nat R" "nat (k + 1) = Suc (nat k)" using k by linarith+
  have s1: "vec_set (RegionAssignmentMap t) k v = Some ((RegionAssignmentMap t)[nat k := v])" for v
    using d(2) k kR by (simp add: vec_set_def)
  have g1: "vec_get (NumRegionsAssigned t) procID = Some (NumRegionsAssigned t ! nat procID)"
    using d(4) pr pP by (simp add: vec_get_def)
  have s2: "vec_set (NumRegionsAssigned t) procID v = Some ((NumRegionsAssigned t)[nat procID := v])" for v
    using d(4) pr pP by (simp add: vec_set_def)
  let ?t' = "t\<lparr>RegionAssignmentMap := (RegionAssignmentMap t)[nat k := procID],
                 NumRegionsAssigned := (NumRegionsAssigned t)[nat procID := NumRegionsAssigned t ! nat procID + 1]\<rparr>"
  have st: "round_robin_step P k tp = Some (?t', (k + 1) mod P)"
    by (simp add: tp round_robin_step_def s1 g1 s2 next_procID [OF P, of k, unfolded d(7) [symmetric]])
  have cntk: "filter (\<lambda>r. r mod P = v) [0..k + 1 - 1]
               = filter (\<lambda>r. r mod P = v) [0..k - 1] @ (if k mod P = v then [k] else [])" for v
    using k(1) by (simp add: upto_rec2)
  have "dealt P R (k + 1) (?t', (k + 1) mod P)"
    unfolding dealt_def prod.case
  proof (intro conjI allI impI)
    fix r assume "r < nat (k + 1)"
    then show "RegionAssignmentMap ?t' ! r = int r mod P"
      using d(2,3,7) kR k(1) by (cases "r = nat k") (auto simp: nth_list_update)
  next
    fix p assume p: "p < nat P"
    show "NumRegionsAssigned ?t' ! p = int (length (filter (\<lambda>r. r mod P = int p) [0..k + 1 - 1]))"
    proof (cases "p = nat procID")
      case True
      then have ip: "int p = procID" using pr(1) by simp
      have km: "k mod P = procID" using d(7) by simp
      have "NumRegionsAssigned t ! p = int (length (filter (\<lambda>r. r mod P = procID) [0..k - 1]))"
        using d(5) [OF p] by (simp only: ip)
      moreover have "NumRegionsAssigned ?t' ! p = NumRegionsAssigned t ! p + 1"
        using True d(4) p by simp
      ultimately show ?thesis unfolding cntk ip km by simp
    next
      case False
      then have ne: "k mod P \<noteq> int p" using pr d(7) by auto
      have "NumRegionsAssigned ?t' ! p = NumRegionsAssigned t ! p"
        using False by simp
      then show ?thesis using d(5) [OF p] ne unfolding cntk by simp
    qed
  qed (use d in simp_all)
  with st show ?thesis by blast
qed

lemma AssignRegionsRoundRobin_lists:
  assumes P: "0 < NumProcesses t" and R: "0 \<le> NumberOfRegions t" and T: "Top t \<noteq> None"
  shows "\<exists>t'. AssignRegionsRoundRobin t = Some t' \<and>
     RegionAssignmentMap t' = map (\<lambda>r. r mod NumProcesses t) [0..NumberOfRegions t - 1] \<and>
     length (ProcessAssignmentMap t') = nat (NumProcesses t) \<and>
     (\<forall>p < nat (NumProcesses t). ProcessAssignmentMap t' ! p =
        filter (\<lambda>r. r mod NumProcesses t = int p) [0..NumberOfRegions t - 1])"
proof -
  let ?P = "NumProcesses t" and ?R = "NumberOfRegions t"
  let ?t0 = "AllocateAndZeroRegionAssignmentLists (t\<lparr>RegionAssignment := RoundRobinAssignment\<rparr>)"
  have i: "dealt ?P ?R 0 (?t0, 0)"
    using P by (simp add: dealt_def AllocateAndZeroRegionAssignmentLists_def)
  have st: "\<exists>tp'. round_robin_step ?P i u = Some tp' \<and> dealt ?P ?R (i + 1) tp'"
    if "0 \<le> i" "i \<le> ?R - 1" "dealt ?P ?R i u" for i u
    by (rule round_robin_step_dealt [OF that(3) that(1,2) P])
  from for_loop_upto_rule [where I = "dealt ?P ?R" and a = 0 and b = "?R - 1"
      and k = 0 and body = "round_robin_step ?P", OF st _ _ i] R
  obtain tp where tp: "for_loop [0..?R - 1] (round_robin_step ?P) (?t0, 0) = Some tp"
    "dealt ?P ?R ?R tp" by auto
  obtain t1 q where t1: "tp = (t1, q)" by (cases tp)
  from tp(2) have d: "NumProcesses t1 = ?P" "length (RegionAssignmentMap t1) = nat ?R"
    "\<And>r. r < nat ?R \<Longrightarrow> RegionAssignmentMap t1 ! r = int r mod ?P"
    "length (NumRegionsAssigned t1) = nat ?P"
    "\<And>p. p < nat ?P \<Longrightarrow> NumRegionsAssigned t1 ! p
                     = int (length (filter (\<lambda>r. r mod ?P = int p) [0..?R - 1]))"
    "length (ProcessAssignmentMap t1) = nat ?P"
    by (auto simp: dealt_def t1)
  have lenu: "length [0..?R - 1] = nat ?R" using R by simp
  have ram: "RegionAssignmentMap t1 = map (\<lambda>r. r mod ?P) [0..?R - 1]"
  proof (rule nth_equalityI)
    show "length (RegionAssignmentMap t1) = length (map (\<lambda>r. r mod ?P) [0..?R - 1])"
      using d(2) lenu by simp
    fix i assume "i < length (RegionAssignmentMap t1)"
    then have "i < nat ?R" using d(2) by simp
    then show "RegionAssignmentMap t1 ! i = map (\<lambda>r. r mod ?P) [0..?R - 1] ! i"
      using d(3) lenu by simp
  qed
  have rg: "regs (RegionAssignmentMap t1) p (int (length (RegionAssignmentMap t1)))
              = filter (\<lambda>r. r mod ?P = p) [0..?R - 1]" for p
    unfolding regs_def
  proof (rule filter_cong)
    show "[0..int (length (RegionAssignmentMap t1)) - 1] = [0..?R - 1]"
      using d(2) R by simp
    fix r assume "r \<in> set [0..?R - 1]"
    then have "nat r < nat ?R" "int (nat r) = r" by auto
    then show "(RegionAssignmentMap t1 ! nat r = p) = (r mod ?P = p)"
      using d(3) [of "nat r"] by simp
  qed
  have rng: "\<forall>r \<in> set (RegionAssignmentMap t1). 0 \<le> r \<and> r < NumProcesses t1"
    using P by (auto simp: ram d(1))
  have nra: "\<forall>p < nat (NumProcesses t1). NumRegionsAssigned t1 ! p =
                int (length (regs (RegionAssignmentMap t1) (int p)
                               (int (length (RegionAssignmentMap t1)))))"
    unfolding rg d(1) using d(5) by simp
  from BuildRegionListsForProcesses_sorts [of t1, OF _ rng _ _ nra] P d
  obtain t' where t': "BuildRegionListsForProcesses t1 = Some t'"
    "RegionAssignmentMap t' = RegionAssignmentMap t1"
    "length (ProcessAssignmentMap t') = nat ?P"
    "\<forall>p < nat ?P. ProcessAssignmentMap t' ! p =
        regs (RegionAssignmentMap t1) (int p) (int (length (RegionAssignmentMap t1)))"
    by auto
  from T obtain top where "Top t = Some top" by auto
  then have "AssignRegionsRoundRobin t = Some t'"
    by (simp add: AssignRegionsRoundRobin_def Let_def tp(1) t1 t'(1))
  with t' ram rg show ?thesis by simp
qed

text \<open>A built tree with 16 regions on 4 processes; only the fields read here matter.\<close>

definition built16 :: PKdTree where
  "built16 = vtkPKdTree_new\<lparr>NumProcesses := 4, NumberOfRegions := 16, Top := Some (Leaf blank_node)\<rparr>"

text \<open>
  Claim C8.  With \<open>P > 0\<close> processes, \<open>R \<ge> 0\<close> regions and a tree in place,
  \<open>AssignRegionsRoundRobin\<close> succeeds; afterwards \<open>RegionAssignmentMap[r] = r mod P\<close> for
  every region \<open>r\<close> in \<open>[0, R)\<close>, and for every process \<open>p\<close> the list
  \<open>ProcessAssignmentMap[p]\<close> holds exactly the regions assigned to \<open>p\<close>, that is those with
  \<open>r mod P = p\<close>, in strictly increasing order.  With \<open>P = 4\<close> and \<open>R = 16\<close> the list of
  process 2 is \<open>2, 6, 10, 14\<close>.
\<close>

theorem AssignRegionsRoundRobin_assignment:
  assumes "0 < NumProcesses t" and "0 \<le> NumberOfRegions t" and "Top t \<noteq> None"
  shows "\<exists>t'. AssignRegionsRoundRobin t = Some t' \<and>
     length (RegionAssignmentMap t') = nat (NumberOfRegions t) \<and>
     (\<forall>r. 0 \<le> r \<and> r < NumberOfRegions t \<longrightarrow>
        RegionAssignmentMap t' ! nat r = r mod NumProcesses t) \<and>
     (\<forall>p. 0 \<le> p \<and> p < NumProcesses t \<longrightarrow>
        ProcessAssignmentMap t' ! nat p
          = filter (\<lambda>r. r mod NumProcesses t = p) [0..NumberOfRegions t - 1] \<and>
        set (ProcessAssignmentMap t' ! nat p)
          = {r. 0 \<le> r \<and> r < NumberOfRegions t \<and> RegionAssignmentMap t' ! nat r = p} \<and>
        sorted_wrt (<) (ProcessAssignmentMap t' ! nat p))"
proof -
  let ?P = "NumProcesses t" and ?R = "NumberOfRegions t"
  from AssignRegionsRoundRobin_lists [OF assms] obtain t' where
    a: "AssignRegionsRoundRobin t = Some t'"
    and ram: "RegionAssignmentMap t' = map (\<lambda>r. r mod ?P) [0..?R - 1]"
    and pam: "\<And>p. p < nat ?P \<Longrightarrow> ProcessAssignmentMap t' ! p =
        filter (\<lambda>r. r mod ?P = int p) [0..?R - 1]"
    by blast
  have len: "length (RegionAssignmentMap t') = nat ?R"
    using assms(2) by (simp add: ram)
  have reg: "RegionAssignmentMap t' ! nat r = r mod ?P" if "0 \<le> r" "r < ?R" for r
    using that by (simp add: ram)
  have c2: "\<forall>r. 0 \<le> r \<and> r < ?R \<longrightarrow> RegionAssignmentMap t' ! nat r = r mod ?P"
    using reg by blast
  have c3: "\<forall>p. 0 \<le> p \<and> p < ?P \<longrightarrow>
        ProcessAssignmentMap t' ! nat p = filter (\<lambda>r. r mod ?P = p) [0..?R - 1] \<and>
        set (ProcessAssignmentMap t' ! nat p)
          = {r. 0 \<le> r \<and> r < ?R \<and> RegionAssignmentMap t' ! nat r = p} \<and>
        sorted_wrt (<) (ProcessAssignmentMap t' ! nat p)"
  proof (intro allI impI, elim conjE)
    fix p :: int assume p: "0 \<le> p" "p < ?P"
    then have "nat p < nat ?P" "int (nat p) = p" by linarith+
    with pam [of "nat p"] have e: "ProcessAssignmentMap t' ! nat p
        = filter (\<lambda>r. r mod ?P = p) [0..?R - 1]" by simp
    have s: "set (filter (\<lambda>r. r mod ?P = p) [0..?R - 1])
          = {r. 0 \<le> r \<and> r < ?R \<and> RegionAssignmentMap t' ! nat r = p}"
      using reg by auto
    have o: "sorted_wrt (<) (filter (\<lambda>r. r mod ?P = p) [0..?R - 1])"
      by (intro sorted_wrt_filter) simp
    show "ProcessAssignmentMap t' ! nat p = filter (\<lambda>r. r mod ?P = p) [0..?R - 1] \<and>
        set (ProcessAssignmentMap t' ! nat p)
          = {r. 0 \<le> r \<and> r < ?R \<and> RegionAssignmentMap t' ! nat r = p} \<and>
        sorted_wrt (<) (ProcessAssignmentMap t' ! nat p)"
      unfolding e using s o by simp
  qed
  show ?thesis
    by (rule exI [of _ t']) (intro conjI a len c2 c3)
qed

theorem AssignRegionsRoundRobin_assignment_witness:
  "0 < NumProcesses built16 \<and> 0 \<le> NumberOfRegions built16 \<and> Top built16 \<noteq> None \<and>
   (\<exists>t'. AssignRegionsRoundRobin built16 = Some t' \<and>
      ProcessAssignmentMap t' ! 2 = [2, 6, 10, 14] \<and> RegionAssignmentMap t' ! 6 = 2)"
proof -
  have h: "0 < NumProcesses built16" "0 \<le> NumberOfRegions built16" "Top built16 \<noteq> None"
    by (simp_all add: built16_def vtkPKdTree_new_def)
  from AssignRegionsRoundRobin_assignment [OF h] obtain t' where
    a: "AssignRegionsRoundRobin built16 = Some t'"
    and r: "\<forall>r. 0 \<le> r \<and> r < NumberOfRegions built16 \<longrightarrow>
        RegionAssignmentMap t' ! nat r = r mod NumProcesses built16"
    and p: "\<forall>p. 0 \<le> p \<and> p < NumProcesses built16 \<longrightarrow>
        ProcessAssignmentMap t' ! nat p
          = filter (\<lambda>r. r mod NumProcesses built16 = p) [0..NumberOfRegions built16 - 1] \<and>
        set (ProcessAssignmentMap t' ! nat p)
          = {r. 0 \<le> r \<and> r < NumberOfRegions built16 \<and> RegionAssignmentMap t' ! nat r = p} \<and>
        sorted_wrt (<) (ProcessAssignmentMap t' ! nat p)"
    by blast
  have v: "NumProcesses built16 = 4" "NumberOfRegions built16 = 16"
    by (simp_all add: built16_def vtkPKdTree_new_def)
  have b2: "0 \<le> (2::int) \<and> 2 < NumProcesses built16" by (simp add: v)
  have "ProcessAssignmentMap t' ! nat 2 = filter (\<lambda>r. r mod 4 = 2) [0..16 - 1]"
    using mp [OF spec [OF p, of 2] b2] by (simp only: v)
  also have "\<dots> = [2, 6, 10, 14]" by (simp add: upto.simps)
  finally have p2: "ProcessAssignmentMap t' ! 2 = [2, 6, 10, 14]" by simp
  have b6: "0 \<le> (6::int) \<and> 6 < NumberOfRegions built16" by (simp add: v)
  have r6: "RegionAssignmentMap t' ! 6 = 2"
    using mp [OF spec [OF r, of 6] b6] by (simp add: v)
  show ?thesis
    by (intro conjI h exI [of _ t'] a p2 r6)
qed

section \<open>Queries\<close>

text \<open>
  After its two early returns \<open>AssignRegionsContiguous\<close> walks the tree through
  \<open>GetRegionsAtLevel\<close> and \<open>GetLeafNodeIds\<close> of the base class, which are outside these
  sources; that remainder of the function is the parameter \<open>walk\<close>.
\<close>

definition AssignRegionsContiguous ::
  "(PKdTree \<Rightarrow> PKdTree option) \<Rightarrow> PKdTree \<Rightarrow> PKdTree option" where
  "AssignRegionsContiguous walk t0 =
     (let t = t0\<lparr>RegionAssignment := ContiguousAssignment\<rparr> in
      if Top t = None then Some t
      else if NumberOfRegions t \<le> NumProcesses t
      then map_option (\<lambda>u. u\<lparr>RegionAssignment := ContiguousAssignment\<rparr>)
             (AssignRegionsRoundRobin t)
      else walk t)"

definition UpdateRegionAssignment ::
  "(PKdTree \<Rightarrow> PKdTree option) \<Rightarrow> PKdTree \<Rightarrow> PKdTree option" where
  "UpdateRegionAssignment walk t =
     (if RegionAssignment t = ContiguousAssignment then AssignRegionsContiguous walk t
      else if RegionAssignment t = RoundRobinAssignment then AssignRegionsRoundRobin t
      else Some t)"

definition GetProcessAssignedToRegion :: "PKdTree \<Rightarrow> int \<Rightarrow> int option" where
  "GetProcessAssignedToRegion t regionId =
     (if RegionAssignmentMap t = [] \<or> regionId < 0 \<or> regionId \<ge> NumberOfRegions t
      then Some (- 1)
      else vec_get (RegionAssignmentMap t) regionId)"

definition HasData :: "PKdTree \<Rightarrow> int \<Rightarrow> int \<Rightarrow> int option" where
  "HasData t processId regionId =
     (if DataLocationMap t = [] \<or> processId < 0 \<or> processId \<ge> NumProcesses t \<or>
         regionId < 0 \<or> regionId \<ge> NumberOfRegions t
      then Some 0
      else vec_get (DataLocationMap t) (NumberOfRegions t * processId + regionId))"

text \<open>
  \<open>GetRegionAssignmentList\<close> returns the number of regions and fills the caller's list; the
  result here is that number, the list and the object.  The list is reset only on the
  path that fills it.
\<close>

definition fill_list :: "PKdTree \<Rightarrow> int \<Rightarrow> (int \<times> int list \<times> PKdTree) option" where
  "fill_list t procId = do {
     nregions \<leftarrow> vec_get (NumRegionsAssigned t) procId;
     regionIds \<leftarrow> vec_get (ProcessAssignmentMap t) procId;
     vals \<leftarrow> for_loop [0..nregions - 1]
               (\<lambda>i vs. Option.bind (vec_get regionIds i) (\<lambda>v. vec_set vs i v))
               (replicate (nat nregions) 0);
     Some (nregions, vals, t)
   }"

definition GetRegionAssignmentList ::
  "(PKdTree \<Rightarrow> PKdTree option) \<Rightarrow> PKdTree \<Rightarrow> int \<Rightarrow> int list
     \<Rightarrow> (int \<times> int list \<times> PKdTree) option" where
  "GetRegionAssignmentList walk t procId list =
     (if procId < 0 \<or> procId \<ge> NumProcesses t then Some (0, list, t)
      else if RegionAssignmentMap t = []
      then do {
        t' \<leftarrow> UpdateRegionAssignment walk t;
        if RegionAssignmentMap t' = [] then Some (0, list, t') else fill_list t' procId
      }
      else fill_list t procId)"

text \<open>
  Claim C9.  Before a successful build there is no tree and the lookup tables are empty.
  In that state, and for every region or process id that is out of range in any state,
  \<open>GetProcessAssignedToRegion\<close> returns -1, \<open>HasData\<close> returns 0 and
  \<open>GetRegionAssignmentList\<close> returns 0, writes no region into the caller's list and leaves
  the object without a tree if it had none.
\<close>

theorem queries_return_sentinels:
  "(RegionAssignmentMap t = [] \<or> regionId < 0 \<or> regionId \<ge> NumberOfRegions t
      \<longrightarrow> GetProcessAssignedToRegion t regionId = Some (- 1)) \<and>
   (DataLocationMap t = [] \<or> processId < 0 \<or> processId \<ge> NumProcesses t \<or>
    regionId < 0 \<or> regionId \<ge> NumberOfRegions t
      \<longrightarrow> HasData t processId regionId = Some 0) \<and>
   (procId < 0 \<or> procId \<ge> NumProcesses t \<or> (RegionAssignmentMap t = [] \<and> Top t = None)
      \<longrightarrow> (\<exists>t'. GetRegionAssignmentList walk t procId list = Some (0, list, t') \<and>
                Top t' = Top t \<and> RegionAssignmentMap t' = RegionAssignmentMap t \<and>
                DataLocationMap t' = DataLocationMap t))"
  by (auto simp: GetProcessAssignedToRegion_def HasData_def GetRegionAssignmentList_def
      UpdateRegionAssignment_def AssignRegionsContiguous_def AssignRegionsRoundRobin_def Let_def)

theorem queries_return_sentinels_witness:
  "RegionAssignmentMap vtkPKdTree_new = [] \<and> DataLocationMap vtkPKdTree_new = [] \<and>
   Top vtkPKdTree_new = None \<and>
   GetProcessAssignedToRegion vtkPKdTree_new 0 = Some (- 1) \<and>
   HasData vtkPKdTree_new 0 0 = Some 0 \<and>
   (\<exists>t'. GetRegionAssignmentList Some vtkPKdTree_new 0 [7] = Some (0, [7], t') \<and>
         Top t' = None) \<and>
   NumberOfRegions built16 \<le> 16 \<and>
   GetProcessAssignedToRegion built16 16 = Some (- 1) \<and>
   (\<exists>t'. GetRegionAssignmentList Some built16 4 [] = Some (0, [], t'))"
proof -
  have e: "RegionAssignmentMap vtkPKdTree_new = []" "DataLocationMap vtkPKdTree_new = []"
    "Top vtkPKdTree_new = None"
    by (simp_all add: vtkPKdTree_new_def)
  have b: "NumberOfRegions built16 \<le> 16" "NumProcesses built16 \<le> 4"
    by (simp_all add: built16_def vtkPKdTree_new_def)
  note q1 = queries_return_sentinels [of vtkPKdTree_new 0 0 0 Some "[7]"]
  note q2 = queries_return_sentinels [of built16 16 0 4 Some "[]"]
  have a1: "GetProcessAssignedToRegion vtkPKdTree_new 0 = Some (- 1)"
    using q1 e by blast
  have a2: "HasData vtkPKdTree_new 0 0 = Some 0"
    using q1 e by blast
  have a3: "\<exists>t'. GetRegionAssignmentList Some vtkPKdTree_new 0 [7] = Some (0, [7], t') \<and>
         Top t' = None"
    using q1 e by auto
  have a4: "GetProcessAssignedToRegion built16 16 = Some (- 1)"
    using q2 b by auto
  have a5: "\<exists>t'. GetRegionAssignmentList Some built16 4 [] = Some (0, [], t')"
    using q2 b by auto
  show ?thesis
    by (intro conjI e b(1) a1 a2 a3 a4 a5)
qed

section \<open>The local point array\<close>

text \<open>
  \<open>CurrentPtArray\<close> holds the points of this process; global index \<open>g\<close> lives at local
  position \<open>g - StartVal[MyId]\<close>.  A \<open>float*\<close> into the array is the local position of the
  point it points into (the coordinate is chosen when the pointer is read), or null.
  Moving a pointer by three floats moves it by one point.  Reading through a null
  pointer or outside the array, and a coordinate index other than 0, 1, 2, are \<open>None\<close>.
\<close>

datatype ptr = Null | Ptr int

fun advance :: "ptr \<Rightarrow> int \<Rightarrow> ptr" where
  "advance Null n = Null"
| "advance (Ptr k) n = Ptr (k + n)"

fun coord :: "point \<Rightarrow> int \<Rightarrow> real option" where
  "coord (x, y, z) d =
     (if d = 0 then Some x else if d = 1 then Some y else if d = 2 then Some z else None)"

definition GetLocalVal :: "PKdTree \<Rightarrow> int \<Rightarrow> ptr option" where
  "GetLocalVal t pos = do {
     s \<leftarrow> vec_get (StartVal t) (MyId t);
     e \<leftarrow> vec_get (EndVal t) (MyId t);
     Some (if pos < s \<or> pos > e then Null else Ptr (pos - s))
   }"

definition deref :: "PKdTree \<Rightarrow> ptr \<Rightarrow> int \<Rightarrow> real option" where
  "deref t p d =
     (case p of Null \<Rightarrow> None
      | Ptr k \<Rightarrow> Option.bind (vec_get (CurrentPtArray t) k) (\<lambda>pt. coord pt d))"

text \<open>\<open>ExchangeLocalVals\<close> reports a bad index and changes nothing.\<close>

definition ExchangeLocalVals :: "PKdTree \<Rightarrow> int \<Rightarrow> int \<Rightarrow> PKdTree option" where
  "ExchangeLocalVals t pos1 pos2 = do {
     pt1 \<leftarrow> GetLocalVal t pos1;
     pt2 \<leftarrow> GetLocalVal t pos2;
     case (pt1, pt2) of
       (Ptr a, Ptr b) \<Rightarrow> do {
          x \<leftarrow> vec_get (CurrentPtArray t) a;
          y \<leftarrow> vec_get (CurrentPtArray t) b;
          arr \<leftarrow> vec_set (CurrentPtArray t) a y;
          arr \<leftarrow> vec_set arr b x;
          Some (t\<lparr>CurrentPtArray := arr\<rparr>)
        }
     | _ \<Rightarrow> Some t
   }"

section \<open>Three-way partition about a value of the array\<close>

text \<open>
  The loops of \<open>PartitionAboutMyValue\<close>.  \<open>scan_down_my\<close> is \<open>while (--J > I)\<close>,
  \<open>scan_up_my\<close> is \<open>while (++I < J)\<close>, \<open>loop_my\<close> the loop around them.
\<close>

function scan_down_my ::
  "PKdTree \<Rightarrow> int \<Rightarrow> real \<Rightarrow> int \<Rightarrow> int \<Rightarrow> int \<times> ptr \<times> bool \<Rightarrow> (int \<times> ptr \<times> bool) option" where
  "scan_down_my t dm T L I (J, Jpt, many) =
     (let J = J - 1 in
      if J > I then
        (let Jpt = advance Jpt (- 1) in
         case deref t Jpt dm of
           None \<Rightarrow> None
         | Some v \<Rightarrow>
             if v < T then Some (J, Jpt, many)
             else scan_down_my t dm T L I
                    (J, Jpt, if \<not> many \<and> J > L \<and> v = T then True else many))
      else Some (J, Jpt, many))"
  by pat_completeness auto
termination
  by (relation "measure (\<lambda>(t, dm, T, L, I, J, Jpt, many). nat (J - I))") auto

function scan_up_my ::
  "PKdTree \<Rightarrow> int \<Rightarrow> real \<Rightarrow> int \<Rightarrow> int \<times> ptr \<times> bool \<Rightarrow> (int \<times> ptr \<times> bool) option" where
  "scan_up_my t dm T J (I, Ipt, many) =
     (let I = I + 1 in
      if I < J then
        (let Ipt = advance Ipt 1 in
         case deref t Ipt dm of
           None \<Rightarrow> None
         | Some v \<Rightarrow>
             if v \<ge> T then Some (I, Ipt, if \<not> many \<and> v = T then True else many)
             else scan_up_my t dm T J (I, Ipt, many))
      else Some (I, Ipt, many))"
  by pat_completeness auto
termination
  by (relation "measure (\<lambda>(t, dm, T, J, I, Ipt, many). nat (J - I))") auto

lemma scan_down_my_bounds:
  "scan_down_my t dm T L I (J, Jpt, many) = Some (J', Jpt', many') \<Longrightarrow> I < J \<Longrightarrow>
   I \<le> J' \<and> J' < J"
proof (induction t dm T L I "(J, Jpt, many)" arbitrary: J Jpt many rule: scan_down_my.induct)
  case (1 t dm T L I J Jpt many)
  show ?case
  proof (cases "J - 1 > I")
    case False
    with "1.prems" show ?thesis by (simp add: Let_def)
  next
    case True
    then obtain v where v: "deref t (advance Jpt (- 1)) dm = Some v"
      using "1.prems"(1) by (auto simp: Let_def split: option.splits)
    show ?thesis
    proof (cases "v < T")
      case True
      with \<open>J - 1 > I\<close> v "1.prems" show ?thesis by (simp add: Let_def)
    next
      case False
      with \<open>J - 1 > I\<close> v "1.prems"(1)
      have "scan_down_my t dm T L I
              (J - 1, advance Jpt (- 1), if \<not> many \<and> J - 1 > L \<and> v = T then True else many)
            = Some (J', Jpt', many')"
        by (simp add: Let_def)
      from "1.hyps" [OF refl \<open>J - 1 > I\<close> refl v False this \<open>J - 1 > I\<close>]
      show ?thesis by simp
    qed
  qed
qed

lemma scan_up_my_bounds:
  "scan_up_my t dm T J (I, Ipt, many) = Some (I', Ipt', many') \<Longrightarrow> I < J \<Longrightarrow>
   I < I' \<and> I' \<le> J"
proof (induction t dm T J "(I, Ipt, many)" arbitrary: I Ipt many rule: scan_up_my.induct)
  case (1 t dm T J I Ipt many)
  show ?case
  proof (cases "I + 1 < J")
    case False
    with "1.prems" show ?thesis by (simp add: Let_def)
  next
    case True
    then obtain v where v: "deref t (advance Ipt 1) dm = Some v"
      using "1.prems"(1) by (auto simp: Let_def split: option.splits)
    show ?thesis
    proof (cases "v \<ge> T")
      case True
      with \<open>I + 1 < J\<close> v "1.prems" show ?thesis by (simp add: Let_def)
    next
      case False
      with \<open>I + 1 < J\<close> v "1.prems"(1)
      have "scan_up_my t dm T J (I + 1, advance Ipt 1, many) = Some (I', Ipt', many')"
        by (simp add: Let_def)
      from "1.hyps" [OF refl \<open>I + 1 < J\<close> refl v False this \<open>I + 1 < J\<close>]
      show ?thesis by simp
    qed
  qed
qed

function loop_my ::
  "PKdTree \<Rightarrow> int \<Rightarrow> real \<Rightarrow> int \<Rightarrow> int \<times> int \<times> ptr \<times> ptr \<times> bool
     \<Rightarrow> (PKdTree \<times> int \<times> int \<times> bool) option" where
  "loop_my t dm T L (I, J, Ipt, Jpt, many) =
     (if I < J then
        (case ExchangeLocalVals t I J of
           None \<Rightarrow> None
         | Some t1 \<Rightarrow>
            (case scan_down_my t1 dm T L I (J, Jpt, many) of
               None \<Rightarrow> None
             | Some (J1, Jpt1, many1) \<Rightarrow>
                 if I = J1 then Some (t1, I, J1, many1)
                 else (case scan_up_my t1 dm T J1 (I, Ipt, many1) of
                         None \<Rightarrow> None
                       | Some (I1, Ipt1, many2) \<Rightarrow>
                           loop_my t1 dm T L (I1, J1, Ipt1, Jpt1, many2))))
      else Some (t, I, J, many))"
  by pat_completeness auto
termination
proof (relation "measure (\<lambda>(t, dm, T, L, I, J, Ipt, Jpt, many). nat (J - I))", goal_cases)
  case 1
  show ?case by simp
next
  case (2 t dm T L I J Ipt Jpt many t1 r J1 r2 Jpt1 many1 r3 I1 r4 Ipt1 many2)
  then have d: "scan_down_my t1 dm T L I (J, Jpt, many) = Some (J1, Jpt1, many1)"
    and u: "scan_up_my t1 dm T J1 (I, Ipt, many1) = Some (I1, Ipt1, many2)"
    by simp_all
  from scan_down_my_bounds [OF d] 2 have "I \<le> J1" "J1 < J" by simp_all
  moreover from scan_up_my_bounds [OF u] 2 \<open>I \<le> J1\<close> have "I < I1" by simp
  ultimately show ?case by simp
qed

text \<open>
  The last loop of \<open>PartitionAboutMyValue\<close> moves the values equal to \<open>T\<close> together; the same
  loop, with the same text, ends \<open>PartitionAboutOtherValue\<close>.  \<open>scan_up_eq\<close> is its
  \<open>while (++I < J)\<close>, \<open>scan_down_eq\<close> its \<open>while (--J > I)\<close>.
\<close>

function scan_up_eq ::
  "PKdTree \<Rightarrow> int \<Rightarrow> real \<Rightarrow> int \<Rightarrow> int \<times> ptr \<Rightarrow> (int \<times> ptr) option" where
  "scan_up_eq t dm T J (I, Ipt) =
     (let I = I + 1 in
      if I < J then
        (let Ipt = advance Ipt 1 in
         case deref t Ipt dm of
           None \<Rightarrow> None
         | Some v \<Rightarrow> if v \<noteq> T then Some (I, Ipt) else scan_up_eq t dm T J (I, Ipt))
      else Some (I, Ipt))"
  by pat_completeness auto
termination
  by (relation "measure (\<lambda>(t, dm, T, J, I, Ipt). nat (J - I))") auto

function scan_down_eq ::
  "PKdTree \<Rightarrow> int \<Rightarrow> real \<Rightarrow> int \<Rightarrow> int \<times> ptr \<Rightarrow> (int \<times> ptr) option" where
  "scan_down_eq t dm T I (J, Jpt) =
     (let J = J - 1 in
      if J > I then
        (let Jpt = advance Jpt (- 1) in
         case deref t Jpt dm of
           None \<Rightarrow> None
         | Some v \<Rightarrow> if v = T then Some (J, Jpt) else scan_down_eq t dm T I (J, Jpt))
      else Some (J, Jpt))"
  by pat_completeness auto
termination
  by (relation "measure (\<lambda>(t, dm, T, I, J, Jpt). nat (J - I))") auto

lemma scan_up_eq_bounds:
  "scan_up_eq t dm T J (I, Ipt) = Some (I', Ipt') \<Longrightarrow> I < J \<Longrightarrow> I < I' \<and> I' \<le> J"
proof (induction t dm T J "(I, Ipt)" arbitrary: I Ipt rule: scan_up_eq.induct)
  case (1 t dm T J I Ipt)
  show ?case
  proof (cases "I + 1 < J")
    case False
    with "1.prems" show ?thesis by (simp add: Let_def)
  next
    case True
    then obtain v where v: "deref t (advance Ipt 1) dm = Some v"
      using "1.prems"(1) by (auto simp: Let_def split: option.splits)
    show ?thesis
    proof (cases "v \<noteq> T")
      case True
      with \<open>I + 1 < J\<close> v "1.prems" show ?thesis by (simp add: Let_def)
    next
      case False
      with \<open>I + 1 < J\<close> v "1.prems"(1)
      have "scan_up_eq t dm T J (I + 1, advance Ipt 1) = Some (I', Ipt')"
        by (simp add: Let_def)
      from "1.hyps" [OF refl \<open>I + 1 < J\<close> refl v False this \<open>I + 1 < J\<close>]
      show ?thesis by simp
    qed
  qed
qed

lemma scan_down_eq_bounds:
  "scan_down_eq t dm T I (J, Jpt) = Some (J', Jpt') \<Longrightarrow> I < J \<Longrightarrow> I \<le> J' \<and> J' < J"
proof (induction t dm T I "(J, Jpt)" arbitrary: J Jpt rule: scan_down_eq.induct)
  case (1 t dm T I J Jpt)
  show ?case
  proof (cases "J - 1 > I")
    case False
    with "1.prems" show ?thesis by (simp add: Let_def)
  next
    case True
    then obtain v where v: "deref t (advance Jpt (- 1)) dm = Some v"
      using "1.prems"(1) by (auto simp: Let_def split: option.splits)
    show ?thesis
    proof (cases "v = T")
      case True
      with \<open>J - 1 > I\<close> v "1.prems" show ?thesis by (simp add: Let_def)
    next
      case False
      with \<open>J - 1 > I\<close> v "1.prems"(1)
      have "scan_down_eq t dm T I (J - 1, advance Jpt (- 1)) = Some (J', Jpt')"
        by (simp add: Let_def)
      from "1.hyps" [OF refl \<open>J - 1 > I\<close> refl v False this \<open>J - 1 > I\<close>]
      show ?thesis by simp
    qed
  qed
qed

function gather_Ts ::
  "PKdTree \<Rightarrow> int \<Rightarrow> real \<Rightarrow> int \<times> int \<times> ptr \<times> ptr \<Rightarrow> (PKdTree \<times> int \<times> int) option" where
  "gather_Ts t dm T (I, J, Ipt, Jpt) =
     (if I < J then
        (case scan_up_eq t dm T J (I, Ipt) of
           None \<Rightarrow> None
         | Some (I1, Ipt1) \<Rightarrow>
             if I1 = J then Some (t, I1, J)
             else (case scan_down_eq t dm T I1 (J, Jpt) of
                     None \<Rightarrow> None
                   | Some (J1, Jpt1) \<Rightarrow>
                      (case (if I1 < J1 then ExchangeLocalVals t I1 J1 else Some t) of
                         None \<Rightarrow> None
                       | Some t1 \<Rightarrow> gather_Ts t1 dm T (I1, J1, Ipt1, Jpt1))))
      else Some (t, I, J))"
  by pat_completeness auto
termination
proof (relation "measure (\<lambda>(t, dm, T, I, J, Ipt, Jpt). nat (J - I))", goal_cases)
  case 1
  show ?case by simp
next
  case (2 t dm T I J Ipt Jpt r I1 Ipt1 r2 J1 Jpt1 t1)
  then have u: "scan_up_eq t dm T J (I, Ipt) = Some (I1, Ipt1)"
    and d: "scan_down_eq t dm T I1 (J, Jpt) = Some (J1, Jpt1)"
    by simp_all
  from scan_up_eq_bounds [OF u] 2 have "I < I1" "I1 \<le> J" by simp_all
  moreover from scan_down_eq_bounds [OF d] 2 \<open>I1 \<le> J\<close> have "J1 < J" by simp
  ultimately show ?case by simp
qed

text \<open>
  \<open>PartitionAboutMyValue\<close>.  The two indices it leaves in \<open>SelectBuffer\<close> are returned
  beside the object; \<open>manyTValues\<close> is a truth value.
\<close>

definition PartitionAboutMyValue ::
  "PKdTree \<Rightarrow> int \<Rightarrow> int \<Rightarrow> int \<Rightarrow> int \<Rightarrow> (PKdTree \<times> int \<times> int) option" where
  "PartitionAboutMyValue t0 L R K dm = do {
     pt \<leftarrow> GetLocalVal t0 K;
     T \<leftarrow> deref t0 pt dm;
     t \<leftarrow> ExchangeLocalVals t0 L K;
     pt \<leftarrow> GetLocalVal t R;
     v \<leftarrow> deref t pt dm;
     (t, many) \<leftarrow> (if v \<ge> T
                    then (if v = T then Some (t, True)
                          else map_option (\<lambda>u. (u, False)) (ExchangeLocalVals t R L))
                    else Some (t, False));
     Ipt \<leftarrow> GetLocalVal t L;
     Jpt \<leftarrow> GetLocalVal t R;
     (t, I, J, many) \<leftarrow> loop_my t dm T L (L, R, Ipt, Jpt, many);
     pt \<leftarrow> GetLocalVal t L;
     Lval \<leftarrow> deref t pt dm;
     (t, J) \<leftarrow> (if Lval = T then map_option (\<lambda>u. (u, J)) (ExchangeLocalVals t L J)
                 else map_option (\<lambda>u. (u, J + 1)) (ExchangeLocalVals t (J + 1) R));
     if many then do {
       Ipt \<leftarrow> GetLocalVal t J;
       Jpt \<leftarrow> GetLocalVal t R;
       (t, I, J') \<leftarrow> gather_Ts t dm T (J, R + 1, Ipt, advance Jpt 1);
       Some (t, J, I)
     } else Some (t, J, J + 1)
   }"

section \<open>Three-way partition about a value from elsewhere\<close>

text \<open>
  The loops of \<open>PartitionAboutOtherValue\<close>: the two scans that classify the array when its
  ends lie on the same side of \<open>T\<close>, and the scans of its exchange loop.
\<close>

function scan_down_count ::
  "PKdTree \<Rightarrow> int \<Rightarrow> real \<Rightarrow> int \<Rightarrow> int \<times> ptr \<times> int \<times> int \<Rightarrow> (int \<times> ptr \<times> int \<times> int) option" where
  "scan_down_count t dm T I (J, Jpt, numTValues, numGreater) =
     (let J = J - 1 in
      if J > I then
        (let Jpt = advance Jpt (- 1) in
         case deref t Jpt dm of
           None \<Rightarrow> None
         | Some v \<Rightarrow>
             if v < T then Some (J, Jpt, numTValues, numGreater)
             else if v = T then scan_down_count t dm T I (J, Jpt, numTValues + 1, numGreater)
             else scan_down_count t dm T I (J, Jpt, numTValues, numGreater + 1))
      else Some (J, Jpt, numTValues, numGreater))"
  by pat_completeness auto
termination
  by (relation "measure (\<lambda>(t, dm, T, I, J, Jpt, n, m). nat (J - I))") auto

function scan_up_count ::
  "PKdTree \<Rightarrow> int \<Rightarrow> real \<Rightarrow> int \<Rightarrow> int \<times> ptr \<times> int \<times> int \<Rightarrow> (int \<times> ptr \<times> int \<times> int) option" where
  "scan_up_count t dm T J (I, Ipt, numTValues, numLess) =
     (let I = I + 1 in
      if I < J then
        (let Ipt = advance Ipt 1 in
         case deref t Ipt dm of
           None \<Rightarrow> None
         | Some v \<Rightarrow>
             if v \<ge> T then Some (I, Ipt, if v = T then numTValues + 1 else numTValues, numLess)
             else scan_up_count t dm T J (I, Ipt, numTValues, numLess + 1))
      else Some (I, Ipt, numTValues, numLess))"
  by pat_completeness auto
termination
  by (relation "measure (\<lambda>(t, dm, T, J, I, Ipt, n, m). nat (J - I))") auto

function scan_up_other ::
  "PKdTree \<Rightarrow> int \<Rightarrow> real \<Rightarrow> int \<Rightarrow> int \<times> ptr \<times> int \<Rightarrow> (int \<times> ptr \<times> int) option" where
  "scan_up_other t dm T J (I, Ipt, numTValues) =
     (let I = I + 1 in
      if I < J then
        (let Ipt = advance Ipt 1 in
         case deref t Ipt dm of
           None \<Rightarrow> None
         | Some v \<Rightarrow>
             if v \<ge> T then Some (I, Ipt, if v = T then numTValues + 1 else numTValues)
             else scan_up_other t dm T J (I, Ipt, numTValues))
      else Some (I, Ipt, numTValues))"
  by pat_completeness auto
termination
  by (relation "measure (\<lambda>(t, dm, T, J, I, Ipt, n). nat (J - I))") auto

function scan_down_other ::
  "PKdTree \<Rightarrow> int \<Rightarrow> real \<Rightarrow> int \<Rightarrow> int \<times> ptr \<times> int \<Rightarrow> (int \<times> ptr \<times> int) option" where
  "scan_down_other t dm T I (J, Jpt, numTValues) =
     (let J = J - 1 in
      if J > I then
        (let Jpt = advance Jpt (- 1) in
         case deref t Jpt dm of
           None \<Rightarrow> None
         | Some v \<Rightarrow>
             if v < T then Some (J, Jpt, numTValues)
             else scan_down_other t dm T I (J, Jpt, if v = T then numTValues + 1 else numTValues))
      else Some (J, Jpt, numTValues))"
  by pat_completeness auto
termination
  by (relation "measure (\<lambda>(t, dm, T, I, J, Jpt, n). nat (J - I))") auto

lemma scan_up_other_bounds:
  "scan_up_other t dm T J (I, Ipt, n) = Some (I', Ipt', n') \<Longrightarrow> I < J \<Longrightarrow> I < I' \<and> I' \<le> J"
proof (induction t dm T J "(I, Ipt, n)" arbitrary: I Ipt n rule: scan_up_other.induct)
  case (1 t dm T J I Ipt n)
  show ?case
  proof (cases "I + 1 < J")
    case False
    with "1.prems" show ?thesis by (simp add: Let_def)
  next
    case True
    then obtain v where v: "deref t (advance Ipt 1) dm = Some v"
      using "1.prems"(1) by (auto simp: Let_def split: option.splits)
    show ?thesis
    proof (cases "v \<ge> T")
      case True
      with \<open>I + 1 < J\<close> v "1.prems" show ?thesis by (simp add: Let_def)
    next
      case False
      with \<open>I + 1 < J\<close> v "1.prems"(1)
      have "scan_up_other t dm T J (I + 1, advance Ipt 1, n) = Some (I', Ipt', n')"
        by (simp add: Let_def)
      from "1.hyps" [OF refl \<open>I + 1 < J\<close> refl v False this \<open>I + 1 < J\<close>]
      show ?thesis by simp
    qed
  qed
qed

lemma scan_down_other_bounds:
  "scan_down_other t dm T I (J, Jpt, n) = Some (J', Jpt', n') \<Longrightarrow> I < J \<Longrightarrow> I \<le> J' \<and> J' < J"
proof (induction t dm T I "(J, Jpt, n)" arbitrary: J Jpt n rule: scan_down_other.induct)
  case (1 t dm T I J Jpt n)
  show ?case
  proof (cases "J - 1 > I")
    case False
    with "1.prems" show ?thesis by (simp add: Let_def)
  next
    case True
    then obtain v where v: "deref t (advance Jpt (- 1)) dm = Some v"
      using "1.prems"(1) by (auto simp: Let_def split: option.splits)
    show ?thesis
    proof (cases "v < T")
      case True
      with \<open>J - 1 > I\<close> v "1.prems" show ?thesis by (simp add: Let_def)
    next
      case False
      with \<open>J - 1 > I\<close> v "1.prems"(1)
      have "scan_down_other t dm T I (J - 1, advance Jpt (- 1), if v = T then n + 1 else n)
            = Some (J', Jpt', n')"
        by (simp add: Let_def)
      from "1.hyps" [OF refl \<open>J - 1 > I\<close> refl v False this \<open>J - 1 > I\<close>]
      show ?thesis by simp
    qed
  qed
qed

function loop_other ::
  "PKdTree \<Rightarrow> int \<Rightarrow> real \<Rightarrow> int \<times> int \<times> ptr \<times> ptr \<times> int
     \<Rightarrow> (PKdTree \<times> int \<times> int \<times> int) option" where
  "loop_other t dm T (I, J, Ipt, Jpt, numTValues) =
     (if I < J then
        (case ExchangeLocalVals t I J of
           None \<Rightarrow> None
         | Some t1 \<Rightarrow>
            (case scan_up_other t1 dm T J (I, Ipt, numTValues) of
               None \<Rightarrow> None
             | Some (I1, Ipt1, n1) \<Rightarrow>
                 if I1 = J then Some (t1, I1, J, n1)
                 else (case scan_down_other t1 dm T I1 (J, Jpt, n1) of
                         None \<Rightarrow> None
                       | Some (J1, Jpt1, n2) \<Rightarrow>
                           loop_other t1 dm T (I1, J1, Ipt1, Jpt1, n2))))
      else Some (t, I, J, numTValues))"
  by pat_completeness auto
termination
proof (relation "measure (\<lambda>(t, dm, T, I, J, Ipt, Jpt, n). nat (J - I))", goal_cases)
  case 1
  show ?case by simp
next
  case (2 t dm T I J Ipt Jpt n t1 r I1 r2 Ipt1 n1 r3 J1 r4 Jpt1 n2)
  then have u: "scan_up_other t1 dm T J (I, Ipt, n) = Some (I1, Ipt1, n1)"
    and d: "scan_down_other t1 dm T I1 (J, Jpt, n1) = Some (J1, Jpt1, n2)"
    by simp_all
  from scan_up_other_bounds [OF u] 2 have "I < I1" "I1 \<le> J" by simp_all
  moreover from scan_down_other_bounds [OF d] 2 \<open>I1 \<le> J\<close> have "J1 < J" by simp
  ultimately show ?case by simp
qed

text \<open>
  The first part of \<open>PartitionAboutOtherValue\<close>, up to its three special cases: it
  classifies the two ends, scans or exchanges according to the sides they lie on, and
  leaves the indices, the pointers and the three counters.
\<close>

definition tally :: "real \<Rightarrow> real \<Rightarrow> int \<times> int \<times> int \<Rightarrow> int \<times> int \<times> int" where
  "tally v T c = (case c of (numTValues, numGreater, numLess) \<Rightarrow>
     if v = T then (numTValues + 1, numGreater, numLess)
     else if v > T then (numTValues, numGreater + 1, numLess)
     else (numTValues, numGreater, numLess + 1))"

definition other_ends ::
  "PKdTree \<Rightarrow> int \<Rightarrow> int \<Rightarrow> real \<Rightarrow> int
     \<Rightarrow> (PKdTree \<times> (int \<times> int \<times> ptr \<times> ptr) \<times> (int \<times> int \<times> int)) option" where
  "other_ends t L R T dm = do {
     Ipt \<leftarrow> GetLocalVal t L;
     Lval \<leftarrow> deref t Ipt dm;
     Jpt \<leftarrow> GetLocalVal t R;
     Rval \<leftarrow> deref t Jpt dm;
     case tally Rval T (tally Lval T (0, 0, 0)) of (numTValues, numGreater, numLess) \<Rightarrow>
       if Lval \<ge> T \<and> Rval \<ge> T then
         map_option (\<lambda>(J, Jpt, numTValues, numGreater).
                       (t, (L, J, Ipt, Jpt), (numTValues, numGreater, numLess)))
           (scan_down_count t dm T L (R, Jpt, numTValues, numGreater))
       else if Lval < T \<and> Rval < T then do {
         Ipt \<leftarrow> GetLocalVal t L;
         map_option (\<lambda>(I, Ipt, numTValues, numLess).
                       (t, (I, R, Ipt, Jpt), (numTValues, numGreater, numLess)))
           (scan_up_count t dm T R (L, Ipt, numTValues, numLess))
       }
       else if Lval < T \<and> Rval \<ge> T then
         map_option (\<lambda>u. (u, (L, R, Ipt, Jpt), (numTValues, numGreater, numLess)))
           (ExchangeLocalVals t L R)
       else Some (t, (L, R, Ipt, Jpt), (numTValues, numGreater, numLess))
   }"

definition PartitionAboutOtherValue ::
  "PKdTree \<Rightarrow> int \<Rightarrow> int \<Rightarrow> real \<Rightarrow> int \<Rightarrow> (PKdTree \<times> int \<times> int) option" where
  "PartitionAboutOtherValue t0 L R T dm =
     (let totalVals = R - L + 1 in
      if totalVals = 0 then Some (t0, L, L)
      else do {
        (t, (I, J, Ipt, Jpt), (numTValues, numGreater, numLess)) \<leftarrow> other_ends t0 L R T dm;
        if numLess = totalVals then Some (t, R + 1, R + 1)
        else if numTValues = totalVals then Some (t, L, R + 1)
        else if numGreater = totalVals then Some (t, L, L)
        else do {
          (t, I, J, numTValues) \<leftarrow> loop_other t dm T (I, J, Ipt, Jpt, numTValues);
          if numTValues = 0 then Some (t, I, I)
          else do {
            Ipt \<leftarrow> GetLocalVal t I;
            Jpt \<leftarrow> GetLocalVal t R;
            (t, I', J') \<leftarrow> gather_Ts t dm T (I - 1, R + 1, advance Ipt (- 1), advance Jpt 1);
            Some (t, I, I')
          }
        }
      })"

declare scan_down_my.simps [simp del] scan_up_my.simps [simp del] loop_my.simps [simp del]
  scan_up_eq.simps [simp del] scan_down_eq.simps [simp del] gather_Ts.simps [simp del]
  scan_down_count.simps [simp del] scan_up_count.simps [simp del]
  scan_up_other.simps [simp del] scan_down_other.simps [simp del] loop_other.simps [simp del]

subsection \<open>Reading and exchanging inside the local array\<close>

definition cval :: "point \<Rightarrow> int \<Rightarrow> real" where
  "cval p d = (case p of (x, y, z) \<Rightarrow> if d = 0 then x else if d = 1 then y else z)"

lemma coord_cval: "0 \<le> d \<Longrightarrow> d \<le> 2 \<Longrightarrow> coord p d = Some (cval p d)"
  by (cases p) (auto simp: cval_def)

text \<open>
  \<open>local_ok t s\<close>: the directory entries of this process are readable, its first global
  index is \<open>s\<close> and its last one matches the length of the array.
\<close>

definition local_ok :: "PKdTree \<Rightarrow> int \<Rightarrow> bool" where
  "local_ok t s \<longleftrightarrow>
     vec_get (StartVal t) (MyId t) = Some s \<and>
     vec_get (EndVal t) (MyId t) = Some (s + int (length (CurrentPtArray t)) - 1)"

definition in_local :: "PKdTree \<Rightarrow> int \<Rightarrow> int \<Rightarrow> bool" where
  "in_local t s g \<longleftrightarrow> s \<le> g \<and> g < s + int (length (CurrentPtArray t))"

definition kv :: "PKdTree \<Rightarrow> int \<Rightarrow> int \<Rightarrow> int \<Rightarrow> real" where
  "kv t s dm g = cval (CurrentPtArray t ! nat (g - s)) dm"

definition swapped :: "PKdTree \<Rightarrow> int \<Rightarrow> int \<Rightarrow> int \<Rightarrow> PKdTree" where
  "swapped t s a b =
     t\<lparr>CurrentPtArray := (CurrentPtArray t)[nat (a - s) := CurrentPtArray t ! nat (b - s),
                                             nat (b - s) := CurrentPtArray t ! nat (a - s)]\<rparr>"

lemma GetLocalVal_in:
  "local_ok t s \<Longrightarrow> in_local t s g \<Longrightarrow> GetLocalVal t g = Some (Ptr (g - s))"
  by (auto simp: local_ok_def in_local_def GetLocalVal_def)

lemma deref_in:
  "in_local t s g \<Longrightarrow> 0 \<le> dm \<Longrightarrow> dm \<le> 2 \<Longrightarrow> deref t (Ptr (g - s)) dm = Some (kv t s dm g)"
  by (simp add: in_local_def deref_def vec_get_def kv_def coord_cval)

lemma ExchangeLocalVals_in:
  "local_ok t s \<Longrightarrow> in_local t s a \<Longrightarrow> in_local t s b \<Longrightarrow>
   ExchangeLocalVals t a b = Some (swapped t s a b)"
  by (simp add: ExchangeLocalVals_def GetLocalVal_in swapped_def)
     (simp add: in_local_def vec_get_def vec_set_def)

lemma length_swapped [simp]:
  "length (CurrentPtArray (swapped t s a b)) = length (CurrentPtArray t)"
  by (simp add: swapped_def)

lemma local_ok_swapped [simp]: "local_ok (swapped t s a b) s = local_ok t s"
  by (simp add: local_ok_def swapped_def)

lemma in_local_swapped [simp]: "in_local (swapped t s a b) s g = in_local t s g"
  by (simp add: in_local_def)

lemma kv_swapped:
  "in_local t s a \<Longrightarrow> in_local t s b \<Longrightarrow> in_local t s g \<Longrightarrow>
   kv (swapped t s a b) s dm g =
     (if g = b then kv t s dm a else if g = a then kv t s dm b else kv t s dm g)"
  by (auto simp: kv_def swapped_def in_local_def nth_list_update nat_eq_iff)

text \<open>
  \<open>rearranged s lo hi t t'\<close>: \<open>t'\<close> is \<open>t\<close> with the points at global indices \<open>lo\<close> to \<open>hi\<close>
  permuted and nothing else changed.
\<close>

definition rearranged :: "int \<Rightarrow> int \<Rightarrow> int \<Rightarrow> PKdTree \<Rightarrow> PKdTree \<Rightarrow> bool" where
  "rearranged s lo hi t t' \<longleftrightarrow>
     t' = t\<lparr>CurrentPtArray := CurrentPtArray t'\<rparr> \<and>
     length (CurrentPtArray t') = length (CurrentPtArray t) \<and>
     mset (CurrentPtArray t') = mset (CurrentPtArray t) \<and>
     (\<forall>i < length (CurrentPtArray t). s + int i < lo \<or> hi < s + int i \<longrightarrow>
        CurrentPtArray t' ! i = CurrentPtArray t ! i)"

lemma rearranged_refl [simp]: "rearranged s lo hi t t"
  by (simp add: rearranged_def)

lemma rearranged_trans:
  "rearranged s lo hi t t1 \<Longrightarrow> rearranged s lo hi t1 t2 \<Longrightarrow> rearranged s lo hi t t2"
  unfolding rearranged_def
  by (metis (no_types, lifting) PKdTree.surjective PKdTree.update_convs(7))

lemma rearranged_mono:
  "rearranged s lo hi t t' \<Longrightarrow> lo' \<le> lo \<Longrightarrow> hi \<le> hi' \<Longrightarrow> rearranged s lo' hi' t t'"
  unfolding rearranged_def by force

lemma rearranged_swapped:
  assumes "in_local t s a" "in_local t s b" "lo \<le> a" "a \<le> hi" "lo \<le> b" "b \<le> hi"
  shows "rearranged s lo hi t (swapped t s a b)"
proof -
  have "nat (a - s) < length (CurrentPtArray t)" "nat (b - s) < length (CurrentPtArray t)"
    using assms(1,2) by (auto simp: in_local_def)
  then have "mset (CurrentPtArray (swapped t s a b)) = mset (CurrentPtArray t)"
    by (simp add: swapped_def mset_swap)
  moreover have "CurrentPtArray (swapped t s a b) ! i = CurrentPtArray t ! i"
    if "i < length (CurrentPtArray t)" "s + int i < lo \<or> hi < s + int i" for i
  proof -
    have "s \<le> a" "s \<le> b" using assms(1,2) by (simp_all add: in_local_def)
    then have "i \<noteq> nat (a - s)" "i \<noteq> nat (b - s)" using that(2) assms(3-6) by linarith+
    then show ?thesis by (simp add: swapped_def)
  qed
  ultimately show ?thesis by (simp add: rearranged_def swapped_def)
qed

lemma rearranged_local_ok: "rearranged s lo hi t t' \<Longrightarrow> local_ok t' s = local_ok t s"
  unfolding rearranged_def local_ok_def
  by (metis (no_types, lifting) PKdTree.select_convs(2,3,4) PKdTree.surjective PKdTree.update_convs(7))


lemma rearranged_kv_outside:
  assumes re: "rearranged s lo hi t t'" and il: "in_local t s g" and out: "g < lo \<or> hi < g"
  shows "kv t' s dm g = kv t s dm g"
proof -
  let ?i = "nat (g - s)"
  have "s \<le> g" "g < s + int (length (CurrentPtArray t))"
    using il by (simp_all add: in_local_def)
  then have i: "?i < length (CurrentPtArray t)" and g: "s + int ?i = g"
    by linarith+
  from re have "\<forall>i < length (CurrentPtArray t). s + int i < lo \<or> hi < s + int i \<longrightarrow>
        CurrentPtArray t' ! i = CurrentPtArray t ! i"
    unfolding rearranged_def by blast
  with i have "s + int ?i < lo \<or> hi < s + int ?i \<longrightarrow>
        CurrentPtArray t' ! ?i = CurrentPtArray t ! ?i"
    by blast
  with out have "CurrentPtArray t' ! ?i = CurrentPtArray t ! ?i" unfolding g by blast
  then show ?thesis by (simp add: kv_def)
qed

subsection \<open>What the scans of PartitionAboutMyValue find\<close>

lemma scan_down_my_spec:
  assumes dm: "0 \<le> dm" "dm \<le> 2"
  shows "s \<le> I \<Longrightarrow> L \<le> I \<Longrightarrow> I < J \<Longrightarrow> J \<le> s + int (length (CurrentPtArray t)) \<Longrightarrow>
    \<exists>J1 Jpt1 many1. scan_down_my t dm T L I (J, Ptr (J - s), many) = Some (J1, Jpt1, many1) \<and>
       I \<le> J1 \<and> J1 < J \<and> (\<forall>g. J1 < g \<and> g < J \<longrightarrow> T \<le> kv t s dm g) \<and>
       (I < J1 \<longrightarrow> kv t s dm J1 < T \<and> Jpt1 = Ptr (J1 - s)) \<and>
       (many \<longrightarrow> many1) \<and> (\<not> many1 \<longrightarrow> (\<forall>g. J1 < g \<and> g < J \<longrightarrow> kv t s dm g \<noteq> T))"
proof (induction "nat (J - I)" arbitrary: J many rule: less_induct)
  case less
  show ?case
  proof (cases "J - 1 > I")
    case False
    then have "J - 1 = I" using less.prems by simp
    with False show ?thesis
      by (subst scan_down_my.simps) (auto simp: Let_def)
  next
    case True
    have il: "in_local t s (J - 1)" using True less.prems by (simp add: in_local_def)
    have rd: "deref t (advance (Ptr (J - s)) (- 1)) dm = Some (kv t s dm (J - 1))"
      using deref_in [OF il dm] by (simp add: algebra_simps)
    let ?v = "kv t s dm (J - 1)"
    show ?thesis
    proof (cases "?v < T")
      case lt: True
      have "scan_down_my t dm T L I (J, Ptr (J - s), many) = Some (J - 1, Ptr (J - 1 - s), many)"
        using True lt rd by (subst scan_down_my.simps) (simp add: Let_def algebra_simps)
      with True lt show ?thesis by auto
    next
      case ge: False
      let ?m = "if \<not> many \<and> J - 1 > L \<and> ?v = T then True else many"
      have e: "scan_down_my t dm T L I (J, Ptr (J - s), many)
               = scan_down_my t dm T L I (J - 1, Ptr (J - 1 - s), ?m)"
        using True ge rd by (subst scan_down_my.simps) (simp add: Let_def algebra_simps)
      have "nat (J - 1 - I) < nat (J - I)" using True by simp
      have "J - 1 \<le> s + int (length (CurrentPtArray t))" using less.prems(4) by simp
      from less.hyps [OF \<open>nat (J - 1 - I) < nat (J - I)\<close> less.prems(1,2) True this, of ?m]
      obtain J1 Jpt1 many1 where r:
        "scan_down_my t dm T L I (J - 1, Ptr (J - 1 - s), ?m) = Some (J1, Jpt1, many1)"
        "I \<le> J1" "J1 < J - 1" "\<forall>g. J1 < g \<and> g < J - 1 \<longrightarrow> T \<le> kv t s dm g"
        "I < J1 \<longrightarrow> kv t s dm J1 < T \<and> Jpt1 = Ptr (J1 - s)"
        "?m \<longrightarrow> many1" "\<not> many1 \<longrightarrow> (\<forall>g. J1 < g \<and> g < J - 1 \<longrightarrow> kv t s dm g \<noteq> T)"
        by blast
      have a: "\<forall>g. J1 < g \<and> g < J \<longrightarrow> T \<le> kv t s dm g"
      proof (intro allI impI)
        fix g assume "J1 < g \<and> g < J"
        then consider "g < J - 1" | "g = J - 1" by linarith
        then show "T \<le> kv t s dm g" using r(4) \<open>J1 < g \<and> g < J\<close> ge by cases auto
      qed
      have b: "\<not> many1 \<longrightarrow> (\<forall>g. J1 < g \<and> g < J \<longrightarrow> kv t s dm g \<noteq> T)"
      proof (intro allI impI)
        fix g assume nm: "\<not> many1" and "J1 < g \<and> g < J"
        then consider "g < J - 1" | "g = J - 1" by linarith
        then show "kv t s dm g \<noteq> T"
        proof cases
          case 1
          then show ?thesis using r(7) nm \<open>J1 < g \<and> g < J\<close> by auto
        next
          case 2
          have "J - 1 > L" using True less.prems(2) by simp
          then show ?thesis using r(6) nm 2 by (auto split: if_splits)
        qed
      qed
      have c: "many \<longrightarrow> many1" using r(6) by (auto split: if_splits)
      have "J1 < J" using r(3) by simp
      show ?thesis
        unfolding e r(1)
        by (rule exI [of _ J1], rule exI [of _ Jpt1], rule exI [of _ many1])
           (intro conjI refl r(2) \<open>J1 < J\<close> a r(5) b c)
    qed
  qed
qed

lemma scan_up_my_spec:
  assumes dm: "0 \<le> dm" "dm \<le> 2"
  shows "s \<le> I \<Longrightarrow> I < J \<Longrightarrow> J \<le> s + int (length (CurrentPtArray t)) \<Longrightarrow>
    \<exists>I1 Ipt1 many1. scan_up_my t dm T J (I, Ptr (I - s), many) = Some (I1, Ipt1, many1) \<and>
       I < I1 \<and> I1 \<le> J \<and> (\<forall>g. I < g \<and> g < I1 \<longrightarrow> kv t s dm g < T) \<and>
       (I1 < J \<longrightarrow> T \<le> kv t s dm I1 \<and> Ipt1 = Ptr (I1 - s)) \<and>
       (many \<longrightarrow> many1) \<and> (\<not> many1 \<longrightarrow> I1 < J \<longrightarrow> kv t s dm I1 \<noteq> T)"
proof (induction "nat (J - I)" arbitrary: I rule: less_induct)
  case less
  show ?case
  proof (cases "I + 1 < J")
    case False
    then have "I + 1 = J" using less.prems by simp
    with False show ?thesis
      by (subst scan_up_my.simps) (auto simp: Let_def)
  next
    case True
    have il: "in_local t s (I + 1)" using True less.prems by (simp add: in_local_def)
    have rd: "deref t (advance (Ptr (I - s)) 1) dm = Some (kv t s dm (I + 1))"
      using deref_in [OF il dm] by (simp add: algebra_simps)
    let ?v = "kv t s dm (I + 1)"
    show ?thesis
    proof (cases "T \<le> ?v")
      case ge: True
      have "scan_up_my t dm T J (I, Ptr (I - s), many)
            = Some (I + 1, Ptr (I + 1 - s), if \<not> many \<and> ?v = T then True else many)"
        using True ge rd by (subst scan_up_my.simps) (simp add: Let_def algebra_simps)
      with True ge show ?thesis by auto
    next
      case lt: False
      have e: "scan_up_my t dm T J (I, Ptr (I - s), many)
               = scan_up_my t dm T J (I + 1, Ptr (I + 1 - s), many)"
        using True lt rd by (subst scan_up_my.simps) (simp add: Let_def algebra_simps)
      have "nat (J - (I + 1)) < nat (J - I)" using True by simp
      have "s \<le> I + 1" using less.prems(1) by simp
      from less.hyps [OF \<open>nat (J - (I + 1)) < nat (J - I)\<close> this True less.prems(3)]
      obtain I1 Ipt1 many1 where r:
        "scan_up_my t dm T J (I + 1, Ptr (I + 1 - s), many) = Some (I1, Ipt1, many1)"
        "I + 1 < I1" "I1 \<le> J" "\<forall>g. I + 1 < g \<and> g < I1 \<longrightarrow> kv t s dm g < T"
        "I1 < J \<longrightarrow> T \<le> kv t s dm I1 \<and> Ipt1 = Ptr (I1 - s)"
        "many \<longrightarrow> many1" "\<not> many1 \<longrightarrow> I1 < J \<longrightarrow> kv t s dm I1 \<noteq> T"
        by blast
      have a: "\<forall>g. I < g \<and> g < I1 \<longrightarrow> kv t s dm g < T"
      proof (intro allI impI)
        fix g assume "I < g \<and> g < I1"
        then consider "I + 1 < g" | "g = I + 1" by linarith
        then show "kv t s dm g < T" using r(4) \<open>I < g \<and> g < I1\<close> lt by cases auto
      qed
      have "I < I1" using r(2) by simp
      show ?thesis
        unfolding e r(1)
        by (rule exI [of _ I1], rule exI [of _ Ipt1], rule exI [of _ many1])
           (intro conjI refl \<open>I < I1\<close> r(3) a r(5) r(6) r(7))
    qed
  qed
qed

subsection \<open>The exchange loop of PartitionAboutMyValue\<close>

text \<open>
  \<open>my_inv\<close> holds right after the exchange at the head of the loop body; \<open>my_post\<close> is what
  the loop leaves, with \<open>I = J = m\<close>.
\<close>

definition my_inv ::
  "PKdTree \<Rightarrow> int \<Rightarrow> int \<Rightarrow> real \<Rightarrow> int \<Rightarrow> int \<Rightarrow> int \<Rightarrow> int \<Rightarrow> bool \<Rightarrow> bool" where
  "my_inv t s dm T L R I J many \<longleftrightarrow>
     L \<le> I \<and> I < J \<and> J \<le> R \<and>
     (\<forall>g. L < g \<and> g \<le> I \<longrightarrow> kv t s dm g < T) \<and>
     (\<forall>g. J \<le> g \<and> g < R \<longrightarrow> T \<le> kv t s dm g) \<and>
     ((kv t s dm L = T \<and> T \<le> kv t s dm R) \<or> (kv t s dm L < T \<and> kv t s dm R = T)) \<and>
     (\<not> many \<longrightarrow> (\<forall>g. J \<le> g \<and> g < R \<longrightarrow> kv t s dm g \<noteq> T) \<and>
                  \<not> (kv t s dm L = T \<and> kv t s dm R = T))"

definition my_post ::
  "PKdTree \<Rightarrow> int \<Rightarrow> int \<Rightarrow> real \<Rightarrow> int \<Rightarrow> int \<Rightarrow> int \<Rightarrow> bool \<Rightarrow> bool" where
  "my_post t s dm T L R m many \<longleftrightarrow>
     L \<le> m \<and> m \<le> R \<and> (kv t s dm L \<noteq> T \<longrightarrow> m < R) \<and>
     (\<forall>g. L < g \<and> g \<le> m \<longrightarrow> kv t s dm g < T) \<and>
     (\<forall>g. m < g \<and> g < R \<longrightarrow> T \<le> kv t s dm g) \<and>
     ((kv t s dm L = T \<and> T \<le> kv t s dm R) \<or> (kv t s dm L < T \<and> kv t s dm R = T)) \<and>
     (\<not> many \<longrightarrow> (\<forall>g. L < g \<and> g < R \<longrightarrow> kv t s dm g \<noteq> T) \<and>
                  \<not> (kv t s dm L = T \<and> kv t s dm R = T))"

lemma loop_my_spec:
  assumes dm: "0 \<le> dm" "dm \<le> 2"
  shows "local_ok t s \<Longrightarrow> s \<le> L \<Longrightarrow> R < s + int (length (CurrentPtArray t)) \<Longrightarrow>
    my_inv (swapped t s I J) s dm T L R I J many \<Longrightarrow>
    \<exists>t' m many'. loop_my t dm T L (I, J, Ptr (I - s), Ptr (J - s), many) = Some (t', m, m, many') \<and>
       rearranged s L R t t' \<and> my_post t' s dm T L R m many'"
proof (induction "nat (J - I)" arbitrary: t I J many rule: less_induct)
  case less
  let ?t1 = "swapped t s I J"
  note inv = less.prems(4)
  from inv have b: "L \<le> I" "I < J" "J \<le> R" by (simp_all add: my_inv_def)
  from inv have q1: "\<And>g. L < g \<Longrightarrow> g \<le> I \<Longrightarrow> kv ?t1 s dm g < T"
    and q2: "\<And>g. J \<le> g \<Longrightarrow> g < R \<Longrightarrow> T \<le> kv ?t1 s dm g"
    and q3: "(kv ?t1 s dm L = T \<and> T \<le> kv ?t1 s dm R) \<or> (kv ?t1 s dm L < T \<and> kv ?t1 s dm R = T)"
    and q4: "\<not> many \<Longrightarrow> (\<forall>g. J \<le> g \<and> g < R \<longrightarrow> kv ?t1 s dm g \<noteq> T) \<and>
                  \<not> (kv ?t1 s dm L = T \<and> kv ?t1 s dm R = T)"
    by (simp_all add: my_inv_def)
  have inI: "in_local t s I" and inJ: "in_local t s J"
    using b less.prems(2,3) by (simp_all add: in_local_def)
  have ex: "ExchangeLocalVals t I J = Some ?t1"
    by (rule ExchangeLocalVals_in [OF less.prems(1) inI inJ])
  have ok1: "local_ok ?t1 s" using less.prems(1) by simp
  have len1: "length (CurrentPtArray ?t1) = length (CurrentPtArray t)" by simp
  have re1: "rearranged s L R t ?t1"
    using inI inJ b by (intro rearranged_swapped) simp_all
  have sI: "s \<le> I" using b less.prems(2) by simp
  have Jlen: "J \<le> s + int (length (CurrentPtArray ?t1))" using b less.prems(3) by simp
  from scan_down_my_spec [OF dm sI b(1) b(2) Jlen, of T many]
  obtain J1 Jpt1 many1 where d:
    "scan_down_my ?t1 dm T L I (J, Ptr (J - s), many) = Some (J1, Jpt1, many1)"
    "I \<le> J1" "J1 < J"
    and d4: "\<And>g. J1 < g \<Longrightarrow> g < J \<Longrightarrow> T \<le> kv ?t1 s dm g"
    and d5: "I < J1 \<Longrightarrow> kv ?t1 s dm J1 < T \<and> Jpt1 = Ptr (J1 - s)"
    and d6: "many \<Longrightarrow> many1"
    and d7: "\<And>g. \<not> many1 \<Longrightarrow> J1 < g \<Longrightarrow> g < J \<Longrightarrow> kv ?t1 s dm g \<noteq> T"
    by blast
  have hi: "\<And>g. J1 < g \<Longrightarrow> g < R \<Longrightarrow> T \<le> kv ?t1 s dm g"
  proof -
    fix g assume "J1 < g" "g < R"
    then consider "g < J" | "J \<le> g" by linarith
    then show "T \<le> kv ?t1 s dm g" using d4 q2 \<open>J1 < g\<close> \<open>g < R\<close> by cases auto
  qed
  have hineq: "\<And>g. \<not> many1 \<Longrightarrow> J1 < g \<Longrightarrow> g < R \<Longrightarrow> kv ?t1 s dm g \<noteq> T"
  proof -
    fix g assume nm: "\<not> many1" and g: "J1 < g" "g < R"
    then have "\<not> many" using d6 by blast
    consider "g < J" | "J \<le> g" by linarith
    then show "kv ?t1 s dm g \<noteq> T"
    proof cases
      case 1
      then show ?thesis using d7 nm g by blast
    next
      case 2
      then show ?thesis using q4 [OF \<open>\<not> many\<close>] g by blast
    qed
  qed
  have ends1: "\<not> many1 \<Longrightarrow> \<not> (kv ?t1 s dm L = T \<and> kv ?t1 s dm R = T)"
    using q4 d6 by blast
  have unf: "loop_my t dm T L (I, J, Ptr (I - s), Ptr (J - s), many) =
     (if I = J1 then Some (?t1, I, J1, many1)
      else (case scan_up_my ?t1 dm T J1 (I, Ptr (I - s), many1) of
              None \<Rightarrow> None
            | Some (I1, Ipt1, many2) \<Rightarrow> loop_my ?t1 dm T L (I1, J1, Ipt1, Jpt1, many2)))"
    by (subst loop_my.simps) (simp add: b(2) ex d(1))
  show ?case
  proof (cases "I = J1")
    case True
    have r: "loop_my t dm T L (I, J, Ptr (I - s), Ptr (J - s), many) = Some (?t1, I, I, many1)"
      unfolding unf using True by simp
    have lo: "\<forall>g. L < g \<and> g \<le> I \<longrightarrow> kv ?t1 s dm g < T" using q1 by blast
    have hi': "\<forall>g. I < g \<and> g < R \<longrightarrow> T \<le> kv ?t1 s dm g" using hi True by blast
    have ne: "\<not> many1 \<longrightarrow> (\<forall>g. L < g \<and> g < R \<longrightarrow> kv ?t1 s dm g \<noteq> T) \<and>
                  \<not> (kv ?t1 s dm L = T \<and> kv ?t1 s dm R = T)"
    proof (intro impI conjI allI)
      fix g assume nm: "\<not> many1" and g: "L < g \<and> g < R"
      then consider "g \<le> I" | "I < g" by linarith
      then show "kv ?t1 s dm g \<noteq> T"
      proof cases
        case 1
        then have "kv ?t1 s dm g < T" using q1 g by blast
        then show ?thesis by simp
      next
        case 2
        then show ?thesis using hineq nm g True by blast
      qed
    next
      assume "\<not> many1"
      then show "\<not> (kv ?t1 s dm L = T \<and> kv ?t1 s dm R = T)" by (rule ends1)
    qed
    have "my_post ?t1 s dm T L R I many1"
      unfolding my_post_def using b lo hi' q3 ne by (intro conjI) simp_all
    with r re1 show ?thesis by blast
  next
    case False
    then have IJ1: "I < J1" using d(2) by simp
    from d5 [OF IJ1] have kJ1: "kv ?t1 s dm J1 < T" and Jpt1: "Jpt1 = Ptr (J1 - s)" by simp_all
    have J1len: "J1 \<le> s + int (length (CurrentPtArray ?t1))" using d(3) Jlen by simp
    from scan_up_my_spec [OF dm sI IJ1 J1len, of T many1]
    obtain I1 Ipt1 many2 where u:
      "scan_up_my ?t1 dm T J1 (I, Ptr (I - s), many1) = Some (I1, Ipt1, many2)"
      "I < I1" "I1 \<le> J1"
      and u4: "\<And>g. I < g \<Longrightarrow> g < I1 \<Longrightarrow> kv ?t1 s dm g < T"
      and u5: "I1 < J1 \<Longrightarrow> T \<le> kv ?t1 s dm I1 \<and> Ipt1 = Ptr (I1 - s)"
      and u6: "many1 \<Longrightarrow> many2"
      and u7: "\<not> many2 \<Longrightarrow> I1 < J1 \<Longrightarrow> kv ?t1 s dm I1 \<noteq> T"
      by blast
    have step: "loop_my t dm T L (I, J, Ptr (I - s), Ptr (J - s), many)
                = loop_my ?t1 dm T L (I1, J1, Ipt1, Jpt1, many2)"
      unfolding unf using False by (simp add: u(1))
    have lo1: "\<And>g. L < g \<Longrightarrow> g < I1 \<Longrightarrow> kv ?t1 s dm g < T"
    proof -
      fix g assume "L < g" "g < I1"
      then consider "g \<le> I" | "I < g" by linarith
      then show "kv ?t1 s dm g < T" using q1 u4 \<open>L < g\<close> \<open>g < I1\<close> by cases auto
    qed
    show ?thesis
    proof (cases "I1 = J1")
      case True
      have r: "loop_my ?t1 dm T L (I1, J1, Ipt1, Jpt1, many2) = Some (?t1, J1, J1, many2)"
        using True by (subst loop_my.simps) simp
      have lo: "\<forall>g. L < g \<and> g \<le> J1 \<longrightarrow> kv ?t1 s dm g < T"
      proof (intro allI impI)
        fix g assume g: "L < g \<and> g \<le> J1"
        then consider "g < I1" | "g = J1" using True by linarith
        then show "kv ?t1 s dm g < T" using lo1 kJ1 g by cases auto
      qed
      have hi': "\<forall>g. J1 < g \<and> g < R \<longrightarrow> T \<le> kv ?t1 s dm g" using hi by blast
      have ne: "\<not> many2 \<longrightarrow> (\<forall>g. L < g \<and> g < R \<longrightarrow> kv ?t1 s dm g \<noteq> T) \<and>
                  \<not> (kv ?t1 s dm L = T \<and> kv ?t1 s dm R = T)"
      proof (intro impI conjI allI)
        fix g assume nm: "\<not> many2" and g: "L < g \<and> g < R"
        then have nm1: "\<not> many1" using u6 by blast
        consider "g \<le> J1" | "J1 < g" by linarith
        then show "kv ?t1 s dm g \<noteq> T"
        proof cases
          case 1
          then have "kv ?t1 s dm g < T" using lo g by blast
          then show ?thesis by simp
        next
          case 2
          then show ?thesis using hineq nm1 g by blast
        qed
      next
        assume "\<not> many2"
        then have "\<not> many1" using u6 by blast
        then show "\<not> (kv ?t1 s dm L = T \<and> kv ?t1 s dm R = T)" by (rule ends1)
      qed
      have "L \<le> J1" "J1 < R" using b d(2,3) by simp_all
      then have "my_post ?t1 s dm T L R J1 many2"
        unfolding my_post_def using lo hi' q3 ne by (intro conjI) simp_all
      with step r re1 show ?thesis by metis
    next
      case False
      then have I1J1: "I1 < J1" using u(3) by simp
      from u5 [OF I1J1] have kI1: "T \<le> kv ?t1 s dm I1" and Ipt1: "Ipt1 = Ptr (I1 - s)" by simp_all
      let ?t2 = "swapped ?t1 s I1 J1"
      have inI1: "in_local ?t1 s I1" and inJ1: "in_local ?t1 s J1"
        using sI u(2) I1J1 d(3) b less.prems(3) by (simp_all add: in_local_def)
      have sw: "kv ?t2 s dm g =
                 (if g = J1 then kv ?t1 s dm I1 else if g = I1 then kv ?t1 s dm J1 else kv ?t1 s dm g)"
        if "s \<le> g" "g \<le> R" for g
      proof -
        have "in_local ?t1 s g" using that less.prems(3) by (simp add: in_local_def)
        from kv_swapped [OF inI1 inJ1 this] show ?thesis .
      qed
      have LI1: "L < I1" using b(1) u(2) by simp
      have J1R: "J1 < R" using d(3) b(3) by simp
      have inv2: "my_inv ?t2 s dm T L R I1 J1 many2"
        unfolding my_inv_def
      proof (intro conjI allI impI)
        show "L \<le> I1" using LI1 by simp
        show "I1 < J1" by (rule I1J1)
        show "J1 \<le> R" using J1R by simp
      next
        fix g assume g: "L < g \<and> g \<le> I1"
        then have gr: "s \<le> g" "g \<le> R" using less.prems(2) I1J1 J1R by simp_all
        consider "g < I1" | "g = I1" using g by linarith
        then show "kv ?t2 s dm g < T"
        proof cases
          case 1
          then show ?thesis using sw [OF gr] lo1 g I1J1 by simp
        next
          case 2
          then show ?thesis using sw [OF gr] kJ1 I1J1 by simp
        qed
      next
        fix g assume g: "J1 \<le> g \<and> g < R"
        then have gr: "s \<le> g" "g \<le> R" using less.prems(2) sI IJ1 by simp_all
        consider "g = J1" | "J1 < g" using g by linarith
        then show "T \<le> kv ?t2 s dm g"
        proof cases
          case 1
          then show ?thesis using sw [OF gr] kI1 by simp
        next
          case 2
          then show ?thesis using sw [OF gr] hi g I1J1 by simp
        qed
      next
        have "kv ?t2 s dm L = kv ?t1 s dm L"
          using sw [of L] less.prems(2) LI1 I1J1 J1R by simp
        moreover have "kv ?t2 s dm R = kv ?t1 s dm R"
          using sw [of R] less.prems(2) LI1 I1J1 J1R by simp
        ultimately show "(kv ?t2 s dm L = T \<and> T \<le> kv ?t2 s dm R) \<or>
                         (kv ?t2 s dm L < T \<and> kv ?t2 s dm R = T)"
          using q3 by simp
      next
        fix g assume nm: "\<not> many2" and g: "J1 \<le> g \<and> g < R"
        then have nm1: "\<not> many1" using u6 by blast
        have gr: "s \<le> g" "g \<le> R" using g less.prems(2) sI IJ1 by simp_all
        consider "g = J1" | "J1 < g" using g by linarith
        then show "kv ?t2 s dm g \<noteq> T"
        proof cases
          case 1
          then show ?thesis using sw [OF gr] u7 [OF nm I1J1] by simp
        next
          case 2
          then show ?thesis using sw [OF gr] hineq [OF nm1] g I1J1 by simp
        qed
      next
        assume nm: "\<not> many2"
        then have nm1: "\<not> many1" using u6 by blast
        have "kv ?t2 s dm L = kv ?t1 s dm L"
          using sw [of L] less.prems(2) LI1 I1J1 J1R by simp
        moreover have "kv ?t2 s dm R = kv ?t1 s dm R"
          using sw [of R] less.prems(2) LI1 I1J1 J1R by simp
        ultimately show "\<not> (kv ?t2 s dm L = T \<and> kv ?t2 s dm R = T)"
          using ends1 [OF nm1] by simp
      qed
      have m: "nat (J1 - I1) < nat (J - I)" using u(2) d(3) I1J1 by linarith
      have R1: "R < s + int (length (CurrentPtArray ?t1))" using less.prems(3) by simp
      from less.hyps [OF m ok1 less.prems(2) R1 inv2]
      obtain t' m' many' where f:
        "loop_my ?t1 dm T L (I1, J1, Ptr (I1 - s), Ptr (J1 - s), many2) = Some (t', m', m', many')"
        "rearranged s L R ?t1 t'" "my_post t' s dm T L R m' many'"
        by blast
      have "rearranged s L R t t'" by (rule rearranged_trans [OF re1 f(2)])
      with step f(1,3) Ipt1 Jpt1 show ?thesis by metis
    qed
  qed
qed

subsection \<open>The loop that moves the values equal to T together\<close>

lemma scan_up_eq_spec:
  assumes dm: "0 \<le> dm" "dm \<le> 2"
  shows "s \<le> I + 1 \<Longrightarrow> I < J \<Longrightarrow> J \<le> s + int (length (CurrentPtArray t)) \<Longrightarrow>
    \<exists>I1 Ipt1. scan_up_eq t dm T J (I, Ptr (I - s)) = Some (I1, Ipt1) \<and>
       I < I1 \<and> I1 \<le> J \<and> (\<forall>g. I < g \<and> g < I1 \<longrightarrow> kv t s dm g = T) \<and>
       (I1 < J \<longrightarrow> kv t s dm I1 \<noteq> T \<and> Ipt1 = Ptr (I1 - s))"
proof (induction "nat (J - I)" arbitrary: I rule: less_induct)
  case less
  show ?case
  proof (cases "I + 1 < J")
    case False
    then have "I + 1 = J" using less.prems by simp
    with False show ?thesis
      by (subst scan_up_eq.simps) (auto simp: Let_def)
  next
    case True
    have il: "in_local t s (I + 1)" using True less.prems by (simp add: in_local_def)
    have rd: "deref t (advance (Ptr (I - s)) 1) dm = Some (kv t s dm (I + 1))"
      using deref_in [OF il dm] by (simp add: algebra_simps)
    let ?v = "kv t s dm (I + 1)"
    show ?thesis
    proof (cases "?v \<noteq> T")
      case ne: True
      have "scan_up_eq t dm T J (I, Ptr (I - s)) = Some (I + 1, Ptr (I + 1 - s))"
        using True ne rd by (subst scan_up_eq.simps) (simp add: Let_def algebra_simps)
      with True ne show ?thesis by auto
    next
      case eq: False
      have e: "scan_up_eq t dm T J (I, Ptr (I - s)) = scan_up_eq t dm T J (I + 1, Ptr (I + 1 - s))"
        using True eq rd by (subst scan_up_eq.simps) (simp add: Let_def algebra_simps)
      have m: "nat (J - (I + 1)) < nat (J - I)" using True by simp
      have "s \<le> I + 1 + 1" using less.prems(1) by simp
      from less.hyps [OF m this True less.prems(3)]
      obtain I1 Ipt1 where r:
        "scan_up_eq t dm T J (I + 1, Ptr (I + 1 - s)) = Some (I1, Ipt1)"
        "I + 1 < I1" "I1 \<le> J" "\<forall>g. I + 1 < g \<and> g < I1 \<longrightarrow> kv t s dm g = T"
        "I1 < J \<longrightarrow> kv t s dm I1 \<noteq> T \<and> Ipt1 = Ptr (I1 - s)"
        by blast
      have a: "\<forall>g. I < g \<and> g < I1 \<longrightarrow> kv t s dm g = T"
      proof (intro allI impI)
        fix g assume g: "I < g \<and> g < I1"
        then consider "I + 1 < g" | "g = I + 1" by linarith
        then show "kv t s dm g = T" using r(4) g eq by cases auto
      qed
      have "I < I1" using r(2) by simp
      show ?thesis
        unfolding e r(1)
        by (rule exI [of _ I1], rule exI [of _ Ipt1]) (intro conjI refl \<open>I < I1\<close> r(3) a r(5))
    qed
  qed
qed

lemma scan_down_eq_spec:
  assumes dm: "0 \<le> dm" "dm \<le> 2"
  shows "s \<le> I \<Longrightarrow> I < J \<Longrightarrow> J \<le> s + int (length (CurrentPtArray t)) \<Longrightarrow>
    \<exists>J1 Jpt1. scan_down_eq t dm T I (J, Ptr (J - s)) = Some (J1, Jpt1) \<and>
       I \<le> J1 \<and> J1 < J \<and> (\<forall>g. J1 < g \<and> g < J \<longrightarrow> kv t s dm g \<noteq> T) \<and>
       (I < J1 \<longrightarrow> kv t s dm J1 = T \<and> Jpt1 = Ptr (J1 - s))"
proof (induction "nat (J - I)" arbitrary: J rule: less_induct)
  case less
  show ?case
  proof (cases "J - 1 > I")
    case False
    then have "J - 1 = I" using less.prems by simp
    with False show ?thesis
      by (subst scan_down_eq.simps) (auto simp: Let_def)
  next
    case True
    have il: "in_local t s (J - 1)" using True less.prems by (simp add: in_local_def)
    have rd: "deref t (advance (Ptr (J - s)) (- 1)) dm = Some (kv t s dm (J - 1))"
      using deref_in [OF il dm] by (simp add: algebra_simps)
    let ?v = "kv t s dm (J - 1)"
    show ?thesis
    proof (cases "?v = T")
      case eq: True
      have "scan_down_eq t dm T I (J, Ptr (J - s)) = Some (J - 1, Ptr (J - 1 - s))"
        using True eq rd by (subst scan_down_eq.simps) (simp add: Let_def algebra_simps)
      with True eq show ?thesis by auto
    next
      case ne: False
      have e: "scan_down_eq t dm T I (J, Ptr (J - s)) = scan_down_eq t dm T I (J - 1, Ptr (J - 1 - s))"
        using True ne rd by (subst scan_down_eq.simps) (simp add: Let_def algebra_simps)
      have m: "nat (J - 1 - I) < nat (J - I)" using True by simp
      have "J - 1 \<le> s + int (length (CurrentPtArray t))" using less.prems(3) by simp
      from less.hyps [OF m less.prems(1) True this]
      obtain J1 Jpt1 where r:
        "scan_down_eq t dm T I (J - 1, Ptr (J - 1 - s)) = Some (J1, Jpt1)"
        "I \<le> J1" "J1 < J - 1" "\<forall>g. J1 < g \<and> g < J - 1 \<longrightarrow> kv t s dm g \<noteq> T"
        "I < J1 \<longrightarrow> kv t s dm J1 = T \<and> Jpt1 = Ptr (J1 - s)"
        by blast
      have a: "\<forall>g. J1 < g \<and> g < J \<longrightarrow> kv t s dm g \<noteq> T"
      proof (intro allI impI)
        fix g assume g: "J1 < g \<and> g < J"
        then consider "g < J - 1" | "g = J - 1" by linarith
        then show "kv t s dm g \<noteq> T" using r(4) g ne by cases auto
      qed
      have "J1 < J" using r(3) by simp
      show ?thesis
        unfolding e r(1)
        by (rule exI [of _ J1], rule exI [of _ Jpt1]) (intro conjI refl r(2) \<open>J1 < J\<close> a r(5))
    qed
  qed
qed

definition gather_inv ::
  "PKdTree \<Rightarrow> int \<Rightarrow> int \<Rightarrow> real \<Rightarrow> int \<Rightarrow> int \<Rightarrow> int \<Rightarrow> int \<Rightarrow> bool" where
  "gather_inv t s dm T a R I J \<longleftrightarrow>
     a - 1 \<le> I \<and> I < J \<and> J \<le> R + 1 \<and>
     (\<forall>g. a \<le> g \<and> g \<le> I \<longrightarrow> kv t s dm g = T) \<and>
     (\<forall>g. J \<le> g \<and> g \<le> R \<longrightarrow> T < kv t s dm g) \<and>
     (\<forall>g. I < g \<and> g < J \<longrightarrow> T \<le> kv t s dm g)"

definition gathered :: "PKdTree \<Rightarrow> int \<Rightarrow> int \<Rightarrow> real \<Rightarrow> int \<Rightarrow> int \<Rightarrow> int \<Rightarrow> bool" where
  "gathered t s dm T a R I' \<longleftrightarrow>
     a \<le> I' \<and> I' \<le> R + 1 \<and>
     (\<forall>g. a \<le> g \<and> g < I' \<longrightarrow> kv t s dm g = T) \<and>
     (\<forall>g. I' \<le> g \<and> g \<le> R \<longrightarrow> T < kv t s dm g)"

lemma gather_Ts_spec:
  assumes dm: "0 \<le> dm" "dm \<le> 2"
  shows "local_ok t s \<Longrightarrow> s \<le> a \<Longrightarrow> R < s + int (length (CurrentPtArray t)) \<Longrightarrow>
    gather_inv t s dm T a R I J \<Longrightarrow>
    \<exists>t' I' J'. gather_Ts t dm T (I, J, Ptr (I - s), Ptr (J - s)) = Some (t', I', J') \<and>
       rearranged s a R t t' \<and> I < I' \<and> gathered t' s dm T a R I'"
proof (induction "nat (J - I)" arbitrary: t I J rule: less_induct)
  case less
  note inv = less.prems(4)
  from inv have b: "a - 1 \<le> I" "I < J" "J \<le> R + 1" by (simp_all add: gather_inv_def)
  from inv have q1: "\<And>g. a \<le> g \<Longrightarrow> g \<le> I \<Longrightarrow> kv t s dm g = T"
    and q2: "\<And>g. J \<le> g \<Longrightarrow> g \<le> R \<Longrightarrow> T < kv t s dm g"
    and q3: "\<And>g. I < g \<Longrightarrow> g < J \<Longrightarrow> T \<le> kv t s dm g"
    by (simp_all add: gather_inv_def)
  have sI: "s \<le> I + 1" using b(1) less.prems(2) by simp
  have Jlen: "J \<le> s + int (length (CurrentPtArray t))" using b(3) less.prems(3) by simp
  from scan_up_eq_spec [OF dm sI b(2) Jlen, of T]
  obtain I1 Ipt1 where u:
    "scan_up_eq t dm T J (I, Ptr (I - s)) = Some (I1, Ipt1)" "I < I1" "I1 \<le> J"
    and u4: "\<And>g. I < g \<Longrightarrow> g < I1 \<Longrightarrow> kv t s dm g = T"
    and u5: "I1 < J \<Longrightarrow> kv t s dm I1 \<noteq> T \<and> Ipt1 = Ptr (I1 - s)"
    by blast
  have lo: "\<And>g. a \<le> g \<Longrightarrow> g < I1 \<Longrightarrow> kv t s dm g = T"
  proof -
    fix g assume g: "a \<le> g" "g < I1"
    then consider "g \<le> I" | "I < g" by linarith
    then show "kv t s dm g = T" using q1 u4 g by cases auto
  qed
  have aI1: "a \<le> I1" using b(1) u(2) by simp
  show ?case
  proof (cases "I1 = J")
    case True
    have r: "gather_Ts t dm T (I, J, Ptr (I - s), Ptr (J - s)) = Some (t, J, J)"
      by (subst gather_Ts.simps) (simp add: b(2) u(1) True)
    have "gathered t s dm T a R J"
      unfolding gathered_def using aI1 True b(3) lo q2 by auto
    with r b(2) show ?thesis by (metis rearranged_refl)
  next
    case False
    then have I1J: "I1 < J" using u(3) by simp
    from u5 [OF I1J] have kI1: "kv t s dm I1 \<noteq> T" and Ipt1: "Ipt1 = Ptr (I1 - s)" by simp_all
    have gI1: "T < kv t s dm I1" using q3 [OF u(2) I1J] kI1 by simp
    have sI1: "s \<le> I1" using sI u(2) by simp
    from scan_down_eq_spec [OF dm sI1 I1J Jlen, of T]
    obtain J1 Jpt1 where d:
      "scan_down_eq t dm T I1 (J, Ptr (J - s)) = Some (J1, Jpt1)" "I1 \<le> J1" "J1 < J"
      and d4: "\<And>g. J1 < g \<Longrightarrow> g < J \<Longrightarrow> kv t s dm g \<noteq> T"
      and d5: "I1 < J1 \<Longrightarrow> kv t s dm J1 = T \<and> Jpt1 = Ptr (J1 - s)"
      by blast
    have hi: "\<And>g. J1 < g \<Longrightarrow> g \<le> R \<Longrightarrow> T < kv t s dm g"
    proof -
      fix g assume g: "J1 < g" "g \<le> R"
      then consider "g < J" | "J \<le> g" by linarith
      then show "T < kv t s dm g"
      proof cases
        case 1
        have "I < g" using g(1) d(2) u(2) by simp
        from q3 [OF this 1] d4 [OF g(1) 1] show ?thesis by simp
      next
        case 2
        then show ?thesis using q2 g by blast
      qed
    qed
    have unf: "gather_Ts t dm T (I, J, Ptr (I - s), Ptr (J - s)) =
       (case (if I1 < J1 then ExchangeLocalVals t I1 J1 else Some t) of
          None \<Rightarrow> None
        | Some t1 \<Rightarrow> gather_Ts t1 dm T (I1, J1, Ipt1, Jpt1))"
      by (subst gather_Ts.simps) (simp add: b(2) u(1) False d(1))
    show ?thesis
    proof (cases "I1 = J1")
      case True
      have r: "gather_Ts t dm T (I, J, Ptr (I - s), Ptr (J - s)) = Some (t, I1, J1)"
        unfolding unf using True by (simp add: gather_Ts.simps)
      have "\<forall>g. I1 \<le> g \<and> g \<le> R \<longrightarrow> T < kv t s dm g"
      proof (intro allI impI)
        fix g assume g: "I1 \<le> g \<and> g \<le> R"
        then consider "g = I1" | "J1 < g" using True by linarith
        then show "T < kv t s dm g" using gI1 hi g by cases auto
      qed
      moreover have "I1 \<le> R + 1" using I1J b(3) by simp
      ultimately have "gathered t s dm T a R I1"
        unfolding gathered_def using aI1 lo by auto
      with r u(2) show ?thesis by (metis rearranged_refl)
    next
      case False
      then have I1J1: "I1 < J1" using d(2) by simp
      from d5 [OF I1J1] have kJ1: "kv t s dm J1 = T" and Jpt1: "Jpt1 = Ptr (J1 - s)" by simp_all
      let ?t1 = "swapped t s I1 J1"
      have J1R: "J1 \<le> R" using d(3) b(3) by simp
      have inI1: "in_local t s I1" and inJ1: "in_local t s J1"
        using sI1 I1J1 J1R less.prems(3) by (simp_all add: in_local_def)
      have ex: "ExchangeLocalVals t I1 J1 = Some ?t1"
        by (rule ExchangeLocalVals_in [OF less.prems(1) inI1 inJ1])
      have step: "gather_Ts t dm T (I, J, Ptr (I - s), Ptr (J - s))
                  = gather_Ts ?t1 dm T (I1, J1, Ptr (I1 - s), Ptr (J1 - s))"
        unfolding unf using I1J1 by (simp add: ex Ipt1 Jpt1)
      have sw: "kv ?t1 s dm g =
                 (if g = J1 then kv t s dm I1 else if g = I1 then kv t s dm J1 else kv t s dm g)"
        if "s \<le> g" "g \<le> R" for g
      proof -
        have "in_local t s g" using that less.prems(3) by (simp add: in_local_def)
        from kv_swapped [OF inI1 inJ1 this] show ?thesis .
      qed
      have inv1: "gather_inv ?t1 s dm T a R I1 J1"
        unfolding gather_inv_def
      proof (intro conjI allI impI)
        show "a - 1 \<le> I1" using aI1 by simp
        show "I1 < J1" by (rule I1J1)
        show "J1 \<le> R + 1" using J1R by simp
      next
        fix g assume g: "a \<le> g \<and> g \<le> I1"
        then have gr: "s \<le> g" "g \<le> R" using less.prems(2) I1J1 J1R by simp_all
        consider "g < I1" | "g = I1" using g by linarith
        then show "kv ?t1 s dm g = T"
        proof cases
          case 1
          then show ?thesis using sw [OF gr] lo g I1J1 by simp
        next
          case 2
          then show ?thesis using sw [OF gr] kJ1 I1J1 by simp
        qed
      next
        fix g assume g: "J1 \<le> g \<and> g \<le> R"
        then have gr: "s \<le> g" "g \<le> R" using sI1 I1J1 by simp_all
        consider "g = J1" | "J1 < g" using g by linarith
        then show "T < kv ?t1 s dm g"
        proof cases
          case 1
          then show ?thesis using sw [OF gr] gI1 by simp
        next
          case 2
          then show ?thesis using sw [OF gr] hi g I1J1 by simp
        qed
      next
        fix g assume g: "I1 < g \<and> g < J1"
        then have gr: "s \<le> g" "g \<le> R" using sI1 J1R by simp_all
        have "I < g" "g < J" using g u(2) d(3) by simp_all
        then show "T \<le> kv ?t1 s dm g" using sw [OF gr] q3 g by simp
      qed
      have m: "nat (J1 - I1) < nat (J - I)" using u(2) d(3) I1J1 by linarith
      have ok1: "local_ok ?t1 s" using less.prems(1) by simp
      have R1: "R < s + int (length (CurrentPtArray ?t1))" using less.prems(3) by simp
      have re1: "rearranged s a R t ?t1"
        using inI1 inJ1 aI1 I1J1 J1R by (intro rearranged_swapped) simp_all
      from less.hyps [OF m ok1 less.prems(2) R1 inv1]
      obtain t' I' J' where f:
        "gather_Ts ?t1 dm T (I1, J1, Ptr (I1 - s), Ptr (J1 - s)) = Some (t', I', J')"
        "rearranged s a R ?t1 t'" "I1 < I'" "gathered t' s dm T a R I'"
        by blast
      have "rearranged s a R t t'" by (rule rearranged_trans [OF re1 f(2)])
      moreover have "I < I'" using u(2) f(3) by simp
      ultimately show ?thesis using step f(1,4) by metis
    qed
  qed
qed

subsection \<open>PartitionAboutMyValue as a whole\<close>

text \<open>
  \<open>three_way t s dm T L R I J\<close>: in \<open>t\<close> the indices \<open>L\<close> to \<open>R\<close> fall into a block of values
  below \<open>T\<close>, the block \<open>[I, J)\<close> of values equal to \<open>T\<close> and a block of values above \<open>T\<close>.
\<close>

definition three_way :: "PKdTree \<Rightarrow> int \<Rightarrow> int \<Rightarrow> real \<Rightarrow> int \<Rightarrow> int \<Rightarrow> int \<Rightarrow> int \<Rightarrow> bool" where
  "three_way t s dm T L R I J \<longleftrightarrow>
     L \<le> I \<and> I \<le> J \<and> J \<le> R + 1 \<and>
     (\<forall>g. L \<le> g \<and> g < I \<longrightarrow> kv t s dm g < T) \<and>
     (\<forall>g. I \<le> g \<and> g < J \<longrightarrow> kv t s dm g = T) \<and>
     (\<forall>g. J \<le> g \<and> g \<le> R \<longrightarrow> T < kv t s dm g)"

text \<open>The part of the function after its exchange loop, and the part after its set-up.\<close>

definition my_place ::
  "PKdTree \<Rightarrow> int \<Rightarrow> real \<Rightarrow> int \<Rightarrow> int \<Rightarrow> int \<Rightarrow> bool \<Rightarrow> (PKdTree \<times> int \<times> int) option" where
  "my_place t0 dm T L R J0 many = do {
     pt \<leftarrow> GetLocalVal t0 L;
     Lval \<leftarrow> deref t0 pt dm;
     (t, J) \<leftarrow> (if Lval = T then map_option (\<lambda>u. (u, J0)) (ExchangeLocalVals t0 L J0)
                 else map_option (\<lambda>u. (u, J0 + 1)) (ExchangeLocalVals t0 (J0 + 1) R));
     if many then do {
       Ipt \<leftarrow> GetLocalVal t J;
       Jpt \<leftarrow> GetLocalVal t R;
       (t, I, J') \<leftarrow> gather_Ts t dm T (J, R + 1, Ipt, advance Jpt 1);
       Some (t, J, I)
     } else Some (t, J, J + 1)
   }"

definition my_tail ::
  "PKdTree \<Rightarrow> int \<Rightarrow> real \<Rightarrow> int \<Rightarrow> int \<Rightarrow> bool \<Rightarrow> (PKdTree \<times> int \<times> int) option" where
  "my_tail t0 dm T L R many0 = do {
     Ipt \<leftarrow> GetLocalVal t0 L;
     Jpt \<leftarrow> GetLocalVal t0 R;
     (t, I, J, many) \<leftarrow> loop_my t0 dm T L (L, R, Ipt, Jpt, many0);
     my_place t dm T L R J many
   }"

lemma PartitionAboutMyValue_stages:
  "PartitionAboutMyValue t0 L R K dm = do {
     pt \<leftarrow> GetLocalVal t0 K;
     T \<leftarrow> deref t0 pt dm;
     t \<leftarrow> ExchangeLocalVals t0 L K;
     pt \<leftarrow> GetLocalVal t R;
     v \<leftarrow> deref t pt dm;
     (t, many) \<leftarrow> (if v \<ge> T
                    then (if v = T then Some (t, True)
                          else map_option (\<lambda>u. (u, False)) (ExchangeLocalVals t R L))
                    else Some (t, False));
     my_tail t dm T L R many
   }"
  by (simp add: PartitionAboutMyValue_def my_tail_def my_place_def)

text \<open>
  \<open>pivot_placed\<close>: a value \<open>T\<close> stands at \<open>j\<close>, smaller values to its left, no smaller values
  to its right; and without \<open>many\<close> it is the only \<open>T\<close>.
\<close>

definition pivot_placed ::
  "PKdTree \<Rightarrow> int \<Rightarrow> int \<Rightarrow> real \<Rightarrow> int \<Rightarrow> int \<Rightarrow> int \<Rightarrow> bool \<Rightarrow> bool" where
  "pivot_placed t s dm T L R j many \<longleftrightarrow>
     L \<le> j \<and> j \<le> R \<and>
     (\<forall>g. L \<le> g \<and> g < j \<longrightarrow> kv t s dm g < T) \<and>
     kv t s dm j = T \<and>
     (\<forall>g. j < g \<and> g \<le> R \<longrightarrow> T \<le> kv t s dm g) \<and>
     (\<not> many \<longrightarrow> (\<forall>g. j < g \<and> g \<le> R \<longrightarrow> kv t s dm g \<noteq> T))"

lemma gather_after_pivot:
  assumes dm: "0 \<le> dm" "dm \<le> 2"
    and ok: "local_ok t s" and sL: "s \<le> L" and Rn: "R < s + int (length (CurrentPtArray t))"
    and pp: "pivot_placed t s dm T L R j many"
  shows "\<exists>t' J. (if many then do {
             Ipt \<leftarrow> GetLocalVal t j;
             Jpt \<leftarrow> GetLocalVal t R;
             (t, I, J') \<leftarrow> gather_Ts t dm T (j, R + 1, Ipt, advance Jpt 1);
             Some (t, j, I)
           } else Some (t, j, j + 1)) = Some (t', j, J) \<and>
         rearranged s L R t t' \<and> j < J \<and> three_way t' s dm T L R j J"
proof -
  from pp have b: "L \<le> j" "j \<le> R"
    and p1: "\<And>g. L \<le> g \<Longrightarrow> g < j \<Longrightarrow> kv t s dm g < T"
    and p2: "kv t s dm j = T"
    and p3: "\<And>g. j < g \<Longrightarrow> g \<le> R \<Longrightarrow> T \<le> kv t s dm g"
    and p4: "\<And>g. \<not> many \<Longrightarrow> j < g \<Longrightarrow> g \<le> R \<Longrightarrow> kv t s dm g \<noteq> T"
    by (simp_all add: pivot_placed_def)
  show ?thesis
  proof (cases many)
    case False
    have "\<forall>g. j + 1 \<le> g \<and> g \<le> R \<longrightarrow> T < kv t s dm g"
    proof (intro allI impI)
      fix g assume g: "j + 1 \<le> g \<and> g \<le> R"
      then have "j < g" "g \<le> R" by simp_all
      from p3 [OF this] p4 [OF False this] show "T < kv t s dm g" by simp
    qed
    moreover have "\<forall>g. j \<le> g \<and> g < j + 1 \<longrightarrow> kv t s dm g = T"
    proof (intro allI impI)
      fix g assume "j \<le> g \<and> g < j + 1"
      then have "g = j" by simp
      then show "kv t s dm g = T" using p2 by simp
    qed
    ultimately have "three_way t s dm T L R j (j + 1)"
      unfolding three_way_def using b p1 by simp
    with False show ?thesis by simp
  next
    case True
    have inj: "in_local t s j" and inR: "in_local t s R"
      using b sL Rn by (simp_all add: in_local_def)
    have "\<forall>g. j \<le> g \<and> g \<le> j \<longrightarrow> kv t s dm g = T"
    proof (intro allI impI)
      fix g assume "j \<le> g \<and> g \<le> j"
      then have "g = j" by simp
      then show "kv t s dm g = T" using p2 by simp
    qed
    then have gi: "gather_inv t s dm T j R j (R + 1)"
      unfolding gather_inv_def using b p3 by simp
    have sj: "s \<le> j" using sL b by simp
    from gather_Ts_spec [OF dm ok sj Rn gi]
    obtain t' I' J' where f:
      "gather_Ts t dm T (j, R + 1, Ptr (j - s), Ptr (R + 1 - s)) = Some (t', I', J')"
      "rearranged s j R t t'" "j < I'" "gathered t' s dm T j R I'"
      by blast
    have re: "rearranged s L R t t'" by (rule rearranged_mono [OF f(2) b(1)]) simp
    have low: "\<forall>g. L \<le> g \<and> g < j \<longrightarrow> kv t' s dm g < T"
    proof (intro allI impI)
      fix g assume g: "L \<le> g \<and> g < j"
      then have "in_local t s g" using sL b Rn by (simp add: in_local_def)
      from rearranged_kv_outside [OF f(2) this] g have "kv t' s dm g = kv t s dm g" by simp
      with p1 g show "kv t' s dm g < T" by simp
    qed
    have tw: "three_way t' s dm T L R j I'"
      unfolding three_way_def using f(3,4) b low by (simp add: gathered_def)
    have ev: "(do {
             Ipt \<leftarrow> GetLocalVal t j;
             Jpt \<leftarrow> GetLocalVal t R;
             (t, I, J') \<leftarrow> gather_Ts t dm T (j, R + 1, Ipt, advance Jpt 1);
             Some (t, j, I)
           }) = Some (t', j, I')"
      by (simp add: GetLocalVal_in [OF ok inj] GetLocalVal_in [OF ok inR] algebra_simps)
         (simp add: f(1) [simplified algebra_simps])
    show ?thesis
      using True ev re f(3) tw by auto
  qed
qed

lemma my_place_spec:
  assumes dm: "0 \<le> dm" "dm \<le> 2"
    and ok: "local_ok t s" and sL: "s \<le> L"
    and Rn: "R < s + int (length (CurrentPtArray t))"
    and post: "my_post t s dm T L R m many"
  shows "\<exists>t' j J. my_place t dm T L R m many = Some (t', j, J) \<and>
           rearranged s L R t t' \<and> j < J \<and> three_way t' s dm T L R j J"
proof -
  from post have b: "L \<le> m" "m \<le> R" and bR: "kv t s dm L \<noteq> T \<Longrightarrow> m < R"
    and f1: "\<And>g. L < g \<Longrightarrow> g \<le> m \<Longrightarrow> kv t s dm g < T"
    and f2: "\<And>g. m < g \<Longrightarrow> g < R \<Longrightarrow> T \<le> kv t s dm g"
    and f3: "(kv t s dm L = T \<and> T \<le> kv t s dm R) \<or> (kv t s dm L < T \<and> kv t s dm R = T)"
    and f4: "\<not> many \<Longrightarrow> (\<forall>g. L < g \<and> g < R \<longrightarrow> kv t s dm g \<noteq> T) \<and>
                  \<not> (kv t s dm L = T \<and> kv t s dm R = T)"
    by (simp_all add: my_post_def)
  have LR: "L \<le> R" using b by simp
  have inL: "in_local t s L" and inR: "in_local t s R" and inm: "in_local t s m"
    using sL LR Rn b by (simp_all add: in_local_def)
  have inl: "in_local t s g" if "L \<le> g" "g \<le> R" for g
    using that sL Rn by (simp add: in_local_def)
  have rdL: "GetLocalVal t L = Some (Ptr (L - s))" by (rule GetLocalVal_in [OF ok inL])
  have vL: "deref t (Ptr (L - s)) dm = Some (kv t s dm L)" by (rule deref_in [OF inL dm])
  show ?thesis
  proof (cases "kv t s dm L = T")
    case True
    let ?t1 = "swapped t s L m"
    have ex: "ExchangeLocalVals t L m = Some ?t1" by (rule ExchangeLocalVals_in [OF ok inL inm])
    have sw: "kv ?t1 s dm g =
                (if g = m then kv t s dm L else if g = L then kv t s dm m else kv t s dm g)"
      if "L \<le> g" "g \<le> R" for g
      by (rule kv_swapped [OF inL inm inl [OF that]])
    have kR: "T \<le> kv t s dm R" using f3 True by auto
    have pp: "pivot_placed ?t1 s dm T L R m many"
      unfolding pivot_placed_def
    proof (intro conjI allI impI)
      show "L \<le> m" by (rule b(1))
      show "m \<le> R" by (rule b(2))
      show "kv ?t1 s dm m = T" using sw [of m] b True by simp
    next
      fix g assume g: "L \<le> g \<and> g < m"
      then have gr: "L \<le> g" "g \<le> R" using b by simp_all
      consider "g = L" | "L < g" using g by linarith
      then show "kv ?t1 s dm g < T"
      proof cases
        case 1
        then have "kv ?t1 s dm g = kv t s dm m" using sw [OF gr] g by simp
        moreover have "L < m" using g by simp
        ultimately show ?thesis using f1 [of m] by simp
      next
        case 2
        then show ?thesis using sw [OF gr] g f1 [of g] by simp
      qed
    next
      fix g assume g: "m < g \<and> g \<le> R"
      have gr: "L \<le> g" "g \<le> R" using g b by simp_all
      consider "g < R" | "g = R" using g by linarith
      then show "T \<le> kv ?t1 s dm g"
      proof cases
        case 1
        then show ?thesis using sw [OF gr] g b f2 [of g] by simp
      next
        case 2
        then show ?thesis using sw [OF gr] g b kR by simp
      qed
    next
      fix g assume nm: "\<not> many" and g: "m < g \<and> g \<le> R"
      have gr: "L \<le> g" "g \<le> R" using g b by simp_all
      consider "g < R" | "g = R" using g by linarith
      then show "kv ?t1 s dm g \<noteq> T"
      proof cases
        case 1
        then have "L < g \<and> g < R" using g b by simp
        then show ?thesis using sw [OF gr] g b f4 [OF nm] by simp
      next
        case 2
        have "kv t s dm R \<noteq> T" using f4 [OF nm] True by simp
        then show ?thesis using sw [OF gr] g b 2 by simp
      qed
    qed
    have ok1: "local_ok ?t1 s" using ok by simp
    have Rn1: "R < s + int (length (CurrentPtArray ?t1))" using Rn by simp
    from gather_after_pivot [OF dm ok1 sL Rn1 pp]
    obtain t' J where r:
      "(if many then do {
             Ipt \<leftarrow> GetLocalVal ?t1 m;
             Jpt \<leftarrow> GetLocalVal ?t1 R;
             (t, I, J') \<leftarrow> gather_Ts ?t1 dm T (m, R + 1, Ipt, advance Jpt 1);
             Some (t, m, I)
           } else Some (?t1, m, m + 1)) = Some (t', m, J)"
      "rearranged s L R ?t1 t'" "m < J" "three_way t' s dm T L R m J"
      by blast
    have re1: "rearranged s L R t ?t1"
      using inL inm b LR by (intro rearranged_swapped) simp_all
    have "my_place t dm T L R m many = Some (t', m, J)"
      unfolding my_place_def by (simp add: rdL vL True ex r(1))
    moreover have "rearranged s L R t t'" by (rule rearranged_trans [OF re1 r(2)])
    ultimately show ?thesis using r(3,4) by blast
  next
    case False
    then have kL: "kv t s dm L < T" and kR: "kv t s dm R = T" using f3 by auto
    have mR: "m < R" using bR False by simp
    note b = b mR
    have inm1: "in_local t s (m + 1)" using sL b mR Rn by (simp add: in_local_def)
    let ?t1 = "swapped t s (m + 1) R"
    have ex: "ExchangeLocalVals t (m + 1) R = Some ?t1"
      by (rule ExchangeLocalVals_in [OF ok inm1 inR])
    have sw: "kv ?t1 s dm g =
                (if g = R then kv t s dm (m + 1) else if g = m + 1 then kv t s dm R else kv t s dm g)"
      if "L \<le> g" "g \<le> R" for g
      by (rule kv_swapped [OF inm1 inR inl [OF that]])
    have pp: "pivot_placed ?t1 s dm T L R (m + 1) many"
      unfolding pivot_placed_def
    proof (intro conjI allI impI)
      show "L \<le> m + 1" using b(1) by simp
      show "m + 1 \<le> R" using mR by simp
      show "kv ?t1 s dm (m + 1) = T" using sw [of "m + 1"] b kR by simp
    next
      fix g assume g: "L \<le> g \<and> g < m + 1"
      then have gr: "L \<le> g" "g \<le> R" using b by simp_all
      consider "g = L" | "L < g" using g by linarith
      then show "kv ?t1 s dm g < T"
      proof cases
        case 1
        then show ?thesis using sw [OF gr] g b kL by simp
      next
        case 2
        then show ?thesis using sw [OF gr] g b f1 [of g] by simp
      qed
    next
      fix g assume g: "m + 1 < g \<and> g \<le> R"
      have gr: "L \<le> g" "g \<le> R" using g b by simp_all
      consider "g < R" | "g = R" using g by linarith
      then show "T \<le> kv ?t1 s dm g"
      proof cases
        case 1
        then show ?thesis using sw [OF gr] g f2 [of g] by simp
      next
        case 2
        then show ?thesis using sw [OF gr] g f2 [of "m + 1"] by simp
      qed
    next
      fix g assume nm: "\<not> many" and g: "m + 1 < g \<and> g \<le> R"
      have gr: "L \<le> g" "g \<le> R" using g b by simp_all
      consider "g < R" | "g = R" using g by linarith
      then show "kv ?t1 s dm g \<noteq> T"
      proof cases
        case 1
        then have "L < g \<and> g < R" using g b by simp
        then show ?thesis using sw [OF gr] g f4 [OF nm] by simp
      next
        case 2
        have "L < m + 1 \<and> m + 1 < R" using g b 2 by simp
        then have "kv t s dm (m + 1) \<noteq> T" using f4 [OF nm] by blast
        then show ?thesis using sw [OF gr] 2 by simp
      qed
    qed
    have ok1: "local_ok ?t1 s" using ok by simp
    have Rn1: "R < s + int (length (CurrentPtArray ?t1))" using Rn by simp
    from gather_after_pivot [OF dm ok1 sL Rn1 pp]
    obtain t' J where r:
      "(if many then do {
             Ipt \<leftarrow> GetLocalVal ?t1 (m + 1);
             Jpt \<leftarrow> GetLocalVal ?t1 R;
             (t, I, J') \<leftarrow> gather_Ts ?t1 dm T (m + 1, R + 1, Ipt, advance Jpt 1);
             Some (t, m + 1, I)
           } else Some (?t1, m + 1, m + 1 + 1)) = Some (t', m + 1, J)"
      "rearranged s L R ?t1 t'" "m + 1 < J" "three_way t' s dm T L R (m + 1) J"
      by blast
    have re1: "rearranged s L R t ?t1"
      using inm1 inR b LR by (intro rearranged_swapped) simp_all
    have "my_place t dm T L R m many = Some (t', m + 1, J)"
      unfolding my_place_def by (simp add: rdL vL False ex r(1))
    moreover have "rearranged s L R t t'" by (rule rearranged_trans [OF re1 r(2)])
    ultimately show ?thesis using r(3,4) by blast
  qed
qed

lemma my_tail_spec:
  assumes dm: "0 \<le> dm" "dm \<le> 2"
    and ok: "local_ok t s" and sL: "s \<le> L" and LR: "L \<le> R"
    and Rn: "R < s + int (length (CurrentPtArray t))"
    and entry: "(L = R \<and> many0 \<and> kv t s dm L = T) \<or>
                (L < R \<and> my_inv (swapped t s L R) s dm T L R L R many0)"
  shows "\<exists>t' j J. my_tail t dm T L R many0 = Some (t', j, J) \<and>
           rearranged s L R t t' \<and> j < J \<and> three_way t' s dm T L R j J"
proof -
  have inL: "in_local t s L" and inR: "in_local t s R"
    using sL LR Rn by (simp_all add: in_local_def)
  have pL: "GetLocalVal t L = Some (Ptr (L - s))" by (rule GetLocalVal_in [OF ok inL])
  have pR: "GetLocalVal t R = Some (Ptr (R - s))" by (rule GetLocalVal_in [OF ok inR])
  have "\<exists>t1 m many. loop_my t dm T L (L, R, Ptr (L - s), Ptr (R - s), many0) = Some (t1, m, m, many) \<and>
          rearranged s L R t t1 \<and> my_post t1 s dm T L R m many"
  proof (cases "L = R")
    case True
    with entry have e: "many0" "kv t s dm L = T" by auto
    have "loop_my t dm T L (L, R, Ptr (L - s), Ptr (R - s), many0) = Some (t, L, L, many0)"
      using True by (subst loop_my.simps) simp
    moreover have "my_post t s dm T L R L many0"
      unfolding my_post_def using True e by simp
    ultimately show ?thesis by (metis rearranged_refl)
  next
    case False
    with entry have "my_inv (swapped t s L R) s dm T L R L R many0" by auto
    from loop_my_spec [OF dm ok sL Rn this] show ?thesis .
  qed
  then obtain t1 m many where l:
    "loop_my t dm T L (L, R, Ptr (L - s), Ptr (R - s), many0) = Some (t1, m, m, many)"
    "rearranged s L R t t1" "my_post t1 s dm T L R m many"
    by blast
  have ok1: "local_ok t1 s" using rearranged_local_ok [OF l(2)] ok by simp
  have Rn1: "R < s + int (length (CurrentPtArray t1))" using l(2) Rn by (simp add: rearranged_def)
  from my_place_spec [OF dm ok1 sL Rn1 l(3)]
  obtain t' j J where p: "my_place t1 dm T L R m many = Some (t', j, J)"
    "rearranged s L R t1 t'" "j < J" "three_way t' s dm T L R j J"
    by blast
  have "my_tail t dm T L R many0 = Some (t', j, J)"
    unfolding my_tail_def by (simp add: pL pR l(1) p(1))
  moreover have "rearranged s L R t t'" by (rule rearranged_trans [OF l(2) p(2)])
  ultimately show ?thesis using p(3,4) by blast
qed

lemma PartitionAboutMyValue_spec:
  assumes dm: "0 \<le> dm" "dm \<le> 2"
    and ok: "local_ok t s" and sL: "s \<le> L" and LK: "L \<le> K" and KR: "K \<le> R"
    and Rn: "R < s + int (length (CurrentPtArray t))"
  shows "\<exists>t' I J. PartitionAboutMyValue t L R K dm = Some (t', I, J) \<and>
           rearranged s L R t t' \<and> I < J \<and> three_way t' s dm (kv t s dm K) L R I J"
proof -
  define T where "T = kv t s dm K"
  have LR: "L \<le> R" using LK KR by simp
  have inL: "in_local t s L" and inR: "in_local t s R" and inK: "in_local t s K"
    using sL LK KR Rn by (simp_all add: in_local_def)
  have inl: "in_local t s g" if "L \<le> g" "g \<le> R" for g
    using that sL Rn by (simp add: in_local_def)
  let ?ta = "swapped t s L K"
  have pK: "GetLocalVal t K = Some (Ptr (K - s))" by (rule GetLocalVal_in [OF ok inK])
  have vK: "deref t (Ptr (K - s)) dm = Some T" unfolding T_def by (rule deref_in [OF inK dm])
  have exa: "ExchangeLocalVals t L K = Some ?ta" by (rule ExchangeLocalVals_in [OF ok inL inK])
  have oka: "local_ok ?ta s" using ok by simp
  have inRa: "in_local ?ta s R" and inLa: "in_local ?ta s L" using inR inL by simp_all
  have pRa: "GetLocalVal ?ta R = Some (Ptr (R - s))" by (rule GetLocalVal_in [OF oka inRa])
  define v where "v = kv ?ta s dm R"
  have vRa: "deref ?ta (Ptr (R - s)) dm = Some v" unfolding v_def by (rule deref_in [OF inRa dm])
  have kLa: "kv ?ta s dm L = T"
    using kv_swapped [OF inL inK inL, of dm] by (simp add: T_def)
  have rea: "rearranged s L R t ?ta"
    using inL inK LK KR by (intro rearranged_swapped) simp_all
  have Rna: "R < s + int (length (CurrentPtArray ?ta))" using Rn by simp
  let ?tc = "swapped ?ta s R L"
  have exc: "ExchangeLocalVals ?ta R L = Some ?tc"
    by (rule ExchangeLocalVals_in [OF oka inRa inLa])
  define tb where "tb = (if T < v then ?tc else ?ta)"
  define many0 where "many0 = (v = T)"
  have st: "PartitionAboutMyValue t L R K dm = my_tail tb dm T L R many0"
    unfolding PartitionAboutMyValue_stages
    by (simp add: pK vK exa pRa vRa exc tb_def many0_def)
  have okb: "local_ok tb s" using oka by (simp add: tb_def)
  have Rnb: "R < s + int (length (CurrentPtArray tb))" using Rn by (simp add: tb_def)
  have reb: "rearranged s L R t tb"
  proof (cases "T < v")
    case True
    have "rearranged s L R ?ta ?tc"
      using inRa inLa LR by (intro rearranged_swapped) simp_all
    from rearranged_trans [OF rea this] True show ?thesis by (simp add: tb_def)
  next
    case False
    with rea show ?thesis by (simp add: tb_def)
  qed
  have kb: "kv tb s dm L = (if T < v then v else T)" "kv tb s dm R = (if T < v then T else v)"
    if "L < R"
  proof -
    have "kv ?tc s dm L = v" "kv ?tc s dm R = T"
      using kv_swapped [OF inRa inLa inLa, of dm] kv_swapped [OF inRa inLa inRa, of dm] that kLa
      by (simp_all add: v_def)
    then show "kv tb s dm L = (if T < v then v else T)" "kv tb s dm R = (if T < v then T else v)"
      using kLa by (simp_all add: tb_def v_def)
  qed
  have entry: "(L = R \<and> many0 \<and> kv tb s dm L = T) \<or>
                (L < R \<and> my_inv (swapped tb s L R) s dm T L R L R many0)"
  proof (cases "L = R")
    case True
    then have "v = T" using kLa by (simp add: v_def)
    then show ?thesis using True kLa by (simp add: many0_def tb_def)
  next
    case False
    then have lt: "L < R" using LR by simp
    have inLb: "in_local tb s L" and inRb: "in_local tb s R"
      using inL inR by (simp_all add: tb_def)
    have k': "kv (swapped tb s L R) s dm L = kv tb s dm R"
      "kv (swapped tb s L R) s dm R = kv tb s dm L"
      using kv_swapped [OF inLb inRb inLb, of dm] kv_swapped [OF inLb inRb inRb, of dm] lt
      by simp_all
    have "my_inv (swapped tb s L R) s dm T L R L R many0"
      unfolding my_inv_def k' kb [OF lt] many0_def using lt by auto
    with lt show ?thesis by simp
  qed
  from my_tail_spec [OF dm okb sL LR Rnb entry]
  obtain t' j J where r: "my_tail tb dm T L R many0 = Some (t', j, J)"
    "rearranged s L R tb t'" "j < J" "three_way t' s dm T L R j J"
    by blast
  have "rearranged s L R t t'" by (rule rearranged_trans [OF reb r(2)])
  with st r show ?thesis unfolding T_def by metis
qed

subsection \<open>What the scans of PartitionAboutOtherValue find\<close>

lemma scan_down_other_spec:
  assumes dm: "0 \<le> dm" "dm \<le> 2"
  shows "s \<le> I \<Longrightarrow> I < J \<Longrightarrow> J \<le> s + int (length (CurrentPtArray t)) \<Longrightarrow>
    \<exists>J1 Jpt1 n'. scan_down_other t dm T I (J, Ptr (J - s), n) = Some (J1, Jpt1, n') \<and>
       I \<le> J1 \<and> J1 < J \<and> (\<forall>g. J1 < g \<and> g < J \<longrightarrow> T \<le> kv t s dm g) \<and>
       (I < J1 \<longrightarrow> kv t s dm J1 < T \<and> Jpt1 = Ptr (J1 - s)) \<and>
       n \<le> n' \<and> (n' = n \<longleftrightarrow> (\<forall>g. J1 < g \<and> g < J \<longrightarrow> kv t s dm g \<noteq> T))"
proof (induction "nat (J - I)" arbitrary: J n rule: less_induct)
  case less
  show ?case
  proof (cases "J - 1 > I")
    case False
    then have "J - 1 = I" using less.prems by simp
    with False show ?thesis
      by (subst scan_down_other.simps) (auto simp: Let_def)
  next
    case True
    have il: "in_local t s (J - 1)" using True less.prems by (simp add: in_local_def)
    have rd: "deref t (advance (Ptr (J - s)) (- 1)) dm = Some (kv t s dm (J - 1))"
      using deref_in [OF il dm] by (simp add: algebra_simps)
    let ?v = "kv t s dm (J - 1)"
    show ?thesis
    proof (cases "?v < T")
      case lt: True
      have "scan_down_other t dm T I (J, Ptr (J - s), n) = Some (J - 1, Ptr (J - 1 - s), n)"
        using True lt rd by (subst scan_down_other.simps) (simp add: Let_def algebra_simps)
      with True lt show ?thesis by auto
    next
      case ge: False
      let ?n = "if ?v = T then n + 1 else n"
      have e: "scan_down_other t dm T I (J, Ptr (J - s), n)
               = scan_down_other t dm T I (J - 1, Ptr (J - 1 - s), ?n)"
        using True ge rd by (subst scan_down_other.simps) (simp add: Let_def algebra_simps)
      have m: "nat (J - 1 - I) < nat (J - I)" using True by simp
      have "J - 1 \<le> s + int (length (CurrentPtArray t))" using less.prems(3) by simp
      from less.hyps [OF m less.prems(1) True this, of ?n]
      obtain J1 Jpt1 n' where r:
        "scan_down_other t dm T I (J - 1, Ptr (J - 1 - s), ?n) = Some (J1, Jpt1, n')"
        "I \<le> J1" "J1 < J - 1" "\<forall>g. J1 < g \<and> g < J - 1 \<longrightarrow> T \<le> kv t s dm g"
        "I < J1 \<longrightarrow> kv t s dm J1 < T \<and> Jpt1 = Ptr (J1 - s)"
        "?n \<le> n'" "n' = ?n \<longleftrightarrow> (\<forall>g. J1 < g \<and> g < J - 1 \<longrightarrow> kv t s dm g \<noteq> T)"
        by blast
      have a: "\<forall>g. J1 < g \<and> g < J \<longrightarrow> T \<le> kv t s dm g"
      proof (intro allI impI)
        fix g assume g: "J1 < g \<and> g < J"
        then consider "g < J - 1" | "g = J - 1" by linarith
        then show "T \<le> kv t s dm g" using r(4) g ge by cases auto
      qed
      have c: "n \<le> n'" using r(6) by (simp split: if_splits)
      have b: "n' = n \<longleftrightarrow> (\<forall>g. J1 < g \<and> g < J \<longrightarrow> kv t s dm g \<noteq> T)"
      proof
        assume eq: "n' = n"
        then have vT: "?v \<noteq> T" using r(6) by (auto split: if_splits)
        then have "n' = ?n" using eq by simp
        then have *: "\<forall>g. J1 < g \<and> g < J - 1 \<longrightarrow> kv t s dm g \<noteq> T" using r(7) by blast
        show "\<forall>g. J1 < g \<and> g < J \<longrightarrow> kv t s dm g \<noteq> T"
        proof (intro allI impI)
          fix g assume g: "J1 < g \<and> g < J"
          then consider "g < J - 1" | "g = J - 1" by linarith
          then show "kv t s dm g \<noteq> T" using * g vT by cases auto
        qed
      next
        assume all: "\<forall>g. J1 < g \<and> g < J \<longrightarrow> kv t s dm g \<noteq> T"
        have "?v \<noteq> T" using all r(3) by simp
        moreover have "\<forall>g. J1 < g \<and> g < J - 1 \<longrightarrow> kv t s dm g \<noteq> T" using all by simp
        ultimately show "n' = n" using r(7) by simp
      qed
      have "J1 < J" using r(3) by simp
      show ?thesis
        unfolding e r(1)
        by (rule exI [of _ J1], rule exI [of _ Jpt1], rule exI [of _ n'])
           (intro conjI refl r(2) \<open>J1 < J\<close> a r(5) c b)
    qed
  qed
qed

lemma scan_up_other_spec:
  assumes dm: "0 \<le> dm" "dm \<le> 2"
  shows "s \<le> I \<Longrightarrow> I < J \<Longrightarrow> J \<le> s + int (length (CurrentPtArray t)) \<Longrightarrow>
    \<exists>I1 Ipt1 n'. scan_up_other t dm T J (I, Ptr (I - s), n) = Some (I1, Ipt1, n') \<and>
       I < I1 \<and> I1 \<le> J \<and> (\<forall>g. I < g \<and> g < I1 \<longrightarrow> kv t s dm g < T) \<and>
       (I1 < J \<longrightarrow> T \<le> kv t s dm I1 \<and> Ipt1 = Ptr (I1 - s) \<and>
                   n' = (if kv t s dm I1 = T then n + 1 else n)) \<and>
       (I1 = J \<longrightarrow> n' = n)"
proof (induction "nat (J - I)" arbitrary: I rule: less_induct)
  case less
  show ?case
  proof (cases "I + 1 < J")
    case False
    then have "I + 1 = J" using less.prems by simp
    with False show ?thesis
      by (subst scan_up_other.simps) (auto simp: Let_def)
  next
    case True
    have il: "in_local t s (I + 1)" using True less.prems by (simp add: in_local_def)
    have rd: "deref t (advance (Ptr (I - s)) 1) dm = Some (kv t s dm (I + 1))"
      using deref_in [OF il dm] by (simp add: algebra_simps)
    let ?v = "kv t s dm (I + 1)"
    show ?thesis
    proof (cases "T \<le> ?v")
      case ge: True
      have "scan_up_other t dm T J (I, Ptr (I - s), n)
            = Some (I + 1, Ptr (I + 1 - s), if ?v = T then n + 1 else n)"
        using True ge rd by (subst scan_up_other.simps) (simp add: Let_def algebra_simps)
      with True ge show ?thesis by auto
    next
      case lt: False
      have e: "scan_up_other t dm T J (I, Ptr (I - s), n)
               = scan_up_other t dm T J (I + 1, Ptr (I + 1 - s), n)"
        using True lt rd by (subst scan_up_other.simps) (simp add: Let_def algebra_simps)
      have m: "nat (J - (I + 1)) < nat (J - I)" using True by simp
      have "s \<le> I + 1" using less.prems(1) by simp
      from less.hyps [OF m this True less.prems(3)]
      obtain I1 Ipt1 n' where r:
        "scan_up_other t dm T J (I + 1, Ptr (I + 1 - s), n) = Some (I1, Ipt1, n')"
        "I + 1 < I1" "I1 \<le> J" "\<forall>g. I + 1 < g \<and> g < I1 \<longrightarrow> kv t s dm g < T"
        "I1 < J \<longrightarrow> T \<le> kv t s dm I1 \<and> Ipt1 = Ptr (I1 - s) \<and>
                   n' = (if kv t s dm I1 = T then n + 1 else n)"
        "I1 = J \<longrightarrow> n' = n"
        by blast
      have a: "\<forall>g. I < g \<and> g < I1 \<longrightarrow> kv t s dm g < T"
      proof (intro allI impI)
        fix g assume g: "I < g \<and> g < I1"
        then consider "I + 1 < g" | "g = I + 1" by linarith
        then show "kv t s dm g < T" using r(4) g lt by cases auto
      qed
      have "I < I1" using r(2) by simp
      show ?thesis
        unfolding e r(1)
        by (rule exI [of _ I1], rule exI [of _ Ipt1], rule exI [of _ n'])
           (intro conjI refl \<open>I < I1\<close> r(3) a r(5) r(6))
    qed
  qed
qed

lemma scan_down_count_spec:
  assumes dm: "0 \<le> dm" "dm \<le> 2"
  shows "s \<le> I \<Longrightarrow> I < J \<Longrightarrow> J \<le> s + int (length (CurrentPtArray t)) \<Longrightarrow>
    \<exists>J1 Jpt1 nT' nG'. scan_down_count t dm T I (J, Ptr (J - s), nT, nG) = Some (J1, Jpt1, nT', nG') \<and>
       I \<le> J1 \<and> J1 < J \<and> (\<forall>g. J1 < g \<and> g < J \<longrightarrow> T \<le> kv t s dm g) \<and>
       (I < J1 \<longrightarrow> kv t s dm J1 < T \<and> Jpt1 = Ptr (J1 - s)) \<and>
       nT \<le> nT' \<and> nG \<le> nG' \<and> nT' + nG' = nT + nG + (J - 1 - J1) \<and>
       (nT' = nT \<longleftrightarrow> (\<forall>g. J1 < g \<and> g < J \<longrightarrow> kv t s dm g \<noteq> T)) \<and>
       (nG' = nG \<longleftrightarrow> (\<forall>g. J1 < g \<and> g < J \<longrightarrow> \<not> T < kv t s dm g))"
proof (induction "nat (J - I)" arbitrary: J nT nG rule: less_induct)
  case less
  show ?case
  proof (cases "J - 1 > I")
    case False
    then have "J - 1 = I" using less.prems by simp
    with False show ?thesis
      by (subst scan_down_count.simps) (auto simp: Let_def)
  next
    case True
    have il: "in_local t s (J - 1)" using True less.prems by (simp add: in_local_def)
    have rd: "deref t (advance (Ptr (J - s)) (- 1)) dm = Some (kv t s dm (J - 1))"
      using deref_in [OF il dm] by (simp add: algebra_simps)
    let ?v = "kv t s dm (J - 1)"
    show ?thesis
    proof (cases "?v < T")
      case lt: True
      have "scan_down_count t dm T I (J, Ptr (J - s), nT, nG) = Some (J - 1, Ptr (J - 1 - s), nT, nG)"
        using True lt rd by (subst scan_down_count.simps) (simp add: Let_def algebra_simps)
      with True lt show ?thesis by auto
    next
      case ge: False
      let ?nT = "if ?v = T then nT + 1 else nT"
      let ?nG = "if ?v = T then nG else nG + 1"
      have e: "scan_down_count t dm T I (J, Ptr (J - s), nT, nG)
               = scan_down_count t dm T I (J - 1, Ptr (J - 1 - s), ?nT, ?nG)"
        using True ge rd by (subst scan_down_count.simps) (simp add: Let_def algebra_simps)
      have m: "nat (J - 1 - I) < nat (J - I)" using True by simp
      have "J - 1 \<le> s + int (length (CurrentPtArray t))" using less.prems(3) by simp
      from less.hyps [OF m less.prems(1) True this, of ?nT ?nG]
      obtain J1 Jpt1 nT' nG' where r:
        "scan_down_count t dm T I (J - 1, Ptr (J - 1 - s), ?nT, ?nG) = Some (J1, Jpt1, nT', nG')"
        "I \<le> J1" "J1 < J - 1" "\<forall>g. J1 < g \<and> g < J - 1 \<longrightarrow> T \<le> kv t s dm g"
        "I < J1 \<longrightarrow> kv t s dm J1 < T \<and> Jpt1 = Ptr (J1 - s)"
        "?nT \<le> nT'" "?nG \<le> nG'" "nT' + nG' = ?nT + ?nG + (J - 1 - 1 - J1)"
        "nT' = ?nT \<longleftrightarrow> (\<forall>g. J1 < g \<and> g < J - 1 \<longrightarrow> kv t s dm g \<noteq> T)"
        "nG' = ?nG \<longleftrightarrow> (\<forall>g. J1 < g \<and> g < J - 1 \<longrightarrow> \<not> T < kv t s dm g)"
        by blast
      have a: "\<forall>g. J1 < g \<and> g < J \<longrightarrow> T \<le> kv t s dm g"
      proof (intro allI impI)
        fix g assume g: "J1 < g \<and> g < J"
        then consider "g < J - 1" | "g = J - 1" by linarith
        then show "T \<le> kv t s dm g" using r(4) g ge by cases auto
      qed
      have c1: "nT \<le> nT'" using r(6) by (simp split: if_splits)
      have c2: "nG \<le> nG'" using r(7) by (simp split: if_splits)
      have c3: "nT' + nG' = nT + nG + (J - 1 - J1)" using r(8) by (simp split: if_splits)
      have ext: "(\<forall>g. J1 < g \<and> g < J \<longrightarrow> P g) \<longleftrightarrow> P (J - 1) \<and> (\<forall>g. J1 < g \<and> g < J - 1 \<longrightarrow> P g)"
        for P :: "int \<Rightarrow> bool"
      proof
        assume "\<forall>g. J1 < g \<and> g < J \<longrightarrow> P g"
        then show "P (J - 1) \<and> (\<forall>g. J1 < g \<and> g < J - 1 \<longrightarrow> P g)" using r(3) by simp
      next
        assume h: "P (J - 1) \<and> (\<forall>g. J1 < g \<and> g < J - 1 \<longrightarrow> P g)"
        show "\<forall>g. J1 < g \<and> g < J \<longrightarrow> P g"
        proof (intro allI impI)
          fix g assume g: "J1 < g \<and> g < J"
          then consider "g < J - 1" | "g = J - 1" by linarith
          then show "P g" using h g by cases auto
        qed
      qed
      have b1: "nT' = nT \<longleftrightarrow> (\<forall>g. J1 < g \<and> g < J \<longrightarrow> kv t s dm g \<noteq> T)"
        unfolding ext [of "\<lambda>g. kv t s dm g \<noteq> T"] using r(6) r(9) by (auto split: if_splits)
      have b2: "nG' = nG \<longleftrightarrow> (\<forall>g. J1 < g \<and> g < J \<longrightarrow> \<not> T < kv t s dm g)"
        unfolding ext [of "\<lambda>g. \<not> T < kv t s dm g"] using r(7) r(10) ge by (auto split: if_splits)
      have "J1 < J" using r(3) by simp
      show ?thesis
        unfolding e r(1)
        by (rule exI [of _ J1], rule exI [of _ Jpt1], rule exI [of _ nT'], rule exI [of _ nG'])
           (intro conjI refl r(2) \<open>J1 < J\<close> a r(5) c1 c2 c3 b1 b2)
    qed
  qed
qed

lemma scan_up_count_spec:
  assumes dm: "0 \<le> dm" "dm \<le> 2"
  shows "s \<le> I \<Longrightarrow> I < J \<Longrightarrow> J \<le> s + int (length (CurrentPtArray t)) \<Longrightarrow>
    \<exists>I1 Ipt1 nT' nL'. scan_up_count t dm T J (I, Ptr (I - s), nT, nL) = Some (I1, Ipt1, nT', nL') \<and>
       I < I1 \<and> I1 \<le> J \<and> (\<forall>g. I < g \<and> g < I1 \<longrightarrow> kv t s dm g < T) \<and>
       (I1 < J \<longrightarrow> T \<le> kv t s dm I1 \<and> Ipt1 = Ptr (I1 - s) \<and>
                   nT' = (if kv t s dm I1 = T then nT + 1 else nT)) \<and>
       (I1 = J \<longrightarrow> nT' = nT) \<and> nL' = nL + (I1 - 1 - I)"
proof (induction "nat (J - I)" arbitrary: I nL rule: less_induct)
  case less
  show ?case
  proof (cases "I + 1 < J")
    case False
    then have "I + 1 = J" using less.prems by simp
    with False show ?thesis
      by (subst scan_up_count.simps) (auto simp: Let_def)
  next
    case True
    have il: "in_local t s (I + 1)" using True less.prems by (simp add: in_local_def)
    have rd: "deref t (advance (Ptr (I - s)) 1) dm = Some (kv t s dm (I + 1))"
      using deref_in [OF il dm] by (simp add: algebra_simps)
    let ?v = "kv t s dm (I + 1)"
    show ?thesis
    proof (cases "T \<le> ?v")
      case ge: True
      have "scan_up_count t dm T J (I, Ptr (I - s), nT, nL)
            = Some (I + 1, Ptr (I + 1 - s), if ?v = T then nT + 1 else nT, nL)"
        using True ge rd by (subst scan_up_count.simps) (simp add: Let_def algebra_simps)
      with True ge show ?thesis by auto
    next
      case lt: False
      have e: "scan_up_count t dm T J (I, Ptr (I - s), nT, nL)
               = scan_up_count t dm T J (I + 1, Ptr (I + 1 - s), nT, nL + 1)"
        using True lt rd by (subst scan_up_count.simps) (simp add: Let_def algebra_simps)
      have m: "nat (J - (I + 1)) < nat (J - I)" using True by simp
      have "s \<le> I + 1" using less.prems(1) by simp
      from less.hyps [OF m this True less.prems(3), of "nL + 1"]
      obtain I1 Ipt1 nT' nL' where r:
        "scan_up_count t dm T J (I + 1, Ptr (I + 1 - s), nT, nL + 1) = Some (I1, Ipt1, nT', nL')"
        "I + 1 < I1" "I1 \<le> J" "\<forall>g. I + 1 < g \<and> g < I1 \<longrightarrow> kv t s dm g < T"
        "I1 < J \<longrightarrow> T \<le> kv t s dm I1 \<and> Ipt1 = Ptr (I1 - s) \<and>
                   nT' = (if kv t s dm I1 = T then nT + 1 else nT)"
        "I1 = J \<longrightarrow> nT' = nT" "nL' = nL + 1 + (I1 - 1 - (I + 1))"
        by blast
      have a: "\<forall>g. I < g \<and> g < I1 \<longrightarrow> kv t s dm g < T"
      proof (intro allI impI)
        fix g assume g: "I < g \<and> g < I1"
        then consider "I + 1 < g" | "g = I + 1" by linarith
        then show "kv t s dm g < T" using r(4) g lt by cases auto
      qed
      have "I < I1" using r(2) by simp
      have c: "nL' = nL + (I1 - 1 - I)" using r(7) by simp
      show ?thesis
        unfolding e r(1)
        by (rule exI [of _ I1], rule exI [of _ Ipt1], rule exI [of _ nT'], rule exI [of _ nL'])
           (intro conjI refl \<open>I < I1\<close> r(3) a r(5) r(6) c)
    qed
  qed
qed

subsection \<open>The exchange loop of PartitionAboutOtherValue\<close>

text \<open>
  \<open>other_inv\<close> holds at the head of the loop while \<open>I < J\<close>: the value at \<open>I\<close> is at least
  \<open>T\<close>, the value at \<open>J\<close> is below it, everything left of \<open>I\<close> is below \<open>T\<close>, everything
  right of \<open>J\<close> is at least \<open>T\<close>, and \<open>numTValues\<close> is zero exactly when no value outside
  the open interval from \<open>I\<close> to \<open>J\<close> equals \<open>T\<close>.
\<close>

definition other_inv ::
  "PKdTree \<Rightarrow> int \<Rightarrow> int \<Rightarrow> real \<Rightarrow> int \<Rightarrow> int \<Rightarrow> int \<Rightarrow> int \<Rightarrow> int \<Rightarrow> bool" where
  "other_inv t s dm T L R I J n \<longleftrightarrow>
     s \<le> L \<and> L \<le> I \<and> I < J \<and> J \<le> R \<and> T \<le> kv t s dm I \<and> kv t s dm J < T \<and>
     (\<forall>g. L \<le> g \<and> g < I \<longrightarrow> kv t s dm g < T) \<and>
     (\<forall>g. J < g \<and> g \<le> R \<longrightarrow> T \<le> kv t s dm g) \<and>
     0 \<le> n \<and>
     (n = 0 \<longleftrightarrow> kv t s dm I \<noteq> T \<and> (\<forall>g. J < g \<and> g \<le> R \<longrightarrow> kv t s dm g \<noteq> T))"

definition other_post ::
  "PKdTree \<Rightarrow> int \<Rightarrow> int \<Rightarrow> real \<Rightarrow> int \<Rightarrow> int \<Rightarrow> int \<Rightarrow> int \<Rightarrow> bool" where
  "other_post t s dm T L R m n \<longleftrightarrow>
     L \<le> m \<and> m \<le> R + 1 \<and>
     (\<forall>g. L \<le> g \<and> g < m \<longrightarrow> kv t s dm g < T) \<and>
     (\<forall>g. m \<le> g \<and> g \<le> R \<longrightarrow> T \<le> kv t s dm g) \<and>
     (n = 0 \<longleftrightarrow> (\<forall>g. m \<le> g \<and> g \<le> R \<longrightarrow> kv t s dm g \<noteq> T))"

lemma loop_other_spec:
  assumes dm: "0 \<le> dm" "dm \<le> 2"
  shows "local_ok t s \<Longrightarrow> R < s + int (length (CurrentPtArray t)) \<Longrightarrow>
    other_inv t s dm T L R I J n \<Longrightarrow>
    \<exists>t' m n'. loop_other t dm T (I, J, Ptr (I - s), Ptr (J - s), n) = Some (t', m, m, n') \<and>
       rearranged s L R t t' \<and> other_post t' s dm T L R m n'"
proof (induction "nat (J - I)" arbitrary: t I J n rule: less_induct)
  case less
  note ok = less.prems(1) and Rn = less.prems(2) and inv = less.prems(3)
  from inv have b: "s \<le> L" "L \<le> I" "I < J" "J \<le> R"
    and kI: "T \<le> kv t s dm I" and kJ: "kv t s dm J < T"
    and lo: "\<And>g. L \<le> g \<Longrightarrow> g < I \<Longrightarrow> kv t s dm g < T"
    and hi: "\<And>g. J < g \<Longrightarrow> g \<le> R \<Longrightarrow> T \<le> kv t s dm g"
    and n0: "0 \<le> n"
    and nT: "n = 0 \<longleftrightarrow> kv t s dm I \<noteq> T \<and> (\<forall>g. J < g \<and> g \<le> R \<longrightarrow> kv t s dm g \<noteq> T)"
    by (simp_all add: other_inv_def)
  let ?t1 = "swapped t s I J"
  have inI: "in_local t s I" and inJ: "in_local t s J"
    using b Rn by (simp_all add: in_local_def)
  have ex: "ExchangeLocalVals t I J = Some ?t1"
    by (rule ExchangeLocalVals_in [OF ok inI inJ])
  have sw: "kv ?t1 s dm g =
             (if g = J then kv t s dm I else if g = I then kv t s dm J else kv t s dm g)"
    if "L \<le> g" "g \<le> R" for g
  proof -
    have "in_local t s g" using that b Rn by (simp add: in_local_def)
    from kv_swapped [OF inI inJ this] show ?thesis .
  qed
  have ok1: "local_ok ?t1 s" using ok by simp
  have R1: "R < s + int (length (CurrentPtArray ?t1))" using Rn by simp
  have re1: "rearranged s L R t ?t1"
    using inI inJ b by (intro rearranged_swapped) simp_all
  have sI: "s \<le> I" using b by simp
  have Jlen: "J \<le> s + int (length (CurrentPtArray ?t1))" using b Rn by simp
  from scan_up_other_spec [OF dm sI b(3) Jlen, of T n]
  obtain I1 Ipt1 n1 where u:
    "scan_up_other ?t1 dm T J (I, Ptr (I - s), n) = Some (I1, Ipt1, n1)" "I < I1" "I1 \<le> J"
    and u4: "\<And>g. I < g \<Longrightarrow> g < I1 \<Longrightarrow> kv ?t1 s dm g < T"
    and u5: "I1 < J \<Longrightarrow> T \<le> kv ?t1 s dm I1 \<and> Ipt1 = Ptr (I1 - s) \<and>
                   n1 = (if kv ?t1 s dm I1 = T then n + 1 else n)"
    and u6: "I1 = J \<Longrightarrow> n1 = n"
    by blast
  have A1: "kv ?t1 s dm g < T" if "L \<le> g" "g < I1" for g
  proof -
    have gR: "g \<le> R" using that u(3) b by simp
    consider "g < I" | "g = I" | "I < g" by linarith
    then show ?thesis
    proof cases
      case 1
      then show ?thesis using sw [OF that(1) gR] lo [OF that(1) 1] b by simp
    next
      case 2
      then show ?thesis using sw [OF that(1) gR] kJ b by simp
    next
      case 3
      then show ?thesis using u4 that by simp
    qed
  qed
  have A2: "T \<le> kv ?t1 s dm g" if "J \<le> g" "g \<le> R" for g
  proof -
    note gg = that
    have gL: "L \<le> g" using that b by simp
    consider "g = J" | "J < g" using gg by linarith
    then show ?thesis
    proof cases
      case 1
      then show ?thesis using sw [OF gL that(2)] kI by simp
    next
      case 2
      then show ?thesis using sw [OF gL that(2)] hi [OF 2 that(2)] b by simp
    qed
  qed
  have A3: "n = 0 \<longleftrightarrow> (\<forall>g. J \<le> g \<and> g \<le> R \<longrightarrow> kv ?t1 s dm g \<noteq> T)"
  proof
    assume "n = 0"
    with nT have c: "kv t s dm I \<noteq> T" "\<And>g. J < g \<Longrightarrow> g \<le> R \<Longrightarrow> kv t s dm g \<noteq> T" by simp_all
    show "\<forall>g. J \<le> g \<and> g \<le> R \<longrightarrow> kv ?t1 s dm g \<noteq> T"
    proof (intro allI impI)
      fix g assume g: "J \<le> g \<and> g \<le> R"
      then have gL: "L \<le> g" and gR: "g \<le> R" using b by simp_all
      consider "g = J" | "J < g" using g by linarith
      then show "kv ?t1 s dm g \<noteq> T"
      proof cases
        case 1
        then show ?thesis using sw [OF gL gR] c(1) by simp
      next
        case 2
        then show ?thesis using sw [OF gL gR] c(2) [OF 2 gR] b by simp
      qed
    qed
  next
    assume a: "\<forall>g. J \<le> g \<and> g \<le> R \<longrightarrow> kv ?t1 s dm g \<noteq> T"
    have "L \<le> J" using b by simp
    from a b(4) have "kv ?t1 s dm J \<noteq> T" by simp
    with sw [OF \<open>L \<le> J\<close> b(4)] have c1: "kv t s dm I \<noteq> T" by simp
    have "\<forall>g. J < g \<and> g \<le> R \<longrightarrow> kv t s dm g \<noteq> T"
    proof (intro allI impI)
      fix g assume g: "J < g \<and> g \<le> R"
      then have gL: "L \<le> g" and gR: "g \<le> R" using b by simp_all
      from a g have "kv ?t1 s dm g \<noteq> T" by simp
      with sw [OF gL gR] g b show "kv t s dm g \<noteq> T" by simp
    qed
    with c1 nT show "n = 0" by simp
  qed
  show ?case
  proof (cases "I1 = J")
    case True
    have r: "loop_other t dm T (I, J, Ptr (I - s), Ptr (J - s), n) = Some (?t1, J, J, n)"
      using u6 [OF True] by (subst loop_other.simps) (simp add: b(3) ex u(1) True)
    have "other_post ?t1 s dm T L R J n"
      unfolding other_post_def
    proof (intro conjI allI impI)
      show "L \<le> J" using b by simp
      show "J \<le> R + 1" using b by simp
      show "n = 0 \<longleftrightarrow> (\<forall>g. J \<le> g \<and> g \<le> R \<longrightarrow> kv ?t1 s dm g \<noteq> T)" by (rule A3)
    next
      fix g assume "L \<le> g \<and> g < J"
      then show "kv ?t1 s dm g < T" using A1 True by simp
    next
      fix g assume "J \<le> g \<and> g \<le> R"
      then show "T \<le> kv ?t1 s dm g" using A2 by simp
    qed
    with r re1 show ?thesis by blast
  next
    case False
    then have I1J: "I1 < J" using u(3) by simp
    from u5 [OF I1J] have kI1: "T \<le> kv ?t1 s dm I1" and Ipt1: "Ipt1 = Ptr (I1 - s)"
      and n1: "n1 = (if kv ?t1 s dm I1 = T then n + 1 else n)" by simp_all
    have sI1: "s \<le> I1" using sI u(2) by simp
    from scan_down_other_spec [OF dm sI1 I1J Jlen, of T n1]
    obtain J1 Jpt1 n2 where d:
      "scan_down_other ?t1 dm T I1 (J, Ptr (J - s), n1) = Some (J1, Jpt1, n2)" "I1 \<le> J1" "J1 < J"
      and d4: "\<And>g. J1 < g \<Longrightarrow> g < J \<Longrightarrow> T \<le> kv ?t1 s dm g"
      and d5: "I1 < J1 \<Longrightarrow> kv ?t1 s dm J1 < T \<and> Jpt1 = Ptr (J1 - s)"
      and d6: "n1 \<le> n2"
      and d7: "n2 = n1 \<longleftrightarrow> (\<forall>g. J1 < g \<and> g < J \<longrightarrow> kv ?t1 s dm g \<noteq> T)"
      by blast
    have n10: "0 \<le> n1" "n \<le> n1" using n0 n1 by (simp_all split: if_splits)
    have B2: "T \<le> kv ?t1 s dm g" if "J1 < g" "g \<le> R" for g
    proof -
      consider "g < J" | "J \<le> g" by linarith
      then show ?thesis using d4 that A2 by cases auto
    qed
    have B3: "n2 = 0 \<longleftrightarrow> kv ?t1 s dm I1 \<noteq> T \<and> (\<forall>g. J1 < g \<and> g \<le> R \<longrightarrow> kv ?t1 s dm g \<noteq> T)"
    proof
      assume z: "n2 = 0"
      then have "n1 = 0" using d6 n10 by simp
      then have z1: "n = 0" "kv ?t1 s dm I1 \<noteq> T" using n1 n0 by (auto split: if_splits)
      have "n2 = n1" using z \<open>n1 = 0\<close> by simp
      then have z2: "\<And>g. J1 < g \<Longrightarrow> g < J \<Longrightarrow> kv ?t1 s dm g \<noteq> T" using d7 by blast
      from z1(1) A3 have z3: "\<And>g. J \<le> g \<Longrightarrow> g \<le> R \<Longrightarrow> kv ?t1 s dm g \<noteq> T" by blast
      have "\<forall>g. J1 < g \<and> g \<le> R \<longrightarrow> kv ?t1 s dm g \<noteq> T"
      proof (intro allI impI)
        fix g assume g: "J1 < g \<and> g \<le> R"
        consider "g < J" | "J \<le> g" by linarith
        then show "kv ?t1 s dm g \<noteq> T" using z2 z3 g by cases auto
      qed
      with z1(2) show "kv ?t1 s dm I1 \<noteq> T \<and> (\<forall>g. J1 < g \<and> g \<le> R \<longrightarrow> kv ?t1 s dm g \<noteq> T)"
        by simp
    next
      assume a: "kv ?t1 s dm I1 \<noteq> T \<and> (\<forall>g. J1 < g \<and> g \<le> R \<longrightarrow> kv ?t1 s dm g \<noteq> T)"
      then have e1: "n1 = n" using n1 by simp
      have "\<forall>g. J1 < g \<and> g < J \<longrightarrow> kv ?t1 s dm g \<noteq> T" using a b(4) by simp
      then have e2: "n2 = n1" using d7 by simp
      have "\<forall>g. J \<le> g \<and> g \<le> R \<longrightarrow> kv ?t1 s dm g \<noteq> T" using a d(3) by simp
      then have "n = 0" using A3 by simp
      with e1 e2 show "n2 = 0" by simp
    qed
    have unf: "loop_other t dm T (I, J, Ptr (I - s), Ptr (J - s), n)
               = loop_other ?t1 dm T (I1, J1, Ipt1, Jpt1, n2)"
      by (subst loop_other.simps) (simp add: b(3) ex u(1) False d(1))
    show ?thesis
    proof (cases "I1 = J1")
      case True
      have r: "loop_other t dm T (I, J, Ptr (I - s), Ptr (J - s), n) = Some (?t1, I1, I1, n2)"
        unfolding unf using True by (simp add: loop_other.simps)
      have "other_post ?t1 s dm T L R I1 n2"
        unfolding other_post_def
      proof (intro conjI allI impI)
        show "L \<le> I1" using b u(2) by simp
        show "I1 \<le> R + 1" using I1J b by simp
      next
        fix g assume "L \<le> g \<and> g < I1"
        then show "kv ?t1 s dm g < T" using A1 by simp
      next
        fix g assume g: "I1 \<le> g \<and> g \<le> R"
        then consider "g = I1" | "J1 < g" using True by linarith
        then show "T \<le> kv ?t1 s dm g" using kI1 B2 g by cases auto
      next
        show "n2 = 0 \<longleftrightarrow> (\<forall>g. I1 \<le> g \<and> g \<le> R \<longrightarrow> kv ?t1 s dm g \<noteq> T)"
        proof
          assume "n2 = 0"
          with B3 have c: "kv ?t1 s dm I1 \<noteq> T" "\<And>g. J1 < g \<Longrightarrow> g \<le> R \<Longrightarrow> kv ?t1 s dm g \<noteq> T"
            by simp_all
          show "\<forall>g. I1 \<le> g \<and> g \<le> R \<longrightarrow> kv ?t1 s dm g \<noteq> T"
          proof (intro allI impI)
            fix g assume g: "I1 \<le> g \<and> g \<le> R"
            then consider "g = I1" | "J1 < g" using True by linarith
            then show "kv ?t1 s dm g \<noteq> T" using c g by cases auto
          qed
        next
          assume a: "\<forall>g. I1 \<le> g \<and> g \<le> R \<longrightarrow> kv ?t1 s dm g \<noteq> T"
          have "I1 \<le> R" using I1J b by simp
          with a have "kv ?t1 s dm I1 \<noteq> T" by simp
          moreover have "\<forall>g. J1 < g \<and> g \<le> R \<longrightarrow> kv ?t1 s dm g \<noteq> T" using a d(2) by simp
          ultimately show "n2 = 0" using B3 by simp
        qed
      qed
      with r re1 show ?thesis by blast
    next
      case False
      then have I1J1: "I1 < J1" using d(2) by simp
      from d5 [OF I1J1] have kJ1: "kv ?t1 s dm J1 < T" and Jpt1: "Jpt1 = Ptr (J1 - s)" by simp_all
      have inv1: "other_inv ?t1 s dm T L R I1 J1 n2"
        unfolding other_inv_def
      proof (intro conjI allI impI)
        show "s \<le> L" by (rule b(1))
        show "L \<le> I1" using b u(2) by simp
        show "I1 < J1" by (rule I1J1)
        show "J1 \<le> R" using d(3) b by simp
        show "T \<le> kv ?t1 s dm I1" by (rule kI1)
        show "kv ?t1 s dm J1 < T" by (rule kJ1)
        show "0 \<le> n2" using d6 n10 by simp
        show "n2 = 0 \<longleftrightarrow> kv ?t1 s dm I1 \<noteq> T \<and> (\<forall>g. J1 < g \<and> g \<le> R \<longrightarrow> kv ?t1 s dm g \<noteq> T)"
          by (rule B3)
      next
        fix g assume "L \<le> g \<and> g < I1"
        then show "kv ?t1 s dm g < T" using A1 by simp
      next
        fix g assume "J1 < g \<and> g \<le> R"
        then show "T \<le> kv ?t1 s dm g" using B2 by simp
      qed
      have m: "nat (J1 - I1) < nat (J - I)" using u(2) d(3) I1J1 by linarith
      from less.hyps [OF m ok1 R1 inv1]
      obtain t' m' n' where f:
        "loop_other ?t1 dm T (I1, J1, Ptr (I1 - s), Ptr (J1 - s), n2) = Some (t', m', m', n')"
        "rearranged s L R ?t1 t'" "other_post t' s dm T L R m' n'"
        by blast
      have "rearranged s L R t t'" by (rule rearranged_trans [OF re1 f(2)])
      with f(1,3) show ?thesis unfolding unf Ipt1 Jpt1 by blast
    qed
  qed
qed

subsection \<open>The points of a range as a list\<close>

definition slice :: "PKdTree \<Rightarrow> int \<Rightarrow> int \<Rightarrow> int \<Rightarrow> point list" where
  "slice t s L R = take (nat (R - L + 1)) (drop (nat (L - s)) (CurrentPtArray t))"

lemma rearranged_slice:
  assumes re: "rearranged s L R t t'" and sL: "s \<le> L" and LR: "L \<le> R + 1"
    and Rn: "R < s + int (length (CurrentPtArray t))"
  shows "mset (slice t' s L R) = mset (slice t s L R)"
proof -
  define xs where "xs = CurrentPtArray t"
  define ys where "ys = CurrentPtArray t'"
  define a where "a = nat (L - s)"
  define k where "k = nat (R - L + 1)"
  from re have len: "length ys = length xs" and ms: "mset ys = mset xs"
    by (simp_all add: rearranged_def xs_def ys_def)
  from re have "\<forall>i < length xs. s + int i < L \<or> R < s + int i \<longrightarrow> ys ! i = xs ! i"
    unfolding rearranged_def xs_def ys_def by blast
  then have out: "\<And>i. i < length xs \<Longrightarrow> s + int i < L \<or> R < s + int i \<Longrightarrow> ys ! i = xs ! i"
    by blast
  have ak: "a + k \<le> length xs" using sL LR Rn by (simp add: a_def k_def xs_def)
  have pre: "take a ys = take a xs"
  proof (rule nth_take_lemma)
    show "a \<le> length ys" "a \<le> length xs" using ak len by simp_all
    show "i < a \<longrightarrow> ys ! i = xs ! i" for i
    proof
      assume i: "i < a"
      then have "i < length xs" "s + int i < L" using ak sL by (simp_all add: a_def)
      then show "ys ! i = xs ! i" using out by simp
    qed
  qed
  have post: "drop (a + k) ys = drop (a + k) xs"
  proof (rule nth_equalityI)
    show "length (drop (a + k) ys) = length (drop (a + k) xs)" using len by simp
    fix i assume "i < length (drop (a + k) ys)"
    then have i: "a + k + i < length xs" using len by simp
    have "R < s + int (a + k + i)" using sL LR by (simp add: a_def k_def)
    with i out have "ys ! (a + k + i) = xs ! (a + k + i)" by simp
    then show "drop (a + k) ys ! i = drop (a + k) xs ! i" using i len by simp
  qed
  have split: "zs = take a zs @ take k (drop a zs) @ drop (a + k) zs" for zs :: "point list"
  proof -
    have "drop a zs = take k (drop a zs) @ drop k (drop a zs)"
      by (rule append_take_drop_id [symmetric])
    also have "drop k (drop a zs) = drop (a + k) zs" by (simp add: add.commute)
    finally have "take a zs @ drop a zs = take a zs @ take k (drop a zs) @ drop (a + k) zs"
      by simp
    then show ?thesis by simp
  qed
  have "mset xs = mset (take a xs) + mset (take k (drop a xs)) + mset (drop (a + k) xs)"
    by (subst split [of xs]) simp
  moreover have "mset ys = mset (take a ys) + mset (take k (drop a ys)) + mset (drop (a + k) ys)"
    by (subst split [of ys]) simp
  ultimately have "mset (take k (drop a ys)) = mset (take k (drop a xs))"
    using ms pre post by simp
  then show ?thesis by (simp add: slice_def xs_def ys_def a_def k_def)
qed

lemma slice_nth:
  assumes "s \<le> L" "L \<le> g" "g \<le> R" "R < s + int (length (CurrentPtArray t))"
  shows "slice t s L R ! nat (g - L) = CurrentPtArray t ! nat (g - s)"
proof -
  have "nat (g - L) < nat (R - L + 1)" using assms by simp
  moreover have "nat (L - s) + nat (g - L) = nat (g - s)" using assms by simp
  moreover have "nat (L - s) + nat (g - L) < length (CurrentPtArray t)" using assms by simp
  ultimately show ?thesis by (simp add: slice_def)
qed

lemma length_slice:
  assumes "s \<le> L" "L \<le> R + 1" "R < s + int (length (CurrentPtArray t))"
  shows "length (slice t s L R) = nat (R - L + 1)"
  using assms by (simp add: slice_def)

lemma rearranged_key_present:
  assumes re: "rearranged s L R t t'" and sL: "s \<le> L"
    and Rn: "R < s + int (length (CurrentPtArray t))" and g: "L \<le> g" "g \<le> R"
  shows "\<exists>h. L \<le> h \<and> h \<le> R \<and> kv t s dm h = kv t' s dm g"
proof -
  have LR: "L \<le> R + 1" using g by simp
  have Rn': "R < s + int (length (CurrentPtArray t'))" using re Rn by (simp add: rearranged_def)
  have l': "length (slice t' s L R) = nat (R - L + 1)" by (rule length_slice [OF sL LR Rn'])
  have l: "length (slice t s L R) = nat (R - L + 1)" by (rule length_slice [OF sL LR Rn])
  have "nat (g - L) < length (slice t' s L R)" using g l' by simp
  then have "slice t' s L R ! nat (g - L) \<in> set (slice t' s L R)" by (rule nth_mem)
  also have "set (slice t' s L R) = set (slice t s L R)"
    using rearranged_slice [OF re sL LR Rn] by (rule mset_eq_setD)
  finally obtain j where j: "j < length (slice t s L R)"
    "slice t s L R ! j = slice t' s L R ! nat (g - L)"
    by (auto simp: in_set_conv_nth)
  let ?h = "L + int j"
  have h: "L \<le> ?h" "?h \<le> R" using j(1) l by simp_all
  have "slice t s L R ! nat (?h - L) = CurrentPtArray t ! nat (?h - s)"
    by (rule slice_nth [OF sL h Rn])
  moreover have "slice t' s L R ! nat (g - L) = CurrentPtArray t' ! nat (g - s)"
    by (rule slice_nth [OF sL g Rn'])
  ultimately have "CurrentPtArray t ! nat (?h - s) = CurrentPtArray t' ! nat (g - s)"
    using j(2) by simp
  then have "kv t s dm ?h = kv t' s dm g" by (simp add: kv_def)
  with h show ?thesis by blast
qed

subsection \<open>PartitionAboutOtherValue as a whole\<close>

text \<open>The part of the function after its exchange loop.\<close>

definition other_finish ::
  "PKdTree \<Rightarrow> int \<Rightarrow> real \<Rightarrow> int \<Rightarrow> int \<Rightarrow> int \<Rightarrow> (PKdTree \<times> int \<times> int) option" where
  "other_finish t dm T R I numTValues =
     (if numTValues = 0 then Some (t, I, I)
      else do {
        Ipt \<leftarrow> GetLocalVal t I;
        Jpt \<leftarrow> GetLocalVal t R;
        (t, I', J') \<leftarrow> gather_Ts t dm T (I - 1, R + 1, advance Ipt (- 1), advance Jpt 1);
        Some (t, I, I')
      })"

lemma other_finish_spec:
  assumes dm: "0 \<le> dm" "dm \<le> 2"
    and ok: "local_ok t s" and sL: "s \<le> L" and Rn: "R < s + int (length (CurrentPtArray t))"
    and post: "other_post t s dm T L R m n"
  shows "\<exists>t' J. other_finish t dm T R m n = Some (t', m, J) \<and>
           rearranged s L R t t' \<and> three_way t' s dm T L R m J"
proof -
  from post have b: "L \<le> m" "m \<le> R + 1"
    and lo: "\<And>g. L \<le> g \<Longrightarrow> g < m \<Longrightarrow> kv t s dm g < T"
    and hi: "\<And>g. m \<le> g \<Longrightarrow> g \<le> R \<Longrightarrow> T \<le> kv t s dm g"
    and nT: "n = 0 \<longleftrightarrow> (\<forall>g. m \<le> g \<and> g \<le> R \<longrightarrow> kv t s dm g \<noteq> T)"
    by (simp_all add: other_post_def)
  show ?thesis
  proof (cases "n = 0")
    case True
    with nT have ne: "\<And>g. m \<le> g \<Longrightarrow> g \<le> R \<Longrightarrow> kv t s dm g \<noteq> T" by simp
    have "\<forall>g. m \<le> g \<and> g \<le> R \<longrightarrow> T < kv t s dm g"
    proof (intro allI impI)
      fix g assume g: "m \<le> g \<and> g \<le> R"
      then have "m \<le> g" "g \<le> R" by simp_all
      from hi [OF this] ne [OF this] show "T < kv t s dm g" by simp
    qed
    then have "three_way t s dm T L R m m"
      unfolding three_way_def using b lo by simp
    with True show ?thesis by (simp add: other_finish_def)
  next
    case False
    with nT obtain g0 where g0: "m \<le> g0" "g0 \<le> R" by blast
    then have mR: "m \<le> R" by simp
    have inm: "in_local t s m" and inR: "in_local t s R"
      using b mR sL Rn by (simp_all add: in_local_def)
    have gi: "gather_inv t s dm T m R (m - 1) (R + 1)"
      unfolding gather_inv_def using mR hi by simp
    have sm: "s \<le> m" using sL b by simp
    from gather_Ts_spec [OF dm ok sm Rn gi]
    obtain t' I' J' where f:
      "gather_Ts t dm T (m - 1, R + 1, Ptr (m - 1 - s), Ptr (R + 1 - s)) = Some (t', I', J')"
      "rearranged s m R t t'" "gathered t' s dm T m R I'"
      by blast
    have e: "other_finish t dm T R m n = Some (t', m, I')"
      using False f(1)
      by (simp add: other_finish_def GetLocalVal_in [OF ok inm] GetLocalVal_in [OF ok inR]
            algebra_simps)
    have re: "rearranged s L R t t'" using rearranged_mono [OF f(2) b(1)] by simp
    from f(3) have c: "m \<le> I'" "I' \<le> R + 1"
      and c1: "\<And>g. m \<le> g \<Longrightarrow> g < I' \<Longrightarrow> kv t' s dm g = T"
      and c2: "\<And>g. I' \<le> g \<Longrightarrow> g \<le> R \<Longrightarrow> T < kv t' s dm g"
      by (simp_all add: gathered_def)
    have "kv t' s dm g < T" if "L \<le> g" "g < m" for g
    proof -
      have "in_local t s g" using that sL mR Rn by (simp add: in_local_def)
      from rearranged_kv_outside [OF f(2) this] that(2) lo [OF that] show ?thesis by simp
    qed
    then have "three_way t' s dm T L R m I'"
      unfolding three_way_def using b c c1 c2 by simp
    with e re show ?thesis by blast
  qed
qed

text \<open>
  What \<open>other_ends\<close> hands to the rest of the function: either one of the three special
  cases holds as its counter says, or the exchange loop can start, or there is nothing
  left for the loop to do.
\<close>

definition other_ready ::
  "PKdTree \<Rightarrow> int \<Rightarrow> int \<Rightarrow> real \<Rightarrow> int \<Rightarrow> int \<Rightarrow> int \<times> int \<times> ptr \<times> ptr \<Rightarrow> int \<Rightarrow> bool" where
  "other_ready t s dm T L R ij n = (case ij of (I, J, Ipt, Jpt) \<Rightarrow>
     (other_inv t s dm T L R I J n \<and> Ipt = Ptr (I - s) \<and> Jpt = Ptr (J - s)) \<or>
     (J \<le> I \<and> other_post t s dm T L R I n))"

definition ends_ok ::
  "PKdTree \<Rightarrow> int \<Rightarrow> int \<Rightarrow> real \<Rightarrow> int \<Rightarrow> int \<Rightarrow> int \<times> int \<times> ptr \<times> ptr \<Rightarrow> int \<times> int \<times> int
     \<Rightarrow> bool" where
  "ends_ok t s dm T L R ij c = (case c of (numTValues, numGreater, numLess) \<Rightarrow>
     if numLess = R - L + 1 then (\<forall>g. L \<le> g \<and> g \<le> R \<longrightarrow> kv t s dm g < T)
     else if numTValues = R - L + 1 then (\<forall>g. L \<le> g \<and> g \<le> R \<longrightarrow> kv t s dm g = T)
     else if numGreater = R - L + 1 then (\<forall>g. L \<le> g \<and> g \<le> R \<longrightarrow> T < kv t s dm g)
     else other_ready t s dm T L R ij numTValues)"

lemma other_ends_unfold:
  assumes dm: "0 \<le> dm" "dm \<le> 2"
    and ok: "local_ok t s" and inL: "in_local t s L" and inR: "in_local t s R"
  shows "other_ends t L R T dm =
    (case tally (kv t s dm R) T (tally (kv t s dm L) T (0, 0, 0)) of
       (numTValues, numGreater, numLess) \<Rightarrow>
       if kv t s dm L \<ge> T \<and> kv t s dm R \<ge> T then
         map_option (\<lambda>(J, Jpt, numTValues, numGreater).
                       (t, (L, J, Ptr (L - s), Jpt), (numTValues, numGreater, numLess)))
           (scan_down_count t dm T L (R, Ptr (R - s), numTValues, numGreater))
       else if kv t s dm L < T \<and> kv t s dm R < T then
         map_option (\<lambda>(I, Ipt, numTValues, numLess).
                       (t, (I, R, Ipt, Ptr (R - s)), (numTValues, numGreater, numLess)))
           (scan_up_count t dm T R (L, Ptr (L - s), numTValues, numLess))
       else if kv t s dm L < T \<and> kv t s dm R \<ge> T then
         map_option (\<lambda>u. (u, (L, R, Ptr (L - s), Ptr (R - s)), (numTValues, numGreater, numLess)))
           (ExchangeLocalVals t L R)
       else Some (t, (L, R, Ptr (L - s), Ptr (R - s)), (numTValues, numGreater, numLess)))"
proof -
  obtain a b c where tl: "tally (kv t s dm R) T (tally (kv t s dm L) T (0, 0, 0)) = (a, b, c)"
    by (cases "tally (kv t s dm R) T (tally (kv t s dm L) T (0, 0, 0))")
  show ?thesis
    unfolding other_ends_def
    by (simp add: GetLocalVal_in [OF ok inL] GetLocalVal_in [OF ok inR]
          deref_in [OF inL dm] deref_in [OF inR dm] tl)
qed

subsection \<open>The set-up of PartitionAboutOtherValue\<close>

lemma ends_high:
  assumes dm: "0 \<le> dm" "dm \<le> 2"
    and ok: "local_ok t s" and sL: "s \<le> L" and LR: "L \<le> R"
    and Rn: "R < s + int (length (CurrentPtArray t))"
    and kL: "T \<le> kv t s dm L" and kR: "T \<le> kv t s dm R"
  shows "\<exists>ij c. other_ends t L R T dm = Some (t, ij, c) \<and> ends_ok t s dm T L R ij c"
proof -
  have inL: "in_local t s L" and inR: "in_local t s R"
    using sL LR Rn by (simp_all add: in_local_def)
  define nT0 :: int where
    "nT0 = (if kv t s dm L = T then 1 else 0) + (if kv t s dm R = T then 1 else 0)"
  define nG0 :: int where
    "nG0 = (if T < kv t s dm L then 1 else 0) + (if T < kv t s dm R then 1 else 0)"
  have tl: "tally (kv t s dm R) T (tally (kv t s dm L) T (0, 0, 0)) = (nT0, nG0, 0)"
    using kL kR by (auto simp: tally_def nT0_def nG0_def)
  have s0: "nT0 + nG0 = 2" "0 \<le> nT0" "0 \<le> nG0"
    using kL kR by (auto simp: nT0_def nG0_def)
  have zT: "nT0 = 0 \<longleftrightarrow> kv t s dm L \<noteq> T \<and> kv t s dm R \<noteq> T"
    by (auto simp: nT0_def)
  have zG: "nG0 = 0 \<longleftrightarrow> kv t s dm L = T \<and> kv t s dm R = T"
    using kL kR by (auto simp: nG0_def)
  have e: "other_ends t L R T dm =
     map_option (\<lambda>(J, Jpt, numTValues, numGreater).
                       (t, (L, J, Ptr (L - s), Jpt), (numTValues, numGreater, 0)))
           (scan_down_count t dm T L (R, Ptr (R - s), nT0, nG0))"
    unfolding other_ends_unfold [OF dm ok inL inR] tl using kL kR by simp
  show ?thesis
  proof (cases "L = R")
    case True
    have sc: "scan_down_count t dm T L (R, Ptr (R - s), nT0, nG0)
              = Some (R - 1, Ptr (R - s), nT0, nG0)"
      using True by (subst scan_down_count.simps) (simp add: Let_def)
    have v: "nT0 \<noteq> 1" "nG0 \<noteq> 1" using True by (auto simp: nT0_def nG0_def)
    have "other_post t s dm T L R L nT0"
      unfolding other_post_def
    proof (intro conjI allI impI)
      show "L \<le> L" by simp
      show "L \<le> R + 1" using LR by simp
    next
      fix g assume "L \<le> g \<and> g < L"
      then show "kv t s dm g < T" by simp
    next
      fix g assume "L \<le> g \<and> g \<le> R"
      then have "g = L" using True by simp
      then show "T \<le> kv t s dm g" using kL by simp
    next
      show "nT0 = 0 \<longleftrightarrow> (\<forall>g. L \<le> g \<and> g \<le> R \<longrightarrow> kv t s dm g \<noteq> T)"
      proof
        assume "nT0 = 0"
        then have k: "kv t s dm L \<noteq> T" using zT by simp
        show "\<forall>g. L \<le> g \<and> g \<le> R \<longrightarrow> kv t s dm g \<noteq> T"
        proof (intro allI impI)
          fix g assume "L \<le> g \<and> g \<le> R"
          then have "g = L" using True by simp
          then show "kv t s dm g \<noteq> T" using k by simp
        qed
      next
        assume "\<forall>g. L \<le> g \<and> g \<le> R \<longrightarrow> kv t s dm g \<noteq> T"
        then have "kv t s dm L \<noteq> T" using LR by simp
        then show "nT0 = 0" using zT True by simp
      qed
    qed
    then have "ends_ok t s dm T L R (L, R - 1, Ptr (L - s), Ptr (R - s)) (nT0, nG0, 0)"
      using True v by (simp add: ends_ok_def other_ready_def)
    then show ?thesis unfolding e sc by simp
  next
    case False
    then have L_R: "L < R" using LR by simp
    have Rlen: "R \<le> s + int (length (CurrentPtArray t))" using Rn by simp
    from scan_down_count_spec [OF dm sL L_R Rlen, of T nT0 nG0]
    obtain J1 Jpt1 nT nG where d:
      "scan_down_count t dm T L (R, Ptr (R - s), nT0, nG0) = Some (J1, Jpt1, nT, nG)"
      "L \<le> J1" "J1 < R"
      and d4: "\<And>g. J1 < g \<Longrightarrow> g < R \<Longrightarrow> T \<le> kv t s dm g"
      and d5: "L < J1 \<Longrightarrow> kv t s dm J1 < T \<and> Jpt1 = Ptr (J1 - s)"
      and d6: "nT0 \<le> nT" "nG0 \<le> nG" "nT + nG = nT0 + nG0 + (R - 1 - J1)"
      and d7: "nT = nT0 \<longleftrightarrow> (\<forall>g. J1 < g \<and> g < R \<longrightarrow> kv t s dm g \<noteq> T)"
      and d8: "nG = nG0 \<longleftrightarrow> (\<forall>g. J1 < g \<and> g < R \<longrightarrow> \<not> T < kv t s dm g)"
      by blast
    have sm: "nT + nG = R - J1 + 1" using d6(3) s0(1) by simp
    have hiR: "T \<le> kv t s dm g" if "J1 < g" "g \<le> R" for g
    proof -
      note gg = that
      consider "g < R" | "g = R" using gg by linarith
      then show ?thesis using d4 gg kR by cases auto
    qed
    have zT': "nT = 0 \<longleftrightarrow> kv t s dm L \<noteq> T \<and> (\<forall>g. J1 < g \<and> g \<le> R \<longrightarrow> kv t s dm g \<noteq> T)"
    proof
      assume z: "nT = 0"
      then have "nT0 = 0" using d6(1) s0(2) by simp
      then have k: "kv t s dm L \<noteq> T" "kv t s dm R \<noteq> T" using zT by simp_all
      have "nT = nT0" using z \<open>nT0 = 0\<close> by simp
      then have i: "\<And>g. J1 < g \<Longrightarrow> g < R \<Longrightarrow> kv t s dm g \<noteq> T" using d7 by blast
      have "\<forall>g. J1 < g \<and> g \<le> R \<longrightarrow> kv t s dm g \<noteq> T"
      proof (intro allI impI)
        fix g assume g: "J1 < g \<and> g \<le> R"
        then consider "g < R" | "g = R" by linarith
        then show "kv t s dm g \<noteq> T" using i k(2) g by cases auto
      qed
      with k(1) show "kv t s dm L \<noteq> T \<and> (\<forall>g. J1 < g \<and> g \<le> R \<longrightarrow> kv t s dm g \<noteq> T)" by simp
    next
      assume a: "kv t s dm L \<noteq> T \<and> (\<forall>g. J1 < g \<and> g \<le> R \<longrightarrow> kv t s dm g \<noteq> T)"
      then have "kv t s dm R \<noteq> T" using d(3) by simp
      with a have "nT0 = 0" using zT by simp
      moreover have "\<forall>g. J1 < g \<and> g < R \<longrightarrow> kv t s dm g \<noteq> T" using a by simp
      then have "nT = nT0" using d7 by simp
      ultimately show "nT = 0" by simp
    qed
    have zG': "nG = 0 \<longleftrightarrow> kv t s dm L = T \<and> (\<forall>g. J1 < g \<and> g \<le> R \<longrightarrow> kv t s dm g = T)"
    proof
      assume z: "nG = 0"
      then have "nG0 = 0" using d6(2) s0(3) by simp
      then have k: "kv t s dm L = T" "kv t s dm R = T" using zG by simp_all
      have "nG = nG0" using z \<open>nG0 = 0\<close> by simp
      then have i: "\<And>g. J1 < g \<Longrightarrow> g < R \<Longrightarrow> \<not> T < kv t s dm g" using d8 by blast
      have "\<forall>g. J1 < g \<and> g \<le> R \<longrightarrow> kv t s dm g = T"
      proof (intro allI impI)
        fix g assume g: "J1 < g \<and> g \<le> R"
        then consider "g < R" | "g = R" by linarith
        then show "kv t s dm g = T"
        proof cases
          case 1
          with g have "\<not> T < kv t s dm g" "T \<le> kv t s dm g" using i d4 by simp_all
          then show ?thesis by simp
        next
          case 2
          then show ?thesis using k(2) by simp
        qed
      qed
      with k(1) show "kv t s dm L = T \<and> (\<forall>g. J1 < g \<and> g \<le> R \<longrightarrow> kv t s dm g = T)" by simp
    next
      assume a: "kv t s dm L = T \<and> (\<forall>g. J1 < g \<and> g \<le> R \<longrightarrow> kv t s dm g = T)"
      then have "kv t s dm R = T" using d(3) by simp
      with a have "nG0 = 0" using zG by simp
      moreover have "\<forall>g. J1 < g \<and> g < R \<longrightarrow> \<not> T < kv t s dm g" using a by simp
      then have "nG = nG0" using d8 by simp
      ultimately show "nG = 0" by simp
    qed
    have n0: "0 \<le> nT" "0 \<le> nG" using d6 s0 by simp_all
    have whole: "P g" if "P L" "\<forall>g. J1 < g \<and> g \<le> R \<longrightarrow> P g" "J1 = L" "L \<le> g \<and> g \<le> R"
      for P :: "int \<Rightarrow> bool" and g
    proof -
      note hh = that
      consider "g = L" | "J1 < g" using hh(3,4) by linarith
      then show ?thesis using hh by cases auto
    qed
    have "ends_ok t s dm T L R (L, J1, Ptr (L - s), Jpt1) (nT, nG, 0)"
    proof -
      have c1: "(0::int) \<noteq> R - L + 1" using L_R by simp
      consider (allT) "nT = R - L + 1" | (allG) "nT \<noteq> R - L + 1" "nG = R - L + 1"
        | (mixed) "nT \<noteq> R - L + 1" "nG \<noteq> R - L + 1" by blast
      then show ?thesis
      proof cases
        case allT
        then have "J1 = L" "nG = 0" using sm n0 d(2) by simp_all
        with zG' have z: "kv t s dm L = T" "\<forall>g. J1 < g \<and> g \<le> R \<longrightarrow> kv t s dm g = T"
          by simp_all
        have "\<forall>g. L \<le> g \<and> g \<le> R \<longrightarrow> kv t s dm g = T"
          using whole [of "\<lambda>g. kv t s dm g = T", OF z \<open>J1 = L\<close>] by blast
        then show ?thesis using c1 allT by (simp add: ends_ok_def)
      next
        case allG
        then have J: "J1 = L" and "nT = 0" using sm n0 d(2) by simp_all
        with zT' have z: "kv t s dm L \<noteq> T" "\<forall>g. J1 < g \<and> g \<le> R \<longrightarrow> kv t s dm g \<noteq> T"
          by simp_all
        have ne: "\<forall>g. L \<le> g \<and> g \<le> R \<longrightarrow> kv t s dm g \<noteq> T"
          using whole [of "\<lambda>g. kv t s dm g \<noteq> T", OF z J] by blast
        have ge: "\<forall>g. L \<le> g \<and> g \<le> R \<longrightarrow> T \<le> kv t s dm g"
          using whole [of "\<lambda>g. T \<le> kv t s dm g", OF kL _ J] hiR by blast
        have "\<forall>g. L \<le> g \<and> g \<le> R \<longrightarrow> T < kv t s dm g"
        proof (intro allI impI)
          fix g assume "L \<le> g \<and> g \<le> R"
          with ne ge have "kv t s dm g \<noteq> T" "T \<le> kv t s dm g" by simp_all
          then show "T < kv t s dm g" by simp
        qed
        then show ?thesis using c1 allG by (simp add: ends_ok_def)
      next
        case mixed
        have "other_ready t s dm T L R (L, J1, Ptr (L - s), Jpt1) nT"
        proof (cases "J1 = L")
          case True
          have ge: "\<forall>g. L \<le> g \<and> g \<le> R \<longrightarrow> T \<le> kv t s dm g"
            using whole [of "\<lambda>g. T \<le> kv t s dm g", OF kL _ True] hiR by blast
          have "nT = 0 \<longleftrightarrow> (\<forall>g. L \<le> g \<and> g \<le> R \<longrightarrow> kv t s dm g \<noteq> T)"
          proof
            assume "nT = 0"
            with zT' have z: "kv t s dm L \<noteq> T" "\<forall>g. J1 < g \<and> g \<le> R \<longrightarrow> kv t s dm g \<noteq> T"
              by simp_all
            show "\<forall>g. L \<le> g \<and> g \<le> R \<longrightarrow> kv t s dm g \<noteq> T"
              using whole [of "\<lambda>g. kv t s dm g \<noteq> T", OF z True] by blast
          next
            assume a: "\<forall>g. L \<le> g \<and> g \<le> R \<longrightarrow> kv t s dm g \<noteq> T"
            then have "kv t s dm L \<noteq> T" using LR by simp
            moreover have "\<forall>g. J1 < g \<and> g \<le> R \<longrightarrow> kv t s dm g \<noteq> T" using a True by simp
            ultimately show "nT = 0" using zT' by simp
          qed
          then have "other_post t s dm T L R L nT"
            unfolding other_post_def using ge LR by simp
          then show ?thesis using True by (simp add: other_ready_def)
        next
          case False
          then have LJ: "L < J1" using d(2) by simp
          from d5 [OF LJ] have kJ: "kv t s dm J1 < T" and Jp: "Jpt1 = Ptr (J1 - s)" by simp_all
          have "other_inv t s dm T L R L J1 nT"
            unfolding other_inv_def
          proof (intro conjI allI impI)
            show "s \<le> L" by (rule sL)
            show "L \<le> L" by simp
            show "L < J1" by (rule LJ)
            show "J1 \<le> R" using d(3) by simp
            show "T \<le> kv t s dm L" by (rule kL)
            show "kv t s dm J1 < T" by (rule kJ)
            show "0 \<le> nT" by (rule n0(1))
            show "nT = 0 \<longleftrightarrow> kv t s dm L \<noteq> T \<and> (\<forall>g. J1 < g \<and> g \<le> R \<longrightarrow> kv t s dm g \<noteq> T)"
              by (rule zT')
          next
            fix g assume "L \<le> g \<and> g < L"
            then show "kv t s dm g < T" by simp
          next
            fix g assume "J1 < g \<and> g \<le> R"
            then show "T \<le> kv t s dm g" using hiR by simp
          qed
          then show ?thesis using Jp by (simp add: other_ready_def)
        qed
        then show ?thesis using c1 mixed by (simp add: ends_ok_def)
      qed
    qed
    then show ?thesis unfolding e d(1) by simp
  qed
qed

lemma ends_low:
  assumes dm: "0 \<le> dm" "dm \<le> 2"
    and ok: "local_ok t s" and sL: "s \<le> L" and LR: "L \<le> R"
    and Rn: "R < s + int (length (CurrentPtArray t))"
    and kL: "kv t s dm L < T" and kR: "kv t s dm R < T"
  shows "\<exists>ij c. other_ends t L R T dm = Some (t, ij, c) \<and> ends_ok t s dm T L R ij c"
proof -
  have inL: "in_local t s L" and inR: "in_local t s R"
    using sL LR Rn by (simp_all add: in_local_def)
  have tl: "tally (kv t s dm R) T (tally (kv t s dm L) T (0, 0, 0)) = (0, 0, 2)"
    using kL kR by (simp add: tally_def)
  have e: "other_ends t L R T dm =
     map_option (\<lambda>(I, Ipt, numTValues, numLess).
                       (t, (I, R, Ipt, Ptr (R - s)), (numTValues, 0, numLess)))
           (scan_up_count t dm T R (L, Ptr (L - s), 0, 2))"
    unfolding other_ends_unfold [OF dm ok inL inR] tl using kL kR by simp
  show ?thesis
  proof (cases "L = R")
    case True
    have sc: "scan_up_count t dm T R (L, Ptr (L - s), 0, 2) = Some (L + 1, Ptr (L - s), 0, 2)"
      using True by (subst scan_up_count.simps) (simp add: Let_def)
    have "other_post t s dm T L R (L + 1) 0"
      unfolding other_post_def
    proof (intro conjI allI impI)
      show "L \<le> L + 1" by simp
      show "L + 1 \<le> R + 1" using LR by simp
    next
      fix g assume "L \<le> g \<and> g < L + 1"
      then have "g = L" by simp
      then show "kv t s dm g < T" using kL by simp
    next
      fix g assume "L + 1 \<le> g \<and> g \<le> R"
      then show "T \<le> kv t s dm g" using True by simp
    next
      show "(0::int) = 0 \<longleftrightarrow> (\<forall>g. L + 1 \<le> g \<and> g \<le> R \<longrightarrow> kv t s dm g \<noteq> T)"
        using True by simp
    qed
    then have "ends_ok t s dm T L R (L + 1, R, Ptr (L - s), Ptr (R - s)) (0, 0, 2)"
      using True by (simp add: ends_ok_def other_ready_def)
    then show ?thesis unfolding e sc by simp
  next
    case False
    then have L_R: "L < R" using LR by simp
    have Rlen: "R \<le> s + int (length (CurrentPtArray t))" using Rn by simp
    from scan_up_count_spec [OF dm sL L_R Rlen, of T 0 2]
    obtain I1 Ipt1 nT nL where u:
      "scan_up_count t dm T R (L, Ptr (L - s), 0, 2) = Some (I1, Ipt1, nT, nL)"
      "L < I1" "I1 \<le> R"
      and u4: "\<And>g. L < g \<Longrightarrow> g < I1 \<Longrightarrow> kv t s dm g < T"
      and u5: "I1 < R \<Longrightarrow> T \<le> kv t s dm I1 \<and> Ipt1 = Ptr (I1 - s) \<and>
                   nT = (if kv t s dm I1 = T then 0 + 1 else 0)"
      and u6: "I1 = R \<Longrightarrow> nT = 0"
      and u7: "nL = 2 + (I1 - 1 - L)"
      by blast
    have nL: "nL = I1 - L + 1" using u7 by simp
    have lo: "kv t s dm g < T" if "L \<le> g" "g < I1" for g
    proof -
      note gg = that
      consider "g = L" | "L < g" using gg by linarith
      then show ?thesis using kL u4 gg by cases auto
    qed
    have "ends_ok t s dm T L R (I1, R, Ipt1, Ptr (R - s)) (nT, 0, nL)"
    proof (cases "I1 = R")
      case True
      have "\<forall>g. L \<le> g \<and> g \<le> R \<longrightarrow> kv t s dm g < T"
      proof (intro allI impI)
        fix g assume g: "L \<le> g \<and> g \<le> R"
        then consider "g < I1" | "g = R" using True by linarith
        then show "kv t s dm g < T" using lo kR g by cases auto
      qed
      then show ?thesis using True nL by (simp add: ends_ok_def)
    next
      case False
      then have IR: "I1 < R" using u(3) by simp
      from u5 [OF IR] have kI: "T \<le> kv t s dm I1" and Ip: "Ipt1 = Ptr (I1 - s)"
        and nT: "nT = (if kv t s dm I1 = T then 1 else 0)" by simp_all
      have c: "nL \<noteq> R - L + 1" "nT \<noteq> R - L + 1" "0 \<noteq> R - L + 1"
        using nL nT IR u(2) by (simp_all split: if_splits)
      have "other_inv t s dm T L R I1 R nT"
        unfolding other_inv_def
      proof (intro conjI allI impI)
        show "s \<le> L" by (rule sL)
        show "L \<le> I1" using u(2) by simp
        show "I1 < R" by (rule IR)
        show "R \<le> R" by simp
        show "T \<le> kv t s dm I1" by (rule kI)
        show "kv t s dm R < T" by (rule kR)
        show "0 \<le> nT" using nT by simp
        show "nT = 0 \<longleftrightarrow> kv t s dm I1 \<noteq> T \<and> (\<forall>g. R < g \<and> g \<le> R \<longrightarrow> kv t s dm g \<noteq> T)"
          using nT by simp
      next
        fix g assume "L \<le> g \<and> g < I1"
        then show "kv t s dm g < T" using lo by simp
      next
        fix g assume "R < g \<and> g \<le> R"
        then show "T \<le> kv t s dm g" by simp
      qed
      then show ?thesis using c Ip by (simp add: ends_ok_def other_ready_def)
    qed
    then show ?thesis unfolding e u(1) by simp
  qed
qed

lemma ends_crossed:
  assumes dm: "0 \<le> dm" "dm \<le> 2"
    and ok: "local_ok t s" and sL: "s \<le> L" and LR: "L \<le> R"
    and Rn: "R < s + int (length (CurrentPtArray t))"
    and kL: "kv t s dm L < T" and kR: "T \<le> kv t s dm R"
  shows "\<exists>ij c. other_ends t L R T dm = Some (swapped t s L R, ij, c) \<and>
                ends_ok (swapped t s L R) s dm T L R ij c"
proof -
  have inL: "in_local t s L" and inR: "in_local t s R"
    using sL LR Rn by (simp_all add: in_local_def)
  have L_R: "L < R" using kL kR LR by (cases "L = R") auto
  define nT :: int where "nT = (if kv t s dm R = T then 1 else 0)"
  define nG :: int where "nG = (if T < kv t s dm R then 1 else 0)"
  have tl: "tally (kv t s dm R) T (tally (kv t s dm L) T (0, 0, 0)) = (nT, nG, 1)"
    using kL kR by (auto simp: tally_def nT_def nG_def)
  let ?t1 = "swapped t s L R"
  have e: "other_ends t L R T dm = Some (?t1, (L, R, Ptr (L - s), Ptr (R - s)), (nT, nG, 1))"
    unfolding other_ends_unfold [OF dm ok inL inR] tl using kL kR
    by (simp add: ExchangeLocalVals_in [OF ok inL inR])
  have k1: "kv ?t1 s dm L = kv t s dm R" "kv ?t1 s dm R = kv t s dm L"
    using kv_swapped [OF inL inR inL, of dm] kv_swapped [OF inL inR inR, of dm] L_R by simp_all
  have c: "1 \<noteq> R - L + 1" "nT \<noteq> R - L + 1" "nG \<noteq> R - L + 1"
    using L_R by (simp_all add: nT_def nG_def)
  have "other_inv ?t1 s dm T L R L R nT"
    unfolding other_inv_def
  proof (intro conjI allI impI)
    show "s \<le> L" by (rule sL)
    show "L \<le> L" by simp
    show "L < R" by (rule L_R)
    show "R \<le> R" by simp
    show "T \<le> kv ?t1 s dm L" using k1 kR by simp
    show "kv ?t1 s dm R < T" using k1 kL by simp
    show "0 \<le> nT" by (simp add: nT_def)
    show "nT = 0 \<longleftrightarrow> kv ?t1 s dm L \<noteq> T \<and> (\<forall>g. R < g \<and> g \<le> R \<longrightarrow> kv ?t1 s dm g \<noteq> T)"
      using k1 by (simp add: nT_def)
  next
    fix g assume "L \<le> g \<and> g < L"
    then show "kv ?t1 s dm g < T" by simp
  next
    fix g assume "R < g \<and> g \<le> R"
    then show "T \<le> kv ?t1 s dm g" by simp
  qed
  then have "ends_ok ?t1 s dm T L R (L, R, Ptr (L - s), Ptr (R - s)) (nT, nG, 1)"
    using c by (simp add: ends_ok_def other_ready_def)
  with e show ?thesis by simp
qed

lemma ends_inverted:
  assumes dm: "0 \<le> dm" "dm \<le> 2"
    and ok: "local_ok t s" and sL: "s \<le> L" and LR: "L \<le> R"
    and Rn: "R < s + int (length (CurrentPtArray t))"
    and kL: "T \<le> kv t s dm L" and kR: "kv t s dm R < T"
  shows "\<exists>ij c. other_ends t L R T dm = Some (t, ij, c) \<and> ends_ok t s dm T L R ij c"
proof -
  have inL: "in_local t s L" and inR: "in_local t s R"
    using sL LR Rn by (simp_all add: in_local_def)
  have L_R: "L < R" using kL kR LR by (cases "L = R") auto
  define nT :: int where "nT = (if kv t s dm L = T then 1 else 0)"
  define nG :: int where "nG = (if T < kv t s dm L then 1 else 0)"
  have tl: "tally (kv t s dm R) T (tally (kv t s dm L) T (0, 0, 0)) = (nT, nG, 1)"
    using kL kR by (auto simp: tally_def nT_def nG_def)
  have e: "other_ends t L R T dm = Some (t, (L, R, Ptr (L - s), Ptr (R - s)), (nT, nG, 1))"
    unfolding other_ends_unfold [OF dm ok inL inR] tl using kL kR by simp
  have c: "1 \<noteq> R - L + 1" "nT \<noteq> R - L + 1" "nG \<noteq> R - L + 1"
    using L_R by (simp_all add: nT_def nG_def)
  have "other_inv t s dm T L R L R nT"
    unfolding other_inv_def
  proof (intro conjI allI impI)
    show "s \<le> L" by (rule sL)
    show "L \<le> L" by simp
    show "L < R" by (rule L_R)
    show "R \<le> R" by simp
    show "T \<le> kv t s dm L" by (rule kL)
    show "kv t s dm R < T" by (rule kR)
    show "0 \<le> nT" by (simp add: nT_def)
    show "nT = 0 \<longleftrightarrow> kv t s dm L \<noteq> T \<and> (\<forall>g. R < g \<and> g \<le> R \<longrightarrow> kv t s dm g \<noteq> T)"
      by (simp add: nT_def)
  next
    fix g assume "L \<le> g \<and> g < L"
    then show "kv t s dm g < T" by simp
  next
    fix g assume "R < g \<and> g \<le> R"
    then show "T \<le> kv t s dm g" by simp
  qed
  then have "ends_ok t s dm T L R (L, R, Ptr (L - s), Ptr (R - s)) (nT, nG, 1)"
    using c by (simp add: ends_ok_def other_ready_def)
  with e show ?thesis by simp
qed

lemma other_ends_spec:
  assumes dm: "0 \<le> dm" "dm \<le> 2"
    and ok: "local_ok t s" and sL: "s \<le> L" and LR: "L \<le> R"
    and Rn: "R < s + int (length (CurrentPtArray t))"
  shows "\<exists>t1 ij c. other_ends t L R T dm = Some (t1, ij, c) \<and>
           rearranged s L R t t1 \<and> ends_ok t1 s dm T L R ij c"
proof -
  have inL: "in_local t s L" and inR: "in_local t s R"
    using sL LR Rn by (simp_all add: in_local_def)
  have re: "rearranged s L R t (swapped t s L R)"
    using inL inR LR by (intro rearranged_swapped) simp_all
  consider (hh) "T \<le> kv t s dm L" "T \<le> kv t s dm R"
    | (ll) "kv t s dm L < T" "kv t s dm R < T"
    | (lh) "kv t s dm L < T" "T \<le> kv t s dm R"
    | (hl) "T \<le> kv t s dm L" "kv t s dm R < T"
    by linarith
  then show ?thesis
  proof cases
    case hh
    from ends_high [OF dm ok sL LR Rn hh] show ?thesis
      using rearranged_refl by blast
  next
    case ll
    from ends_low [OF dm ok sL LR Rn ll] show ?thesis
      using rearranged_refl by blast
  next
    case lh
    from ends_crossed [OF dm ok sL LR Rn lh] show ?thesis
      using re by blast
  next
    case hl
    from ends_inverted [OF dm ok sL LR Rn hl] show ?thesis
      using rearranged_refl by blast
  qed
qed

text \<open>The function is its set-up, its special cases, its loop and its last part.\<close>

lemma PartitionAboutOtherValue_stages:
  "PartitionAboutOtherValue t0 L R T dm =
     (if R - L + 1 = 0 then Some (t0, L, L)
      else do {
        (t, (I, J, Ipt, Jpt), (numTValues, numGreater, numLess)) \<leftarrow> other_ends t0 L R T dm;
        if numLess = R - L + 1 then Some (t, R + 1, R + 1)
        else if numTValues = R - L + 1 then Some (t, L, R + 1)
        else if numGreater = R - L + 1 then Some (t, L, L)
        else do {
          (t, I, J, numTValues) \<leftarrow> loop_other t dm T (I, J, Ipt, Jpt, numTValues);
          other_finish t dm T R I numTValues
        }
      })"
  unfolding PartitionAboutOtherValue_def other_finish_def Let_def by (rule refl)

lemma PartitionAboutOtherValue_spec:
  assumes dm: "0 \<le> dm" "dm \<le> 2"
    and ok: "local_ok t s" and sL: "s \<le> L" and LR: "L \<le> R + 1"
    and Rn: "R < s + int (length (CurrentPtArray t))"
  shows "\<exists>t' I J. PartitionAboutOtherValue t L R T dm = Some (t', I, J) \<and>
           rearranged s L R t t' \<and> three_way t' s dm T L R I J"
proof (cases "R - L + 1 = 0")
  case True
  then have "three_way t s dm T L R L L" by (simp add: three_way_def)
  with True show ?thesis by (simp add: PartitionAboutOtherValue_stages)
next
  case False
  then have LR': "L \<le> R" using LR by simp
  from other_ends_spec [OF dm ok sL LR' Rn, of T]
  obtain t1 I J Ipt Jpt nT nG nL where e:
    "other_ends t L R T dm = Some (t1, (I, J, Ipt, Jpt), (nT, nG, nL))"
    "rearranged s L R t t1" "ends_ok t1 s dm T L R (I, J, Ipt, Jpt) (nT, nG, nL)"
    by (metis prod_cases4 prod_cases3)
  have ok1: "local_ok t1 s" using rearranged_local_ok [OF e(2)] ok by simp
  have R1: "R < s + int (length (CurrentPtArray t1))" using e(2) Rn by (simp add: rearranged_def)
  consider (less) "nL = R - L + 1"
    | (eq) "nL \<noteq> R - L + 1" "nT = R - L + 1"
    | (greater) "nL \<noteq> R - L + 1" "nT \<noteq> R - L + 1" "nG = R - L + 1"
    | (loop) "nL \<noteq> R - L + 1" "nT \<noteq> R - L + 1" "nG \<noteq> R - L + 1"
    by blast
  then show ?thesis
  proof cases
    case less
    with e(3) have "\<forall>g. L \<le> g \<and> g \<le> R \<longrightarrow> kv t1 s dm g < T" by (simp add: ends_ok_def)
    then have "three_way t1 s dm T L R (R + 1) (R + 1)" using LR by (simp add: three_way_def)
    moreover have "PartitionAboutOtherValue t L R T dm = Some (t1, R + 1, R + 1)"
      using False less by (simp add: PartitionAboutOtherValue_stages e(1))
    ultimately show ?thesis using e(2) by blast
  next
    case eq
    with e(3) have "\<forall>g. L \<le> g \<and> g \<le> R \<longrightarrow> kv t1 s dm g = T" by (simp add: ends_ok_def)
    then have "three_way t1 s dm T L R L (R + 1)" using LR by (simp add: three_way_def)
    moreover have "PartitionAboutOtherValue t L R T dm = Some (t1, L, R + 1)"
      using False eq by (simp add: PartitionAboutOtherValue_stages e(1))
    ultimately show ?thesis using e(2) by blast
  next
    case greater
    with e(3) have "\<forall>g. L \<le> g \<and> g \<le> R \<longrightarrow> T < kv t1 s dm g" by (simp add: ends_ok_def)
    then have "three_way t1 s dm T L R L L" using LR by (simp add: three_way_def)
    moreover have "PartitionAboutOtherValue t L R T dm = Some (t1, L, L)"
      using False greater by (simp add: PartitionAboutOtherValue_stages e(1))
    ultimately show ?thesis using e(2) by blast
  next
    case loop
    with e(3) have rdy: "other_ready t1 s dm T L R (I, J, Ipt, Jpt) nT" by (simp add: ends_ok_def)
    have st: "PartitionAboutOtherValue t L R T dm = do {
          (t, I, J, numTValues) \<leftarrow> loop_other t1 dm T (I, J, Ipt, Jpt, nT);
          other_finish t dm T R I numTValues }"
      using False loop by (simp add: PartitionAboutOtherValue_stages e(1))
    have "\<exists>t2 m J2 n. loop_other t1 dm T (I, J, Ipt, Jpt, nT) = Some (t2, m, J2, n) \<and>
            rearranged s L R t1 t2 \<and> other_post t2 s dm T L R m n"
    proof (cases "J \<le> I")
      case True
      with rdy have "other_post t1 s dm T L R I nT" by (auto simp: other_ready_def other_inv_def)
      moreover have "loop_other t1 dm T (I, J, Ipt, Jpt, nT) = Some (t1, I, J, nT)"
        using True by (subst loop_other.simps) simp
      ultimately show ?thesis using rearranged_refl by blast
    next
      case False
      with rdy have i: "other_inv t1 s dm T L R I J nT" "Ipt = Ptr (I - s)" "Jpt = Ptr (J - s)"
        by (auto simp: other_ready_def)
      from loop_other_spec [OF dm ok1 R1 i(1)] show ?thesis unfolding i(2,3) by blast
    qed
    then obtain t2 m J2 n where l:
      "loop_other t1 dm T (I, J, Ipt, Jpt, nT) = Some (t2, m, J2, n)"
      "rearranged s L R t1 t2" "other_post t2 s dm T L R m n"
      by blast
    have ok2: "local_ok t2 s" using rearranged_local_ok [OF l(2)] ok1 by simp
    have R2: "R < s + int (length (CurrentPtArray t2))" using l(2) R1 by (simp add: rearranged_def)
    from other_finish_spec [OF dm ok2 sL R2 l(3)]
    obtain t' J' where f: "other_finish t2 dm T R m n = Some (t', m, J')"
      "rearranged s L R t2 t'" "three_way t' s dm T L R m J'"
      by blast
    have "PartitionAboutOtherValue t L R T dm = Some (t', m, J')"
      unfolding st l(1) using f(1) by simp
    moreover have "rearranged s L R t t'"
      by (rule rearranged_trans [OF rearranged_trans [OF e(2) l(2)] f(2)])
    ultimately show ?thesis using f(3) by blast
  qed
qed

text \<open>
  Claim C1.  Let the local array of this process hold the global indices from \<open>s\<close> on, and
  let \<open>L\<close> to \<open>R\<close> lie inside it.  \<open>PartitionAboutMyValue\<close>, called with \<open>L \<le> K \<le> R\<close>,
  returns, permutes the points at \<open>L\<close> to \<open>R\<close> and changes nothing else, and its pair
  \<open>(I, J)\<close> has \<open>L \<le> I < J \<le> R + 1\<close>, values below the value \<open>T\<close> that stood at \<open>K\<close> on
  \<open>[L, I)\<close>, values equal to \<open>T\<close> on \<open>[I, J)\<close> and values above \<open>T\<close> on \<open>[J, R]\<close>.
  \<open>PartitionAboutOtherValue\<close>, called with any \<open>T\<close> and \<open>L \<le> R + 1\<close>, does the same with
  \<open>L \<le> I \<le> J \<le> R + 1\<close>, and \<open>I = J\<close> when no value of the range equals \<open>T\<close>; on an empty
  range it changes nothing and returns \<open>I = J = L\<close>.  Coordinates are real numbers here:
  the comparisons of the source are those of a total order, as they are for floats that
  are not NaN.
\<close>

theorem three_way_partitions:
  assumes "0 \<le> dm" "dm \<le> 2" and "local_ok t s" and "s \<le> L"
    and "R < s + int (length (CurrentPtArray t))"
  shows "(L \<le> K \<and> K \<le> R \<longrightarrow>
           (\<exists>t' I J. PartitionAboutMyValue t L R K dm = Some (t', I, J) \<and>
              rearranged s L R t t' \<and> mset (slice t' s L R) = mset (slice t s L R) \<and>
              I < J \<and> three_way t' s dm (kv t s dm K) L R I J)) \<and>
         (L \<le> R + 1 \<longrightarrow>
           (\<exists>t' I J. PartitionAboutOtherValue t L R T dm = Some (t', I, J) \<and>
              rearranged s L R t t' \<and> mset (slice t' s L R) = mset (slice t s L R) \<and>
              three_way t' s dm T L R I J \<and>
              ((\<forall>g. L \<le> g \<and> g \<le> R \<longrightarrow> kv t s dm g \<noteq> T) \<longrightarrow> I = J))) \<and>
         PartitionAboutOtherValue t L (L - 1) T dm = Some (t, L, L)"
proof (intro conjI impI)
  assume k: "L \<le> K \<and> K \<le> R"
  then have LK: "L \<le> K" and KR: "K \<le> R" by simp_all
  from PartitionAboutMyValue_spec [OF assms(1,2,3,4) LK KR assms(5)]
  obtain t' I J where r: "PartitionAboutMyValue t L R K dm = Some (t', I, J)"
    "rearranged s L R t t'" "I < J" "three_way t' s dm (kv t s dm K) L R I J"
    by blast
  have "L \<le> R + 1" using k by simp
  from rearranged_slice [OF r(2) assms(4) this assms(5)] r
  show "\<exists>t' I J. PartitionAboutMyValue t L R K dm = Some (t', I, J) \<and>
              rearranged s L R t t' \<and> mset (slice t' s L R) = mset (slice t s L R) \<and>
              I < J \<and> three_way t' s dm (kv t s dm K) L R I J"
    by blast
next
  assume LR: "L \<le> R + 1"
  from PartitionAboutOtherValue_spec [OF assms(1,2,3,4) LR assms(5)]
  obtain t' I J where r: "PartitionAboutOtherValue t L R T dm = Some (t', I, J)"
    "rearranged s L R t t'" "three_way t' s dm T L R I J"
    by blast
  have ms: "mset (slice t' s L R) = mset (slice t s L R)"
    by (rule rearranged_slice [OF r(2) assms(4) LR assms(5)])
  have ab: "(\<forall>g. L \<le> g \<and> g \<le> R \<longrightarrow> kv t s dm g \<noteq> T) \<longrightarrow> I = J"
  proof
    assume a: "\<forall>g. L \<le> g \<and> g \<le> R \<longrightarrow> kv t s dm g \<noteq> T"
    show "I = J"
    proof (rule ccontr)
      assume "I \<noteq> J"
      with r(3) have b: "L \<le> I" "I < J" "J \<le> R + 1" and "kv t' s dm I = T"
        by (simp_all add: three_way_def)
      from b have "I \<le> R" by simp
      from rearranged_key_present [OF r(2) assms(4,5) b(1) this, of dm]
      obtain h where "L \<le> h" "h \<le> R" "kv t s dm h = kv t' s dm I" by blast
      with a \<open>kv t' s dm I = T\<close> show False by simp
    qed
  qed
  from r ms ab
  show "\<exists>t' I J. PartitionAboutOtherValue t L R T dm = Some (t', I, J) \<and>
              rearranged s L R t t' \<and> mset (slice t' s L R) = mset (slice t s L R) \<and>
              three_way t' s dm T L R I J \<and>
              ((\<forall>g. L \<le> g \<and> g \<le> R \<longrightarrow> kv t s dm g \<noteq> T) \<longrightarrow> I = J)"
    by blast
next
  show "PartitionAboutOtherValue t L (L - 1) T dm = Some (t, L, L)"
    by (simp add: PartitionAboutOtherValue_def)
qed

text \<open>
  The second of two processes, holding the three points with global indices 10 to 12.
\<close>

definition local_sample :: PKdTree where
  "local_sample = vtkPKdTree_new\<lparr>NumProcesses := 2, MyId := 1,
      StartVal := [0, 10], EndVal := [9, 12], NumCells := [10, 3], TotalNumCells := 13,
      CurrentPtArray := [(5, 0, 0), (3, 0, 0), (8, 0, 0)]\<rparr>"

theorem three_way_partitions_witness:
  "local_ok local_sample 10 \<and>
   (\<exists>t' I J. PartitionAboutMyValue local_sample 10 12 11 0 = Some (t', I, J) \<and>
      rearranged 10 10 12 local_sample t' \<and> I < J \<and> three_way t' 10 0 3 10 12 I J) \<and>
   (\<exists>t' I. PartitionAboutOtherValue local_sample 10 12 4 0 = Some (t', I, I) \<and>
      rearranged 10 10 12 local_sample t' \<and> three_way t' 10 0 4 10 12 I I) \<and>
   PartitionAboutOtherValue local_sample 10 9 4 0 = Some (local_sample, 10, 10)"
proof -
  have ok: "local_ok local_sample 10"
    by (simp add: local_ok_def local_sample_def vec_get_def)
  have n: "(12::int) < 10 + int (length (CurrentPtArray local_sample))"
    by (simp add: local_sample_def)
  have kK: "kv local_sample 10 0 11 = 3"
    by (simp add: kv_def cval_def local_sample_def)
  have ab: "\<forall>g. 10 \<le> g \<and> g \<le> 12 \<longrightarrow> kv local_sample 10 0 g \<noteq> 4"
  proof (intro allI impI)
    fix g :: int assume "10 \<le> g \<and> g \<le> 12"
    then consider "g = 10" | "g = 11" | "g = 12" by linarith
    then show "kv local_sample 10 0 g \<noteq> 4"
      by cases (simp_all add: kv_def cval_def local_sample_def)
  qed
  have c: "(10::int) \<le> 11 \<and> (11::int) \<le> 12" "(10::int) \<le> 12 + 1" by simp_all
  note w = three_way_partitions [of 0 local_sample 10 10 12 11 4, OF _ _ ok _ n]
  have w1: "\<exists>t' I J. PartitionAboutMyValue local_sample 10 12 11 0 = Some (t', I, J) \<and>
      rearranged 10 10 12 local_sample t' \<and> I < J \<and> three_way t' 10 0 3 10 12 I J"
    using w c(1) kK by auto
  from w c(2) obtain t' I J where o:
    "PartitionAboutOtherValue local_sample 10 12 4 0 = Some (t', I, J)"
    "rearranged 10 10 12 local_sample t'" "three_way t' 10 0 4 10 12 I J"
    "(\<forall>g. 10 \<le> g \<and> g \<le> 12 \<longrightarrow> kv local_sample 10 0 g \<noteq> 4) \<longrightarrow> I = J"
    by auto
  from o(4) ab have "I = J" by blast
  with o have w2: "\<exists>t' I. PartitionAboutOtherValue local_sample 10 12 4 0 = Some (t', I, I) \<and>
      rearranged 10 10 12 local_sample t' \<and> three_way t' 10 0 4 10 12 I I"
    by blast
  have w3: "PartitionAboutOtherValue local_sample 10 9 4 0 = Some (local_sample, 10, 10)"
    using w by simp
  show ?thesis by (intro conjI ok w1 w2 w3)
qed

section \<open>Selection\<close>

text \<open>
  What lies outside this process and outside the sources.  \<open>SampleBelow\<close> and
  \<open>SampleAbove\<close> stand for the two floating-point expressions of the Floyd-Rivest sample,
  \<open>static_cast<int>(I * ((float)S / N)) - SD\<close> and
  \<open>static_cast<int>((N - I) * ((float)S / N)) + SD\<close>, as functions of \<open>N\<close> and \<open>I\<close>.
  \<open>AmongProcesses\<close> is \<open>PartitionSubArray\<close> for a process that is not the single owner of
  the range: the result it is sent, or that of the redistribution between the owners.
  \<open>Heard p g d\<close> is the coordinate that process \<open>p\<close> broadcasts for index \<open>g\<close>, and
  \<open>LeastOfOthers K d\<close> the smallest contribution of the other members of the sub-group
  to the \<open>ReduceMin\<close> of \<open>Select\<close>.
\<close>

record World =
  SampleBelow :: "int \<Rightarrow> int \<Rightarrow> int"
  SampleAbove :: "int \<Rightarrow> int \<Rightarrow> int"
  AmongProcesses :: "PKdTree \<Rightarrow> int \<Rightarrow> int \<Rightarrow> int \<Rightarrow> int \<Rightarrow> int \<Rightarrow> int \<Rightarrow> (PKdTree \<times> int \<times> int) option"
  Heard :: "int \<Rightarrow> int \<Rightarrow> int \<Rightarrow> real"
  LeastOfOthers :: "int \<Rightarrow> int \<Rightarrow> int"

definition PartitionSubArray ::
  "World \<Rightarrow> PKdTree \<Rightarrow> int \<Rightarrow> int \<Rightarrow> int \<Rightarrow> int \<Rightarrow> int \<Rightarrow> int \<Rightarrow> (PKdTree \<times> int \<times> int) option" where
  "PartitionSubArray w t L R K dm p1 p2 =
     (let me = MyId t in
      if me < p1 \<or> me > p2 then AmongProcesses w t L R K dm p1 p2
      else if p1 = p2 then PartitionAboutMyValue t L R K dm
      else AmongProcesses w t L R K dm p1 p2)"

partial_function (option) u_select ::
  "World \<Rightarrow> PKdTree \<Rightarrow> int \<Rightarrow> int \<Rightarrow> int \<Rightarrow> int \<Rightarrow> PKdTree option" where
  "u_select w t L R K dm =
     (if R > L then
        Option.bind
          (if R - L > 600 then
             (let N = R - L + 1; I = K - L + 1;
                  LL = max L (K - SampleBelow w N I);
                  RR = min R (K + SampleAbove w N I)
              in u_select w t LL RR K dm)
           else Some t)
          (\<lambda>t. Option.bind (WhoHas t L) (\<lambda>p1. Option.bind (WhoHas t R) (\<lambda>p2.
             Option.bind (PartitionSubArray w t L R K dm p1 p2) (\<lambda>r.
               case r of (t, I, J) \<Rightarrow>
                 if K \<ge> J then u_select w t J R K dm
                 else if K \<ge> I then u_select w t R R K dm
                 else u_select w t L (I - 1) K dm))))
      else Some t)"

subsection \<open>Selection inside one process\<close>





text \<open>
  \<open>sample_ok\<close>: the sample interval reaches no further down than \<open>K\<close>, no further up, and
  is shorter than the range.
\<close>

definition sample_ok :: "World \<Rightarrow> bool" where
  "sample_ok w \<longleftrightarrow>
     (\<forall>N I. 601 < N \<and> 1 \<le> I \<and> I \<le> N \<longrightarrow>
        0 \<le> SampleBelow w N I \<and> 0 \<le> SampleAbove w N I \<and>
        SampleBelow w N I + SampleAbove w N I < N - 1)"





lemma u_select_done: "R \<le> L \<Longrightarrow> u_select w t L R K dm = Some t"
  by (subst u_select.simps) simp


subsection \<open>Selection over several processes\<close>

text \<open>
  \<open>same_directory t t'\<close>: only the points of the local array differ, and their number does
  not.  \<open>directory_ok\<close>: the directory is as \<open>BuildGlobalIndexLists\<close> leaves it.  \<open>here t s\<close>:
  the entries of this process in the directory describe its local array.
\<close>

definition same_directory :: "PKdTree \<Rightarrow> PKdTree \<Rightarrow> bool" where
  "same_directory t t' \<longleftrightarrow>
     t' = t\<lparr>CurrentPtArray := CurrentPtArray t'\<rparr> \<and>
     length (CurrentPtArray t') = length (CurrentPtArray t)"

definition directory_ok :: "PKdTree \<Rightarrow> bool" where
  "directory_ok t \<longleftrightarrow>
     0 < NumProcesses t \<and> length (StartVal t) = nat (NumProcesses t) \<and>
     StartVal t ! 0 = 0 \<and>
     (\<forall>i j. i \<le> j \<and> j < length (StartVal t) \<longrightarrow> StartVal t ! i \<le> StartVal t ! j)"

definition here :: "PKdTree \<Rightarrow> int \<Rightarrow> bool" where
  "here t s \<longleftrightarrow>
     local_ok t s \<and> 0 \<le> MyId t \<and> MyId t < NumProcesses t \<and>
     (if MyId t + 1 < NumProcesses t
      then StartVal t ! nat (MyId t + 1) = s + int (length (CurrentPtArray t))
      else TotalNumCells t = s + int (length (CurrentPtArray t)))"

text \<open>
  \<open>among_ok\<close>: what the partition between processes is taken to deliver, a block of the
  pivot's values that is not empty and lies inside the range, the directory untouched.
\<close>

definition among_ok :: "World \<Rightarrow> int \<Rightarrow> bool" where
  "among_ok w dm \<longleftrightarrow>
     (\<forall>t L R K p1 p2. L \<le> K \<and> K \<le> R \<longrightarrow>
        (\<exists>t' I J. AmongProcesses w t L R K dm p1 p2 = Some (t', I, J) \<and>
           same_directory t t' \<and> L \<le> I \<and> I < J \<and> J \<le> R + 1))"

lemma same_directory_refl [simp]: "same_directory t t"
  by (simp add: same_directory_def)

lemma same_directory_trans:
  "same_directory t t1 \<Longrightarrow> same_directory t1 t2 \<Longrightarrow> same_directory t t2"
  unfolding same_directory_def
  by (metis (no_types, lifting) PKdTree.surjective PKdTree.update_convs(7))

lemma rearranged_same_directory: "rearranged s lo hi t t' \<Longrightarrow> same_directory t t'"
  by (simp add: rearranged_def same_directory_def)

lemma same_directory_frame:
  assumes "same_directory t t'"
  shows "StartVal t' = StartVal t" "EndVal t' = EndVal t" "MyId t' = MyId t"
    "NumProcesses t' = NumProcesses t" "TotalNumCells t' = TotalNumCells t"
    "length (CurrentPtArray t') = length (CurrentPtArray t)"
proof -
  from assms have e: "t' = t\<lparr>CurrentPtArray := CurrentPtArray t'\<rparr>"
    and l: "length (CurrentPtArray t') = length (CurrentPtArray t)"
    by (simp_all add: same_directory_def)
  from e have "StartVal t' = StartVal (t\<lparr>CurrentPtArray := CurrentPtArray t'\<rparr>)"
    by (rule arg_cong)
  then show "StartVal t' = StartVal t" by simp
  from e have "EndVal t' = EndVal (t\<lparr>CurrentPtArray := CurrentPtArray t'\<rparr>)"
    by (rule arg_cong)
  then show "EndVal t' = EndVal t" by simp
  from e have "MyId t' = MyId (t\<lparr>CurrentPtArray := CurrentPtArray t'\<rparr>)"
    by (rule arg_cong)
  then show "MyId t' = MyId t" by simp
  from e have "NumProcesses t' = NumProcesses (t\<lparr>CurrentPtArray := CurrentPtArray t'\<rparr>)"
    by (rule arg_cong)
  then show "NumProcesses t' = NumProcesses t" by simp
  from e have "TotalNumCells t' = TotalNumCells (t\<lparr>CurrentPtArray := CurrentPtArray t'\<rparr>)"
    by (rule arg_cong)
  then show "TotalNumCells t' = TotalNumCells t" by simp
  show "length (CurrentPtArray t') = length (CurrentPtArray t)" by (rule l)
qed

lemma same_directory_ok: "same_directory t t' \<Longrightarrow> directory_ok t' = directory_ok t"
  by (simp add: directory_ok_def same_directory_frame)

lemma same_directory_here: "same_directory t t' \<Longrightarrow> here t' s = here t s"
  by (simp add: here_def local_ok_def same_directory_frame)

lemma WhoHas_total:
  assumes d: "directory_ok t" and g: "0 \<le> g" "g < TotalNumCells t"
  shows "\<exists>p. WhoHas t g = Some p \<and> 0 \<le> p \<and> p < NumProcesses t \<and> StartVal t ! nat p \<le> g \<and>
             (p + 1 < NumProcesses t \<longrightarrow> g < StartVal t ! nat (p + 1))"
proof -
  from d have P: "0 < NumProcesses t" and len: "length (StartVal t) = nat (NumProcesses t)"
    and z: "StartVal t ! 0 = 0"
    and mono: "\<And>i j. i \<le> j \<Longrightarrow> j < length (StartVal t) \<Longrightarrow> StartVal t ! i \<le> StartVal t ! j"
    by (simp_all add: directory_ok_def)
  have a: "(0::int) \<le> NumProcesses t - 1" "NumProcesses t - 1 < int (length (StartVal t))"
    using P len by simp_all
  have b: "StartVal t ! nat 0 \<le> g" using z g by simp
  have c: "NumProcesses t - 1 + 1 < int (length (StartVal t)) \<longrightarrow>
           g < StartVal t ! nat (NumProcesses t - 1 + 1)"
    using len P by simp
  from u_whoHas_finds [of "StartVal t" 0 "NumProcesses t - 1" g, OF mono _ a b c]
  obtain p where p: "u_whoHas (StartVal t) 0 (NumProcesses t - 1) g = Some p" "0 \<le> p"
    "p \<le> NumProcesses t - 1" "StartVal t ! nat p \<le> g"
    "p + 1 < int (length (StartVal t)) \<longrightarrow> g < StartVal t ! nat (p + 1)"
    by auto
  have "WhoHas t g = Some p" using g p(1) by (simp add: WhoHas_def)
  moreover have "p + 1 < NumProcesses t \<longrightarrow> g < StartVal t ! nat (p + 1)"
    using p(5) len P by simp
  ultimately show ?thesis using p(2,3,4) by auto
qed

lemma WhoHas_me_local:
  assumes d: "directory_ok t" and h: "here t s" and g: "0 \<le> g" "g < TotalNumCells t"
    and w: "WhoHas t g = Some (MyId t)"
  shows "in_local t s g"
proof -
  from WhoHas_total [OF d g] w
  have lo: "StartVal t ! nat (MyId t) \<le> g"
    and hi: "MyId t + 1 < NumProcesses t \<longrightarrow> g < StartVal t ! nat (MyId t + 1)"
    by auto
  from h have me: "0 \<le> MyId t" "MyId t < NumProcesses t"
    and sv: "vec_get (StartVal t) (MyId t) = Some s"
    and nx: "if MyId t + 1 < NumProcesses t
      then StartVal t ! nat (MyId t + 1) = s + int (length (CurrentPtArray t))
      else TotalNumCells t = s + int (length (CurrentPtArray t))"
    by (simp_all add: here_def local_ok_def)
  from d have len: "length (StartVal t) = nat (NumProcesses t)" by (simp add: directory_ok_def)
  have "StartVal t ! nat (MyId t) = s" using sv me len by (simp add: vec_get_def)
  with lo have "s \<le> g" by simp
  moreover have "g < s + int (length (CurrentPtArray t))"
  proof (cases "MyId t + 1 < NumProcesses t")
    case True
    with hi nx show ?thesis by simp
  next
    case False
    with nx g(2) show ?thesis by simp
  qed
  ultimately show ?thesis by (simp add: in_local_def)
qed

lemma PartitionSubArray_returns:
  assumes dm: "0 \<le> dm" "dm \<le> 2" and am: "among_ok w dm"
    and d: "directory_ok t" and h: "here t s"
    and b: "0 \<le> L" "L \<le> K" "K \<le> R" "R < TotalNumCells t"
    and w: "WhoHas t L = Some p1" "WhoHas t R = Some p2"
  shows "\<exists>t' I J. PartitionSubArray w t L R K dm p1 p2 = Some (t', I, J) \<and>
           same_directory t t' \<and> L \<le> I \<and> I < J \<and> J \<le> R + 1"
proof (cases "MyId t < p1 \<or> MyId t > p2 \<or> p1 \<noteq> p2")
  case True
  then have "PartitionSubArray w t L R K dm p1 p2 = AmongProcesses w t L R K dm p1 p2"
    by (auto simp: PartitionSubArray_def Let_def)
  moreover from am b(2,3)
  have "\<exists>t' I J. AmongProcesses w t L R K dm p1 p2 = Some (t', I, J) \<and>
           same_directory t t' \<and> L \<le> I \<and> I < J \<and> J \<le> R + 1"
    unfolding among_ok_def by blast
  ultimately show ?thesis by simp
next
  case False
  then have p: "p1 = MyId t" "p2 = MyId t" by simp_all
  have e: "PartitionSubArray w t L R K dm p1 p2 = PartitionAboutMyValue t L R K dm"
    using p by (simp add: PartitionSubArray_def)
  have L0: "L < TotalNumCells t" and R0: "0 \<le> R" using b by simp_all
  have inL: "in_local t s L" using WhoHas_me_local [OF d h b(1) L0] w(1) p by simp
  have inR: "in_local t s R" using WhoHas_me_local [OF d h R0 b(4)] w(2) p by simp
  from inL have sL: "s \<le> L" by (simp add: in_local_def)
  from inR have Rn: "R < s + int (length (CurrentPtArray t))" by (simp add: in_local_def)
  from h have ok: "local_ok t s" by (simp add: here_def)
  from PartitionAboutMyValue_spec [OF dm ok sL b(2,3) Rn]
  obtain t' I J where r: "PartitionAboutMyValue t L R K dm = Some (t', I, J)"
    "rearranged s L R t t'" "I < J" "three_way t' s dm (kv t s dm K) L R I J"
    by blast
  from r(4) have "L \<le> I" "J \<le> R + 1" by (simp_all add: three_way_def)
  with r(1,3) rearranged_same_directory [OF r(2)] show ?thesis unfolding e by blast
qed

text \<open>
  The loop as one process runs it.  \<open>_select(L, R, K, dim)\<close> returns for every
  \<open>L \<le> K \<le> R\<close> inside the global array once the partition between processes and the
  bounds of the sample are as \<open>among_ok\<close> and \<open>sample_ok\<close> say: each pass partitions about
  the value at \<open>K\<close>, the block \<open>[I, J)\<close> of that value is not empty and lies in the range,
  so the pass moves \<open>L\<close> up to \<open>J\<close>, or moves \<open>R\<close> down to \<open>I - 1\<close>, or ends the loop.  When
  one process owns the whole range the partition is \<open>PartitionAboutMyValue\<close>.
\<close>

lemma u_select_returns:
  assumes "0 \<le> dm" "dm \<le> 2" and "sample_ok w" and "among_ok w dm"
  shows "directory_ok t \<Longrightarrow> here t s \<Longrightarrow> 0 \<le> L \<Longrightarrow> L \<le> K \<Longrightarrow> K \<le> R \<Longrightarrow>
    R < TotalNumCells t \<Longrightarrow>
    \<exists>t'. u_select w t L R K dm = Some t' \<and> same_directory t t'"
proof (induction "nat (R - L)" arbitrary: t L R rule: less_induct)
  case less
  note d = less.prems(1) and h = less.prems(2) and L0 = less.prems(3)
    and LK = less.prems(4) and KR = less.prems(5) and Rn = less.prems(6)
  note dm = assms(1,2) and smp = assms(3) and am = assms(4)
  show ?case
  proof (cases "R > L")
    case False
    then show ?thesis using u_select_done [of R L w t K dm] by simp
  next
    case True
    let ?N = "R - L + 1" and ?I = "K - L + 1"
    let ?LL = "max L (K - SampleBelow w ?N ?I)" and ?RR = "min R (K + SampleAbove w ?N ?I)"
    let ?pre = "if R - L > 600 then u_select w t ?LL ?RR K dm else Some t"
    have "\<exists>t0. ?pre = Some t0 \<and> same_directory t t0"
    proof (cases "R - L > 600")
      case False
      then show ?thesis by simp
    next
      case big: True
      have "601 < ?N \<and> 1 \<le> ?I \<and> ?I \<le> ?N" using big LK KR by simp
      with smp have a: "0 \<le> SampleBelow w ?N ?I" "0 \<le> SampleAbove w ?N ?I"
        "SampleBelow w ?N ?I + SampleAbove w ?N ?I < ?N - 1"
        unfolding sample_ok_def by blast+
      have c: "L \<le> ?LL" "?LL \<le> K" "K \<le> ?RR" "?RR \<le> R" using a LK KR by simp_all
      have m: "nat (?RR - ?LL) < nat (R - L)" using a c True by linarith
      have LL0: "0 \<le> ?LL" using L0 c(1) by linarith
      have RRn: "?RR < TotalNumCells t" using Rn c(4) by linarith
      from less.hyps [OF m d h LL0 c(2) c(3) RRn] big show ?thesis by simp
    qed
    then obtain t0 where t0: "?pre = Some t0" "same_directory t t0" by blast
    have d0: "directory_ok t0" using same_directory_ok [OF t0(2)] d by simp
    have h0: "here t0 s" using same_directory_here [OF t0(2)] h by simp
    have R0: "R < TotalNumCells t0" using same_directory_frame(5) [OF t0(2)] Rn by simp
    have "L < TotalNumCells t0" "0 \<le> R" using R0 True L0 by simp_all
    with WhoHas_total [OF d0 L0] WhoHas_total [OF d0 _ R0]
    obtain p1 p2 where w: "WhoHas t0 L = Some p1" "WhoHas t0 R = Some p2" by blast
    from PartitionSubArray_returns [OF dm am d0 h0 L0 LK KR R0 w]
    obtain t1 I J where p: "PartitionSubArray w t0 L R K dm p1 p2 = Some (t1, I, J)"
      "same_directory t0 t1" "L \<le> I" "I < J" "J \<le> R + 1"
      by blast
    have unf: "u_select w t L R K dm =
        (if K \<ge> J then u_select w t1 J R K dm
         else if K \<ge> I then u_select w t1 R R K dm
         else u_select w t1 L (I - 1) K dm)"
      apply (subst u_select.simps)
      apply (simp only: True if_True Let_def)
      apply (simp only: t0(1))
      apply (simp add: w p(1))
      done
    have sd: "same_directory t t1" by (rule same_directory_trans [OF t0(2) p(2)])
    have d1: "directory_ok t1" using same_directory_ok [OF p(2)] d0 by simp
    have h1: "here t1 s" using same_directory_here [OF p(2)] h0 by simp
    have R1: "R < TotalNumCells t1" using same_directory_frame(5) [OF p(2)] R0 by simp
    consider (up) "J \<le> K" | (hit) "I \<le> K" "K < J" | (down) "K < I" by linarith
    then show ?thesis
    proof cases
      case up
      have m: "nat (R - J) < nat (R - L)" using p(3,4) up KR by linarith
      have J0: "0 \<le> J" using L0 p(3,4) by linarith
      from less.hyps [OF m d1 h1 J0 up KR R1]
      obtain t2 where r: "u_select w t1 J R K dm = Some t2" "same_directory t1 t2" by blast
      from same_directory_trans [OF sd r(2)] r(1) up show ?thesis unfolding unf by simp
    next
      case hit
      have "u_select w t L R K dm = Some t1"
        unfolding unf using hit by (simp add: u_select_done)
      with sd show ?thesis by simp
    next
      case down
      have IR: "I - 1 < R" using p(4,5) by linarith
      have m: "nat (I - 1 - L) < nat (R - L)" using IR down LK by linarith
      have KI: "K \<le> I - 1" using down by simp
      have I1: "I - 1 < TotalNumCells t1" using IR R1 by linarith
      from less.hyps [OF m d1 h1 L0 LK KI I1]
      obtain t2 where r: "u_select w t1 L (I - 1) K dm = Some t2" "same_directory t1 t2"
        by blast
      have "\<not> J \<le> K" "\<not> I \<le> K" using down p(4) by simp_all
      with same_directory_trans [OF sd r(2)] r(1) show ?thesis unfolding unf by simp
    qed
  qed
qed

text \<open>No sampling offsets, and between processes the block is the one index \<open>K\<close>.\<close>

definition still_world :: World where
  "still_world = \<lparr>SampleBelow = (\<lambda>N I. 0), SampleAbove = (\<lambda>N I. 0),
     AmongProcesses = (\<lambda>t L R K dm p1 p2. Some (t, K, K + 1)),
     Heard = (\<lambda>p g d. 0), LeastOfOthers = (\<lambda>K d. 0)\<rparr>"

lemma u_select_returns_sample:
  "sample_ok still_world \<and> among_ok still_world 0 \<and> directory_ok local_sample \<and>
   here local_sample 10 \<and>
   (\<exists>t'. u_select still_world local_sample 10 12 11 0 = Some t' \<and>
           same_directory local_sample t')"
proof -
  have a: "sample_ok still_world" by (simp add: sample_ok_def still_world_def)
  have b: "among_ok still_world 0" by (simp add: among_ok_def still_world_def)
  have c: "directory_ok local_sample"
    unfolding directory_ok_def
  proof (intro conjI allI impI)
    fix i j :: nat assume "i \<le> j \<and> j < length (StartVal local_sample)"
    then have "j < 2" "i \<le> j" by (simp_all add: local_sample_def)
    then consider "i = 0" "j = 0" | "i = 0" "j = 1" | "i = 1" "j = 1" by linarith
    then show "StartVal local_sample ! i \<le> StartVal local_sample ! j"
      by cases (simp_all add: local_sample_def)
  qed (simp_all add: local_sample_def)
  have d: "here local_sample 10"
    by (simp add: here_def local_ok_def local_sample_def vec_get_def)
  have e: "(12::int) < TotalNumCells local_sample" by (simp add: local_sample_def)
  from u_select_returns [of 0 still_world local_sample 10 10 11 12, OF _ _ a b c d _ _ _ e]
  have "\<exists>t'. u_select still_world local_sample 10 12 11 0 = Some t' \<and>
           same_directory local_sample t'"
    by simp
  with a b c d show ?thesis by simp
qed

section \<open>The split index\<close>

text \<open>
  Integer division of C truncates towards zero, and the sum of two \<open>int\<close> is an \<open>int\<close>:
  \<open>c_add\<close> wraps it into the 32 bits of the type, as two's complement hardware does where
  the language leaves the overflow undefined.  \<open>Select\<close> runs \<open>_select\<close> for the index
  \<open>K\<close> past the middle and then rolls \<open>K\<close> back over the values equal to the one at \<open>K\<close>.
  The sub-group of the object is the pair \<open>sg\<close> of its first and last process.
  \<open>read_and_Broadcast\<close> is the read of a coordinate by its owner followed by the
  \<open>Broadcast\<close> from the owner: this process's own value if it is the owner, and \<open>Heard\<close>
  otherwise.  The \<open>ReduceMin\<close> of a sub-group of one process is that process's
  contribution.
\<close>

definition c_div :: "int \<Rightarrow> int \<Rightarrow> int" where
  "c_div a b = sgn a * sgn b * (\<bar>a\<bar> div \<bar>b\<bar>)"

definition c_add :: "int \<Rightarrow> int \<Rightarrow> int" where
  "c_add a b = (a + b + 2147483648) mod 4294967296 - 2147483648"

function roll_back ::
  "PKdTree \<Rightarrow> int \<Rightarrow> real \<Rightarrow> int \<Rightarrow> int \<times> ptr \<times> int \<Rightarrow> int option" where
  "roll_back t dm Kval finish (idx, pt, firstKval) =
     (if idx \<ge> finish then
        (let pt = advance pt (- 1) in
         case deref t pt dm of
           None \<Rightarrow> None
         | Some v \<Rightarrow>
             if v < Kval then Some firstKval
             else roll_back t dm Kval finish (idx - 1, pt, firstKval - 1))
      else Some firstKval)"
  by pat_completeness auto
termination
  by (relation "measure (\<lambda>(t, dm, Kval, finish, idx, pt, f). nat (idx - finish + 1))") auto

definition read_and_Broadcast :: "World \<Rightarrow> PKdTree \<Rightarrow> int \<Rightarrow> int \<Rightarrow> int \<Rightarrow> real option" where
  "read_and_Broadcast w t p g dm =
     (if p = MyId t then do { pt \<leftarrow> GetLocalVal t g; deref t pt dm }
      else Some (Heard w p g dm))"

definition ReduceMin :: "World \<Rightarrow> int \<times> int \<Rightarrow> int \<Rightarrow> int \<Rightarrow> int \<Rightarrow> int" where
  "ReduceMin w sg v K dm = (if fst sg = snd sg then v else min v (LeastOfOthers w K dm))"

definition first_of_run :: "PKdTree \<Rightarrow> int \<Rightarrow> int \<Rightarrow> real \<Rightarrow> int \<Rightarrow> int option" where
  "first_of_run t dm K Kval hasKleft =
     (if MyId t \<le> hasKleft then do {
        n \<leftarrow> vec_get (NumCells t) (MyId t);
        if n > 0 then do {
          e \<leftarrow> vec_get (EndVal t) (MyId t);
          let start = (if e > K - 1 then K - 1 else e);
          pt \<leftarrow> GetLocalVal t start;
          v \<leftarrow> deref t pt dm;
          if v = Kval then do {
            finish \<leftarrow> vec_get (StartVal t) (MyId t);
            roll_back t dm Kval finish (start - 1, pt, start)
          } else Some (TotalNumCells t)
        } else Some (TotalNumCells t)
      } else Some (TotalNumCells t))"

definition Select ::
  "World \<Rightarrow> PKdTree \<Rightarrow> int \<times> int \<Rightarrow> int \<Rightarrow> int \<Rightarrow> int \<Rightarrow> (PKdTree \<times> int) option" where
  "Select w t0 sg dm L R =
     (let K = c_add (c_div (c_add R L) 2) 1 in do {
        t \<leftarrow> u_select w t0 L R K dm;
        if K = L then Some (t, K)
        else do {
          hasK \<leftarrow> WhoHas t K;
          hasKleft \<leftarrow> WhoHas t (K - 1);
          Kval \<leftarrow> read_and_Broadcast w t hasK K dm;
          Kleftval \<leftarrow> read_and_Broadcast w t hasKleft (K - 1) dm;
          if Kleftval \<noteq> Kval then Some (t, K)
          else do {
            firstKval \<leftarrow> first_of_run t dm K Kval hasKleft;
            Some (t, ReduceMin w sg firstKval K dm)
          }
        }
      })"

declare roll_back.simps [simp del]

subsection \<open>Rolling back inside one process\<close>








subsection \<open>The element of a given rank\<close>








subsection \<open>Select inside one process\<close>








section \<open>Dividing a region\<close>

text \<open>
  What \<open>DivideRegion\<close> and \<open>BreadthFirstDivide\<close> use from outside the sources: the test
  \<open>DivideTest\<close> and the choice \<open>SelectCutDirection\<close> of the base class, the fields of a
  node fresh from \<open>vtkKdNode::New\<close>, and the sum \<open>ReduceSum\<close> of the error codes of the
  sub-group as the first of its processes broadcasts it.  Two more are taken as they come:
  the floating-point mean \<open>(a + b) * 0.5\<close>, and the twelve numbers that \<open>GetDataBounds\<close>
  leaves in its array, by their index, which are minima and maxima reduced over the
  sub-group.  The three directions are numbered 0, 1 and 2.
\<close>

record Helpers =
  DivideTest :: "int \<Rightarrow> int \<Rightarrow> bool"
  SelectCutDirection :: "KdNode \<Rightarrow> int"
  NewNode :: NodeData
  ReduceSum :: "PKdTree \<Rightarrow> int \<Rightarrow> int"
  Mean :: "double \<Rightarrow> double \<Rightarrow> double"
  GetDataBounds :: "PKdTree \<Rightarrow> int \<Rightarrow> int \<Rightarrow> int \<Rightarrow> nat \<Rightarrow> double"

text \<open>
  The indices and counts of \<open>DivideRegion\<close> are values of the type \<open>int\<close>.  Where a sum
  or a difference of them leaves the range of the type the language defines no result,
  and neither does the model: \<open>as_int\<close> is \<open>None\<close> there.
\<close>

definition as_int :: "int \<Rightarrow> int option" where
  "as_int x = (if c_int x then Some x else None)"

definition XDIM :: int where "XDIM = 0"
definition YDIM :: int where "YDIM = 1"
definition ZDIM :: int where "ZDIM = 2"

definition AllCheckForFailure :: "Helpers \<Rightarrow> PKdTree \<Rightarrow> int \<Rightarrow> bool" where
  "AllCheckForFailure h t rc =
     (let vote = (if NumProcesses t > 1 then ReduceSum h t rc else rc) in vote \<noteq> 0)"

definition SetDim :: "int \<Rightarrow> KdNode \<Rightarrow> KdNode" where
  "SetDim d kd = update_data (\<lambda>n. n\<lparr>Dim := d\<rparr>) kd"

definition GetBounds :: "NodeData \<Rightarrow> double list" where
  "GetBounds n = [vget (MinBounds n) 0, vget (MaxBounds n) 0, vget (MinBounds n) 1,
                  vget (MaxBounds n) 1, vget (MinBounds n) 2, vget (MaxBounds n) 2]"

text \<open>
  The two children of a divided node: their bounds are those of the parent cutAt at the
  coordinate \<open>cutAt\<close> along \<open>maxdim\<close>, their point counts and data bounds are as given.
\<close>

definition AddChildNodes ::
  "Helpers \<Rightarrow> KdNode \<Rightarrow> int \<Rightarrow> double \<Rightarrow> int \<Rightarrow> int \<Rightarrow> double list \<Rightarrow> double list
     \<Rightarrow> KdNode option" where
  "AddChildNodes h kd maxdim cutAt nl nr dl dr =
     (case (GetBounds (node_data kd), dl, dr) of
        ([b0, b1, b2, b3, b4, b5], [l0, l1, l2, l3, l4, l5], [r0, r1, r2, r3, r4, r5]) \<Rightarrow>
          Some (Branch (node_data kd)
            (Leaf (SetDataBounds l0 l1 l2 l3 l4 l5
               ((SetBounds b0 (if maxdim = XDIM then cutAt else b1)
                           b2 (if maxdim = YDIM then cutAt else b3)
                           b4 (if maxdim = ZDIM then cutAt else b5) (NewNode h))
                  \<lparr>NumberOfPoints := nl\<rparr>)))
            (Leaf (SetDataBounds r0 r1 r2 r3 r4 r5
               ((SetBounds (if maxdim = XDIM then cutAt else b0) b1
                           (if maxdim = YDIM then cutAt else b2) b3
                           (if maxdim = ZDIM then cutAt else b4) b5 (NewNode h))
                  \<lparr>NumberOfPoints := nr\<rparr>))))
      | _ \<Rightarrow> None)"

text \<open>The special case of \<open>DivideRegion\<close> for fewer than two points.\<close>

definition divide_few ::
  "Helpers \<Rightarrow> PKdTree \<Rightarrow> KdNode \<Rightarrow> int \<Rightarrow> int \<Rightarrow> (PKdTree \<times> KdNode \<times> int) option" where
  "divide_few h t kd L numpoints = do {
     p \<leftarrow> WhoHas t L;
     if MyId t \<noteq> p then Some (t, kd, - 1)
     else do {
       let maxdim = SelectCutDirection h kd;
       let kd = SetDim maxdim kd;
       let bounds = GetBounds (node_data kd);
       val \<leftarrow> GetLocalVal t L;
       cutAt \<leftarrow> (if numpoints > 0 then map_option Finite (deref t val maxdim)
                  else do {
                    a \<leftarrow> vec_get bounds (maxdim * 2);
                    b \<leftarrow> vec_get bounds (maxdim * 2 + 1);
                    Some (Mean h a b)
                  });
       v0 \<leftarrow> deref t val 0;
       v1 \<leftarrow> deref t val 1;
       v2 \<leftarrow> deref t val 2;
       let db = map Finite [v0, v0, v1, v1, v2, v2];
       kd \<leftarrow> AddChildNodes h kd maxdim cutAt numpoints 0 db db;
       Some (t, kd, L)
     }
   }"

text \<open>
  The search for another direction when \<open>Select\<close> could not divide: \<open>next_direction\<close> is
  the inner \<open>do\<close> loop, with \<open>None\<close> for its jump out of both loops.
\<close>

function next_direction :: "PKdTree \<Rightarrow> int \<Rightarrow> int \<Rightarrow> int option" where
  "next_direction t maxdim newdim =
     (let newdim = newdim + 1 in
      if newdim > ZDIM then None
      else if newdim = maxdim \<or> \<not> bit (ValidDirections t) (nat newdim)
           then next_direction t maxdim newdim
           else Some newdim)"
  by pat_completeness auto
termination
  by (relation "measure (\<lambda>(t, maxdim, newdim). nat (3 - newdim))") (auto simp: ZDIM_def)

lemma as_int_Some: "as_int x = Some y \<Longrightarrow> y = x \<and> - 2147483648 \<le> x \<and> x \<le> 2147483647"
  by (simp add: as_int_def c_int_def split: if_splits)

lemma map_upt_12:
  "map f [0..<12] = [f 0, f 1, f 2, f 3, f 4, f 5, f 6, f 7, f 8, f 9, f 10, f 11]"
  by (simp add: numeral_eq_Suc upt_rec)

lemma next_direction_bounds:
  "next_direction t maxdim newdim = Some d \<Longrightarrow> newdim < d \<and> d \<le> 2"
proof (induction t maxdim newdim rule: next_direction.induct)
  case (1 t maxdim newdim)
  show ?case
  proof (cases "newdim + 1 > ZDIM")
    case True
    with "1.prems" show ?thesis by (simp add: Let_def)
  next
    case False
    show ?thesis
    proof (cases "newdim + 1 = maxdim \<or> \<not> bit (ValidDirections t) (nat (newdim + 1))")
      case True
      with False "1.prems" have "next_direction t maxdim (newdim + 1) = Some d"
        by (simp add: Let_def)
      from "1.IH" [OF refl False True this] show ?thesis by simp
    next
      case no: False
      with False "1.prems" show ?thesis by (auto simp: Let_def ZDIM_def)
    qed
  qed
qed

function try_directions ::
  "World \<Rightarrow> PKdTree \<Rightarrow> int \<times> int \<Rightarrow> KdNode \<Rightarrow> int \<Rightarrow> int \<Rightarrow> int \<Rightarrow> int
     \<Rightarrow> (PKdTree \<times> KdNode \<times> int \<times> int) option" where
  "try_directions w t sg kd L R maxdim newdim =
     (case next_direction t maxdim newdim of
        None \<Rightarrow>
          (case as_int (L + R) of
             None \<Rightarrow> None
           | Some s \<Rightarrow> Some (t, SetDim maxdim kd, c_div s 2 + 1, maxdim))
      | Some d \<Rightarrow>
          (case Select w t sg d L R of
             None \<Rightarrow> None
           | Some (t', midpt) \<Rightarrow>
               if midpt < L + 1 then try_directions w t' sg (SetDim d kd) L R maxdim d
               else Some (t', SetDim d kd, midpt, d)))"
  by pat_completeness auto
termination
proof (relation "measure (\<lambda>(w, t, sg, kd, L, R, maxdim, newdim). nat (3 - newdim))", goal_cases)
  case 1
  show ?case by simp
next
  case (2 w t sg kd L R maxdim newdim d x t' midpt)
  from next_direction_bounds [OF 2(1)] show ?case by simp
qed

text \<open>
  The general case of \<open>DivideRegion\<close>.  The two nodes from \<open>vtkKdNode::New\<close> are never
  null, so the error code given to \<open>AllCheckForFailure\<close> is 0.
\<close>

definition divide_many ::
  "Helpers \<Rightarrow> World \<Rightarrow> PKdTree \<Rightarrow> KdNode \<Rightarrow> int \<Rightarrow> int
     \<Rightarrow> (PKdTree \<times> KdNode \<times> int) option" where
  "divide_many h w t kd L R = do {
     p1 \<leftarrow> WhoHas t L;
     p2 \<leftarrow> WhoHas t R;
     if MyId t < p1 \<or> MyId t > p2 then Some (t, kd, - 1)
     else do {
       let maxdim = SelectCutDirection h kd;
       let kd = SetDim maxdim kd;
       (t, midpt) \<leftarrow> Select w t (p1, p2) maxdim L R;
       (t, kd, midpt, maxdim) \<leftarrow>
          (if midpt < L + 1 then try_directions w t (p1, p2) kd L R maxdim (XDIM - 1)
           else Some (t, kd, midpt, maxdim));
       let newDataBounds = map (GetDataBounds h t L midpt R) [0..<12];
       if AllCheckForFailure h t 0 then Some (t, kd, - 3)
       else do {
         a \<leftarrow> vec_get newDataBounds (maxdim * 2 + 1);
         b \<leftarrow> vec_get newDataBounds (6 + maxdim * 2);
         nl \<leftarrow> as_int (midpt - L);
         d \<leftarrow> as_int (R - midpt);
         nr \<leftarrow> as_int (d + 1);
         kd \<leftarrow> AddChildNodes h kd maxdim (Mean h a b) nl nr
                 (take 6 newDataBounds) (drop 6 newDataBounds);
         Some (t, kd, midpt)
       }
     }
   }"

definition DivideRegion ::
  "Helpers \<Rightarrow> World \<Rightarrow> PKdTree \<Rightarrow> KdNode \<Rightarrow> int \<Rightarrow> int \<Rightarrow> int
     \<Rightarrow> (PKdTree \<times> KdNode \<times> int) option" where
  "DivideRegion h w t kd L level tag =
     (let numpoints = NumberOfPoints (node_data kd) in
      if \<not> DivideTest h numpoints level then Some (t, kd, - 1)
      else do {
        s \<leftarrow> as_int (L + numpoints);
        R \<leftarrow> as_int (s - 1);
        if numpoints < 2 then divide_few h t kd L numpoints
        else divide_many h w t kd L R
      })"

declare next_direction.simps [simp del] try_directions.simps [simp del]

section \<open>Building the tree breadth first\<close>

text \<open>
  A node of the tree under construction is addressed by the path that leads to it from
  the root, \<open>False\<close> for a step to the left child and \<open>True\<close> for a step to the right one;
  the queue of \<open>BreadthFirstDivide\<close> holds such paths where the source holds pointers.
  \<open>subtree\<close> reads the node at a path and \<open>replace\<close> stores a node there.
\<close>

fun subtree :: "KdNode \<Rightarrow> bool list \<Rightarrow> KdNode option" where
  "subtree n [] = Some n"
| "subtree (Leaf d) (b # bs) = None"
| "subtree (Branch d l r) (False # bs) = subtree l bs"
| "subtree (Branch d l r) (True # bs) = subtree r bs"

fun replace :: "KdNode \<Rightarrow> bool list \<Rightarrow> KdNode \<Rightarrow> KdNode option" where
  "replace n [] k = Some k"
| "replace (Leaf d) (b # bs) k = None"
| "replace (Branch d l r) (False # bs) k = map_option (\<lambda>l'. Branch d l' r) (replace l bs k)"
| "replace (Branch d l r) (True # bs) k = map_option (\<lambda>r'. Branch d l r') (replace r bs k)"

type_synonym vtkNodeInfo = "bool list \<times> int \<times> int \<times> int"

text \<open>
  The loop of \<open>BreadthFirstDivide\<close> over its queue.  The tree \<open>tree\<close> is the one \<open>Top\<close> points to;
  \<open>DivideRegion\<close> changes the node it is given in place.
\<close>

partial_function (option) divide_queue ::
  "Helpers \<Rightarrow> World \<Rightarrow> PKdTree \<times> KdNode \<times> vtkNodeInfo list \<times> int
     \<Rightarrow> (PKdTree \<times> KdNode \<times> int) option" where
  "divide_queue h w st =
     (case st of (t, tree, Queue, returnVal) \<Rightarrow>
        (case Queue of
           [] \<Rightarrow> Some (t, tree, returnVal)
         | info # rest \<Rightarrow>
             (case info of (path, L, level, tag) \<Rightarrow>
                Option.bind (subtree tree path) (\<lambda>kd.
                Option.bind (DivideRegion h w t kd L level tag) (\<lambda>res.
                  case res of (t, kd, midpt) \<Rightarrow>
                    Option.bind (replace tree path kd) (\<lambda>tree.
                      if midpt \<ge> 0 then
                        divide_queue h w
                          (t\<lparr>Top := Some tree\<rparr>, tree,
                           rest @ [(path @ [False], L, level + 1, push_bit 1 tag),
                                   (path @ [True], midpt, level + 1, push_bit 1 tag + 1)],
                           returnVal)
                      else
                        divide_queue h w
                          (t\<lparr>Top := Some tree\<rparr>, tree, rest,
                           if midpt < - 1 then 1 else returnVal)))))))"

definition BreadthFirstDivide ::
  "Helpers \<Rightarrow> World \<Rightarrow> PKdTree \<Rightarrow> double list \<Rightarrow> (PKdTree \<times> int) option" where
  "BreadthFirstDivide h w t volBounds =
     (case volBounds of
        [v0, v1, v2, v3, v4, v5] \<Rightarrow>
          (let kd = Leaf (SetDataBounds v0 v1 v2 v3 v4 v5
                     ((SetBounds v0 v1 v2 v3 v4 v5 (NewNode h))
                        \<lparr>NumberOfPoints := TotalNumCells t\<rparr>));
               t = t\<lparr>Top := Some kd\<rparr>
           in do {
             (t, kd, midpt) \<leftarrow> DivideRegion h w t kd 0 0 1;
             let t = t\<lparr>Top := Some kd\<rparr>;
             if midpt \<ge> 0 then do {
               (t, tree, returnVal) \<leftarrow>
                  divide_queue h w (t, kd, [([False], 0, 1, 2), ([True], midpt, 1, 3)], 0);
               Some (t, returnVal)
             }
             else if midpt < - 1 then Some (t, 1)
             else Some (t, 0)
           })
      | _ \<Rightarrow> None)"

subsection \<open>Point counts\<close>

fun counts_ok :: "KdNode \<Rightarrow> bool" where
  "counts_ok (Leaf d) = True"
| "counts_ok (Branch d l r) =
     (NumberOfPoints d = NumberOfPoints (node_data l) + NumberOfPoints (node_data r) \<and>
      counts_ok l \<and> counts_ok r)"

fun leaf_sum :: "KdNode \<Rightarrow> int" where
  "leaf_sum (Leaf d) = NumberOfPoints d"
| "leaf_sum (Branch d l r) = leaf_sum l + leaf_sum r"

lemma leaf_sum_counts_ok: "counts_ok n \<Longrightarrow> leaf_sum n = NumberOfPoints (node_data n)"
  by (induction n) simp_all

lemma subtree_counts_ok: "subtree n p = Some k \<Longrightarrow> counts_ok n \<Longrightarrow> counts_ok k"
  by (induction n p rule: subtree.induct) auto

lemma replace_counts_ok:
  "subtree n p = Some k \<Longrightarrow> replace n p k' = Some n' \<Longrightarrow> counts_ok n \<Longrightarrow> counts_ok k' \<Longrightarrow>
   NumberOfPoints (node_data k') = NumberOfPoints (node_data k) \<Longrightarrow>
   counts_ok n' \<and> NumberOfPoints (node_data n') = NumberOfPoints (node_data n)"
proof (induction n p arbitrary: n' rule: subtree.induct)
  case (1 n)
  then show ?case by simp
next
  case (2 d b bs)
  then show ?case by simp
next
  case (3 d l r bs)
  from "3.prems" obtain l' where l': "replace l bs k' = Some l'" "n' = Branch d l' r"
    by auto
  from "3.prems" have "subtree l bs = Some k" "counts_ok l" by simp_all
  from "3.IH" [OF this(1) l'(1) this(2) "3.prems"(4,5)]
  have "counts_ok l'" "NumberOfPoints (node_data l') = NumberOfPoints (node_data l)"
    by simp_all
  with "3.prems"(3) l'(2) show ?case by simp
next
  case (4 d l r bs)
  from "4.prems" obtain r' where r': "replace r bs k' = Some r'" "n' = Branch d l r'"
    by auto
  from "4.prems" have "subtree r bs = Some k" "counts_ok r" by simp_all
  from "4.IH" [OF this(1) r'(1) this(2) "4.prems"(4,5)]
  have "counts_ok r'" "NumberOfPoints (node_data r') = NumberOfPoints (node_data r)"
    by simp_all
  with "4.prems"(3) r'(2) show ?case by simp
qed

subsection \<open>What a division leaves\<close>

text \<open>
  \<open>redimensioned kd kd'\<close>: \<open>kd'\<close> is \<open>kd\<close> with at most another split dimension.
  \<open>halved n L m kd'\<close>: \<open>kd'\<close> has two new children which share the \<open>n\<close> points from index
  \<open>L\<close> on as \<open>DivideRegion\<close> returning \<open>m\<close> says.
\<close>

definition redimensioned :: "KdNode \<Rightarrow> KdNode \<Rightarrow> bool" where
  "redimensioned kd kd' \<longleftrightarrow> kd' = SetDim (Dim (node_data kd')) kd"

definition halved :: "int \<Rightarrow> int \<Rightarrow> int \<Rightarrow> KdNode \<Rightarrow> bool" where
  "halved n L m kd' \<longleftrightarrow>
     (\<exists>d l r. kd' = Branch d (Leaf l) (Leaf r) \<and> NumberOfPoints d = n \<and>
        NumberOfPoints l + NumberOfPoints r = n \<and>
        (if n < 2 then m = L \<and> NumberOfPoints l = n \<and> NumberOfPoints r = 0
         else NumberOfPoints l = m - L \<and> NumberOfPoints r = (L + n - 1) - m + 1))"

lemma node_data_SetDim [simp]: "node_data (SetDim d kd) = (node_data kd)\<lparr>Dim := d\<rparr>"
  by (cases kd) (simp_all add: SetDim_def)

lemma SetDim_SetDim [simp]: "SetDim a (SetDim b kd) = SetDim a kd"
  by (cases kd) (simp_all add: SetDim_def)

lemma redimensioned_refl [simp]: "redimensioned kd kd"
  by (cases kd) (simp_all add: redimensioned_def SetDim_def)

lemma redimensioned_SetDim: "redimensioned kd kd1 \<Longrightarrow> redimensioned kd (SetDim d kd1)"
proof -
  assume "redimensioned kd kd1"
  then have "kd1 = SetDim (Dim (node_data kd1)) kd" by (simp add: redimensioned_def)
  then have "SetDim d kd1 = SetDim d kd" by (metis SetDim_SetDim)
  then show ?thesis by (simp add: redimensioned_def)
qed

lemma redimensioned_points:
  "redimensioned kd kd' \<Longrightarrow> NumberOfPoints (node_data kd') = NumberOfPoints (node_data kd)"
proof -
  assume "redimensioned kd kd'"
  then have "kd' = SetDim (Dim (node_data kd')) kd" by (simp add: redimensioned_def)
  then have "node_data kd' = (node_data kd)\<lparr>Dim := Dim (node_data kd')\<rparr>"
    by (metis node_data_SetDim)
  then have "NumberOfPoints (node_data kd') =
             NumberOfPoints ((node_data kd)\<lparr>Dim := Dim (node_data kd')\<rparr>)"
    by (rule arg_cong)
  then show ?thesis by simp
qed

lemma redimensioned_counts_ok: "redimensioned kd kd' \<Longrightarrow> counts_ok kd \<Longrightarrow> counts_ok kd'"
proof -
  assume r: "redimensioned kd kd'" and c: "counts_ok kd"
  from r have e: "kd' = SetDim (Dim (node_data kd')) kd" by (simp add: redimensioned_def)
  have "counts_ok (SetDim x kd)" for x using c by (cases kd) (simp_all add: SetDim_def)
  with e show ?thesis by metis
qed

lemma AddChildNodes_children:
  assumes "AddChildNodes h kd md c nl nr dl dr = Some k"
  shows "\<exists>l r. k = Branch (node_data kd) (Leaf l) (Leaf r) \<and>
               NumberOfPoints l = nl \<and> NumberOfPoints r = nr"
proof -
  obtain b0 b1 b2 b3 b4 b5 where b: "GetBounds (node_data kd) = [b0, b1, b2, b3, b4, b5]"
    by (simp add: GetBounds_def)
  from assms obtain l0 l1 l2 l3 l4 l5 where l: "dl = [l0, l1, l2, l3, l4, l5]"
    unfolding AddChildNodes_def b by (auto split: list.splits)
  from assms obtain r0 r1 r2 r3 r4 r5 where r: "dr = [r0, r1, r2, r3, r4, r5]"
    unfolding AddChildNodes_def b l by (auto split: list.splits)
  from assms show ?thesis
    unfolding AddChildNodes_def b l r
    by (auto simp: SetBounds_def SetDataBounds_def)
qed

lemma try_directions_redimensioned:
  "try_directions w t sg kd L R maxdim newdim = Some (t', kd', m, d') \<Longrightarrow> redimensioned kd kd'"
proof (induction w t sg kd L R maxdim newdim rule: try_directions.induct)
  case (1 w t sg kd L R maxdim newdim)
  show ?case
  proof (cases "next_direction t maxdim newdim")
    case None
    with "1.prems" have "kd' = SetDim maxdim kd"
      by (subst (asm) try_directions.simps) (auto split: option.splits)
    then show ?thesis by (simp add: redimensioned_SetDim)
  next
    case (Some d)
    with "1.prems" obtain t1 midpt where s: "Select w t sg d L R = Some (t1, midpt)"
      by (subst (asm) try_directions.simps) (auto split: option.splits)
    show ?thesis
    proof (cases "midpt < L + 1")
      case True
      with "1.prems" Some s
      have "try_directions w t1 sg (SetDim d kd) L R maxdim d = Some (t', kd', m, d')"
        by (subst (asm) try_directions.simps) simp
      from "1.IH" [OF Some s refl True this]
      have "kd' = SetDim (Dim (node_data kd')) (SetDim d kd)" by (simp add: redimensioned_def)
      then show ?thesis by (simp add: redimensioned_def)
    next
      case False
      with "1.prems" Some s have "kd' = SetDim d kd"
        by (subst (asm) try_directions.simps) auto
      then show ?thesis by (simp add: redimensioned_SetDim)
    qed
  qed
qed

lemma divide_few_shape:
  assumes "divide_few h t kd L n = Some (t', kd', m)" and "n = NumberOfPoints (node_data kd)"
    and "n < 2"
  shows "(redimensioned kd kd' \<and> m = - 1) \<or> halved n L m kd'"
proof -
  from assms(1) obtain p where p: "WhoHas t L = Some p"
    by (auto simp: divide_few_def split: Option.bind_splits)
  show ?thesis
  proof (cases "MyId t = p")
    case False
    with assms(1) p show ?thesis by (simp add: divide_few_def)
  next
    case True
    let ?kd = "SetDim (SelectCutDirection h kd) kd"
    from assms(1) p True obtain c db where
      a: "AddChildNodes h ?kd (SelectCutDirection h kd) c n 0 db db = Some kd'" and mL: "m = L"
      by (auto simp: divide_few_def Let_def split: Option.bind_splits if_splits)
    from AddChildNodes_children [OF a] obtain l r where
      k: "kd' = Branch (node_data ?kd) (Leaf l) (Leaf r)" "NumberOfPoints l = n"
        "NumberOfPoints r = 0"
      by blast
    have "halved n L m kd'"
      unfolding halved_def using k mL assms(2,3) by simp
    then show ?thesis ..
  qed
qed

text \<open>The stages of the general case, for a process of the sub-group.\<close>

definition found ::
  "World \<Rightarrow> int \<times> int \<Rightarrow> KdNode \<Rightarrow> int \<Rightarrow> int \<Rightarrow> int \<Rightarrow> PKdTree \<Rightarrow> int
     \<Rightarrow> (PKdTree \<times> KdNode \<times> int \<times> int) option" where
  "found w sg kd L R maxdim t1 m1 =
     (if m1 < L + 1 then try_directions w t1 sg (SetDim maxdim kd) L R maxdim (XDIM - 1)
      else Some (t1, SetDim maxdim kd, m1, maxdim))"

lemma divide_many_stages:
  assumes "divide_many h w t kd L R = Some (t', kd', m)"
    and p: "WhoHas t L = Some p1" "WhoHas t R = Some p2"
    and inside: "\<not> (MyId t < p1 \<or> MyId t > p2)"
  shows "\<exists>t1 m1 kd2 m2 md2.
           Select w t (p1, p2) (SelectCutDirection h kd) L R = Some (t1, m1) \<and>
           found w (p1, p2) kd L R (SelectCutDirection h kd) t1 m1 = Some (t', kd2, m2, md2) \<and>
           (AllCheckForFailure h t' 0 \<and> kd' = kd2 \<and> m = - 3 \<or>
            \<not> AllCheckForFailure h t' 0 \<and> m = m2 \<and>
            (\<exists>l r. kd' = Branch (node_data kd2) (Leaf l) (Leaf r) \<and>
                   NumberOfPoints l = m2 - L \<and> NumberOfPoints r = R - m2 + 1))"
proof -
  let ?md = "SelectCutDirection h kd"
  let ?kd = "SetDim ?md kd"
  from assms(1) p inside obtain t1 m1 where s: "Select w t (p1, p2) ?md L R = Some (t1, m1)"
    by (auto simp: divide_many_def Let_def split: Option.bind_splits)
  let ?next = "if m1 < L + 1 then try_directions w t1 (p1, p2) ?kd L R ?md (XDIM - 1)
               else Some (t1, ?kd, m1, ?md)"
  from assms(1) p inside s obtain t2 kd2 m2 md2 where n: "?next = Some (t2, kd2, m2, md2)"
    by (auto simp: divide_many_def Let_def split: Option.bind_splits)
  let ?nb = "map (GetDataBounds h t2 L m2 R) [0..<12]"
  have e: "divide_many h w t kd L R =
     (if AllCheckForFailure h t2 0 then Some (t2, kd2, - 3)
      else do {
        a \<leftarrow> vec_get ?nb (md2 * 2 + 1);
        b \<leftarrow> vec_get ?nb (6 + md2 * 2);
        nl \<leftarrow> as_int (m2 - L);
        d \<leftarrow> as_int (R - m2);
        nr \<leftarrow> as_int (d + 1);
        kd \<leftarrow> AddChildNodes h kd2 md2 (Mean h a b) nl nr (take 6 ?nb) (drop 6 ?nb);
        Some (t2, kd, m2)
      })"
    unfolding divide_many_def
    apply (simp only: p Option.bind.simps)
    apply (simp only: inside if_False Let_def s Option.bind.simps prod.case)
    apply (simp only: n Option.bind.simps prod.case)
    done
  have f: "found w (p1, p2) kd L R ?md t1 m1 = Some (t2, kd2, m2, md2)"
    unfolding found_def by (rule n)
  show ?thesis
  proof (cases "AllCheckForFailure h t2 0")
    case True
    with assms(1) have "t' = t2" "kd' = kd2" "m = - 3" unfolding e by simp_all
    with s f True show ?thesis by blast
  next
    case ok: False
    from assms(1) ok have x: "(do {
        a \<leftarrow> vec_get ?nb (md2 * 2 + 1);
        b \<leftarrow> vec_get ?nb (6 + md2 * 2);
        nl \<leftarrow> as_int (m2 - L);
        d \<leftarrow> as_int (R - m2);
        nr \<leftarrow> as_int (d + 1);
        kd \<leftarrow> AddChildNodes h kd2 md2 (Mean h a b) nl nr (take 6 ?nb) (drop 6 ?nb);
        Some (t2, kd, m2)
      }) = Some (t', kd', m)"
      unfolding e by (simp only: if_False)
    from x obtain a where x1: "(do {
        b \<leftarrow> vec_get ?nb (6 + md2 * 2);
        nl \<leftarrow> as_int (m2 - L);
        d \<leftarrow> as_int (R - m2);
        nr \<leftarrow> as_int (d + 1);
        kd \<leftarrow> AddChildNodes h kd2 md2 (Mean h a b) nl nr (take 6 ?nb) (drop 6 ?nb);
        Some (t2, kd, m2)
      }) = Some (t', kd', m)"
      by (cases "vec_get ?nb (md2 * 2 + 1)") (simp_all only: Option.bind.simps option.distinct)
    from x1 obtain b where x2: "(do {
        nl \<leftarrow> as_int (m2 - L);
        d \<leftarrow> as_int (R - m2);
        nr \<leftarrow> as_int (d + 1);
        kd \<leftarrow> AddChildNodes h kd2 md2 (Mean h a b) nl nr (take 6 ?nb) (drop 6 ?nb);
        Some (t2, kd, m2)
      }) = Some (t', kd', m)"
      by (cases "vec_get ?nb (6 + md2 * 2)") (simp_all only: Option.bind.simps option.distinct)
    from x2 obtain nl where nl: "as_int (m2 - L) = Some nl" and x3: "(do {
        d \<leftarrow> as_int (R - m2);
        nr \<leftarrow> as_int (d + 1);
        kd \<leftarrow> AddChildNodes h kd2 md2 (Mean h a b) nl nr (take 6 ?nb) (drop 6 ?nb);
        Some (t2, kd, m2)
      }) = Some (t', kd', m)"
      by (cases "as_int (m2 - L)") (simp_all only: Option.bind.simps option.distinct)
    from x3 obtain d where d: "as_int (R - m2) = Some d" and x4: "(do {
        nr \<leftarrow> as_int (d + 1);
        kd \<leftarrow> AddChildNodes h kd2 md2 (Mean h a b) nl nr (take 6 ?nb) (drop 6 ?nb);
        Some (t2, kd, m2)
      }) = Some (t', kd', m)"
      by (cases "as_int (R - m2)") (simp_all only: Option.bind.simps option.distinct)
    from x4 obtain nr where nr: "as_int (d + 1) = Some nr" and x5: "(do {
        kd \<leftarrow> AddChildNodes h kd2 md2 (Mean h a b) nl nr (take 6 ?nb) (drop 6 ?nb);
        Some (t2, kd, m2)
      }) = Some (t', kd', m)"
      by (cases "as_int (d + 1)") (simp_all only: Option.bind.simps option.distinct)
    from x5 have a: "AddChildNodes h kd2 md2 (Mean h a b) nl nr
            (take 6 ?nb) (drop 6 ?nb) = Some kd'"
      and mm: "m = m2" and tt: "t' = t2"
      by (cases "AddChildNodes h kd2 md2 (Mean h a b) nl nr (take 6 ?nb) (drop 6 ?nb)";
          simp only: Option.bind.simps option.distinct option.inject prod.inject)+
    from as_int_Some [OF nl] as_int_Some [OF d] as_int_Some [OF nr]
    have cnt: "nl = m2 - L" "nr = R - m2 + 1" by simp_all
    from AddChildNodes_children [OF a] obtain l r where
      k: "kd' = Branch (node_data kd2) (Leaf l) (Leaf r)" "NumberOfPoints l = m2 - L"
        "NumberOfPoints r = R - m2 + 1"
      unfolding cnt by blast
    from s f ok mm k show ?thesis unfolding tt by blast
  qed
qed

lemma found_redimensioned:
  assumes "found w sg kd L R maxdim t1 m1 = Some (t2, kd2, m2, md2)"
  shows "redimensioned kd kd2"
proof (cases "m1 < L + 1")
  case True
  with assms
  have "try_directions w t1 sg (SetDim maxdim kd) L R maxdim (XDIM - 1) = Some (t2, kd2, m2, md2)"
    by (simp add: found_def)
  from try_directions_redimensioned [OF this]
  have "kd2 = SetDim (Dim (node_data kd2)) (SetDim maxdim kd)" by (simp add: redimensioned_def)
  then show ?thesis by (simp add: redimensioned_def)
next
  case False
  with assms have "kd2 = SetDim maxdim kd" by (auto simp: found_def)
  then show ?thesis by (simp add: redimensioned_SetDim)
qed

lemma divide_many_shape:
  assumes "divide_many h w t kd L R = Some (t', kd', m)"
    and "n = NumberOfPoints (node_data kd)" and "R = L + n - 1" and "\<not> n < 2"
  shows "(redimensioned kd kd' \<and> (m = - 1 \<or> m = - 3)) \<or> halved n L m kd'"
proof -
  from assms(1) obtain p1 p2 where p: "WhoHas t L = Some p1" "WhoHas t R = Some p2"
    by (auto simp: divide_many_def split: Option.bind_splits)
  show ?thesis
  proof (cases "MyId t < p1 \<or> MyId t > p2")
    case True
    with assms(1) p show ?thesis by (simp add: divide_many_def)
  next
    case False
    from divide_many_stages [OF assms(1) p False] obtain t1 m1 kd2 m2 md2 where
      f: "found w (p1, p2) kd L R (SelectCutDirection h kd) t1 m1 = Some (t', kd2, m2, md2)"
      and c: "AllCheckForFailure h t' 0 \<and> kd' = kd2 \<and> m = - 3 \<or>
            \<not> AllCheckForFailure h t' 0 \<and> m = m2 \<and>
            (\<exists>l r. kd' = Branch (node_data kd2) (Leaf l) (Leaf r) \<and>
                   NumberOfPoints l = m2 - L \<and> NumberOfPoints r = R - m2 + 1)"
      by blast
    note rd = found_redimensioned [OF f]
    from c show ?thesis
    proof
      assume "AllCheckForFailure h t' 0 \<and> kd' = kd2 \<and> m = - 3"
      with rd show ?thesis by simp
    next
      assume "\<not> AllCheckForFailure h t' 0 \<and> m = m2 \<and>
            (\<exists>l r. kd' = Branch (node_data kd2) (Leaf l) (Leaf r) \<and>
                   NumberOfPoints l = m2 - L \<and> NumberOfPoints r = R - m2 + 1)"
      then obtain l r where mm: "m = m2"
        and k: "kd' = Branch (node_data kd2) (Leaf l) (Leaf r)" "NumberOfPoints l = m2 - L"
          "NumberOfPoints r = R - m2 + 1"
        by blast
      have "NumberOfPoints (node_data kd2) = n"
        using redimensioned_points [OF rd] assms(2) by simp
      then have "halved n L m kd'"
        unfolding halved_def using k mm assms(3,4) by simp
      then show ?thesis ..
    qed
  qed
qed

lemma DivideRegion_shape:
  assumes "DivideRegion h w t kd L level tag = Some (t', kd', m)"
  shows "(redimensioned kd kd' \<and> (m = - 1 \<or> m = - 3)) \<or>
         halved (NumberOfPoints (node_data kd)) L m kd'"
proof -
  let ?n = "NumberOfPoints (node_data kd)"
  show ?thesis
  proof (cases "DivideTest h ?n level")
    case False
    with assms show ?thesis by (simp add: DivideRegion_def)
  next
    case True
    show ?thesis
    proof (cases "?n < 2")
      case few: True
      with assms True have "divide_few h t kd L ?n = Some (t', kd', m)"
        by (auto simp: DivideRegion_def Let_def split: Option.bind_splits)
      from divide_few_shape [OF this refl few] show ?thesis by auto
    next
      case many: False
      with assms True have "divide_many h w t kd L (L + ?n - 1) = Some (t', kd', m)"
        by (auto simp: DivideRegion_def Let_def dest!: as_int_Some split: Option.bind_splits)
      from divide_many_shape [OF this refl refl many] show ?thesis .
    qed
  qed
qed

lemma halved_counts_ok: "halved n L m kd' \<Longrightarrow> counts_ok kd' \<and> NumberOfPoints (node_data kd') = n"
  by (auto simp: halved_def)

lemma DivideRegion_counts_ok:
  assumes "DivideRegion h w t kd L level tag = Some (t', kd', m)" and "counts_ok kd"
  shows "counts_ok kd' \<and> NumberOfPoints (node_data kd') = NumberOfPoints (node_data kd)"
  using DivideRegion_shape [OF assms(1)] assms(2)
  by (auto dest: halved_counts_ok redimensioned_counts_ok redimensioned_points)

subsection \<open>The counts of a build\<close>

definition queue_post ::
  "PKdTree \<times> KdNode \<times> vtkNodeInfo list \<times> int \<Rightarrow> PKdTree \<times> KdNode \<times> int \<Rightarrow> bool" where
  "queue_post st y \<longleftrightarrow>
     (\<forall>t tree Queue ret t' tree' ret'.
         st = (t, tree, Queue, ret) \<and> y = (t', tree', ret') \<and> counts_ok tree \<and>
         Top t = Some tree \<longrightarrow>
         counts_ok tree' \<and> Top t' = Some tree' \<and>
         NumberOfPoints (node_data tree') = NumberOfPoints (node_data tree))"

lemma queue_postD:
  assumes "queue_post (t, tree, Queue, ret) (t', tree', ret')"
    and "counts_ok tree" and "Top t = Some tree"
  shows "counts_ok tree' \<and> Top t' = Some tree' \<and>
         NumberOfPoints (node_data tree') = NumberOfPoints (node_data tree)"
  using assms unfolding queue_post_def by blast

lemma divide_queue_post:
  assumes "divide_queue h w st = Some y"
  shows "queue_post st y"
proof (rule divide_queue.raw_induct [where P = "\<lambda>h w st y. queue_post st y", OF _ assms])
  fix dq h w st y
  assume ih: "\<And>h w st y. dq h w st = Some y \<Longrightarrow> queue_post st y"
    and eq: "(case st of (t, tree, [], returnVal) \<Rightarrow> Some (t, tree, returnVal)
      | (t, tree, (path, L, level, tag) # rest, returnVal) \<Rightarrow>
          Option.bind (subtree tree path)
          (\<lambda>kd. Option.bind (DivideRegion h w t kd L level tag)
                (\<lambda>res. case res of
                       (t, kd, midpt) \<Rightarrow>
                         Option.bind (replace tree path kd)
                         (\<lambda>tree.
                             if 0 \<le> midpt
                             then dq h w
                                   (t\<lparr>Top := Some tree\<rparr>, tree,
                                    rest @
                                    [(path @ [False], L, level + 1, push_bit 1 tag),
                                     (path @ [True], midpt, level + 1, push_bit 1 tag + 1)],
                                    returnVal)
                             else dq h w
                                   (t\<lparr>Top := Some tree\<rparr>, tree, rest,
                                    if midpt < - 1 then 1 else returnVal))))) = Some y"
  show "queue_post st y"
    unfolding queue_post_def
  proof (intro allI impI)
    fix t tree Queue ret t' tree' ret'
    assume a: "st = (t, tree, Queue, ret) \<and> y = (t', tree', ret') \<and> counts_ok tree \<and>
               Top t = Some tree"
    then have st: "st = (t, tree, Queue, ret)" and y: "y = (t', tree', ret')"
      and c: "counts_ok tree" and tp: "Top t = Some tree" by simp_all
    show "counts_ok tree' \<and> Top t' = Some tree' \<and>
          NumberOfPoints (node_data tree') = NumberOfPoints (node_data tree)"
    proof (cases Queue)
      case Nil
      with eq st y c tp show ?thesis by simp
    next
      case (Cons info rest)
      obtain path L level tag where info: "info = (path, L, level, tag)"
        by (cases info) auto
      from eq obtain kd where kd: "subtree tree path = Some kd"
        unfolding st Cons info by (cases "subtree tree path") simp_all
      from eq obtain t1 kd1 midpt where
        dr: "DivideRegion h w t kd L level tag = Some (t1, kd1, midpt)"
        unfolding st Cons info
        by (cases "DivideRegion h w t kd L level tag") (auto simp: kd)
      from eq obtain tree1 where rp: "replace tree path kd1 = Some tree1"
        unfolding st Cons info
        by (cases "replace tree path kd1") (simp_all add: kd dr)
      have ck: "counts_ok kd" by (rule subtree_counts_ok [OF kd c])
      from DivideRegion_counts_ok [OF dr ck]
      have k1: "counts_ok kd1" "NumberOfPoints (node_data kd1) = NumberOfPoints (node_data kd)"
        by simp_all
      from replace_counts_ok [OF kd rp c k1]
      have c1: "counts_ok tree1"
        "NumberOfPoints (node_data tree1) = NumberOfPoints (node_data tree)"
        by simp_all
      let ?t1 = "t1\<lparr>Top := Some tree1\<rparr>"
      have tp1: "Top ?t1 = Some tree1" by simp
      have "counts_ok tree' \<and> Top t' = Some tree' \<and>
            NumberOfPoints (node_data tree') = NumberOfPoints (node_data tree1)"
      proof (cases "0 \<le> midpt")
        case True
        from eq have "dq h w (?t1, tree1, rest @ [(path @ [False], L, level + 1, push_bit 1 tag),
                                   (path @ [True], midpt, level + 1, push_bit 1 tag + 1)], ret)
                      = Some (t', tree', ret')"
          unfolding st Cons info y by (simp add: kd dr rp True)
        from queue_postD [OF ih [OF this] c1(1) tp1] show ?thesis .
      next
        case False
        from eq have "dq h w (?t1, tree1, rest, if midpt < - 1 then 1 else ret)
                      = Some (t', tree', ret')"
          unfolding st Cons info y by (simp add: kd dr rp False)
        from queue_postD [OF ih [OF this] c1(1) tp1] show ?thesis .
      qed
      with c1(2) show ?thesis by simp
    qed
  qed
qed

lemma divide_queue_counts:
  assumes "divide_queue h w (t, tree, Queue, ret) = Some (t', tree', ret')"
    and "counts_ok tree" and "Top t = Some tree"
  shows "counts_ok tree'" "Top t' = Some tree'"
    "NumberOfPoints (node_data tree') = NumberOfPoints (node_data tree)"
  using queue_postD [OF divide_queue_post [OF assms(1)] assms(2,3)] by simp_all

lemma BreadthFirstDivide_counts:
  assumes "BreadthFirstDivide h w t vb = Some (t', ret)"
  shows "\<exists>tree. Top t' = Some tree \<and> counts_ok tree \<and> leaf_sum tree = TotalNumCells t"
proof -
  from assms obtain v0 v1 v2 v3 v4 v5 where vb: "vb = [v0, v1, v2, v3, v4, v5]"
    unfolding BreadthFirstDivide_def by (auto split: list.splits)
  let ?kd = "Leaf (SetDataBounds v0 v1 v2 v3 v4 v5
                     ((SetBounds v0 v1 v2 v3 v4 v5 (NewNode h))
                        \<lparr>NumberOfPoints := TotalNumCells t\<rparr>))"
  let ?t = "t\<lparr>Top := Some ?kd\<rparr>"
  have n0: "NumberOfPoints (node_data ?kd) = TotalNumCells t"
    by (simp add: SetDataBounds_def SetBounds_def)
  from assms obtain t1 kd1 midpt where
    dr: "DivideRegion h w ?t ?kd 0 0 1 = Some (t1, kd1, midpt)"
    unfolding BreadthFirstDivide_def vb
    by (cases "DivideRegion h w ?t ?kd 0 0 1") (auto simp: Let_def)
  have "counts_ok ?kd" by simp
  from DivideRegion_counts_ok [OF dr this] n0
  have k1: "counts_ok kd1" "NumberOfPoints (node_data kd1) = TotalNumCells t" by simp_all
  let ?t1 = "t1\<lparr>Top := Some kd1\<rparr>"
  show ?thesis
  proof (cases "0 \<le> midpt")
    case False
    with assms have "t' = ?t1"
      unfolding BreadthFirstDivide_def vb by (auto simp: Let_def dr split: if_splits)
    with k1 show ?thesis by (simp add: leaf_sum_counts_ok)
  next
    case True
    with assms obtain tree' where
      dq: "divide_queue h w (?t1, kd1, [([False], 0, 1, 2), ([True], midpt, 1, 3)], 0)
           = Some (t', tree', ret)"
      unfolding BreadthFirstDivide_def vb
      by (auto simp: Let_def dr split: Option.bind_splits)
    have "Top ?t1 = Some kd1" by simp
    from divide_queue_counts [OF dq k1(1) this] k1(2)
    have "counts_ok tree'" "Top t' = Some tree'"
      "NumberOfPoints (node_data tree') = TotalNumCells t"
      by simp_all
    then show ?thesis by (simp add: leaf_sum_counts_ok)
  qed
qed

subsection \<open>A build of three points\<close>

definition plain_helpers :: Helpers where
  "plain_helpers = \<lparr>DivideTest = (\<lambda>n level. level < 1), SelectCutDirection = (\<lambda>kd. 0),
     NewNode = blank_node, ReduceSum = (\<lambda>t rc. rc),
     Mean = (\<lambda>a b. a), GetDataBounds = (\<lambda>t L m R i. Finite 0)\<rparr>"

definition only_sample :: "KdNode option \<Rightarrow> PKdTree" where
  "only_sample tp = vtkPKdTree_new\<lparr>NumProcesses := 1, MyId := 0,
      StartVal := [0], EndVal := [2], NumCells := [3], TotalNumCells := 3,
      ValidDirections := 7,
      CurrentPtArray := [(5, 0, 0), (3, 0, 0), (8, 0, 0)], Top := tp\<rparr>"

definition z3 :: vec3 where "z3 = Vec3 (Finite 0) (Finite 0) (Finite 0)"

definition only_root :: NodeData where
  "only_root = \<lparr>Dim = 3, NumberOfPoints = 3, MinBounds = z3, MaxBounds = z3,
      MinDataBounds = z3, MaxDataBounds = z3\<rparr>"

definition only_tree :: KdNode where
  "only_tree = Branch (only_root\<lparr>Dim := 0\<rparr>)
     (Leaf (only_root\<lparr>NumberOfPoints := 2\<rparr>)) (Leaf (only_root\<lparr>NumberOfPoints := 1\<rparr>))"

lemma only_WhoHas: "WhoHas (only_sample tp) 0 = Some 0" "WhoHas (only_sample tp) 1 = Some 0"
  "WhoHas (only_sample tp) 2 = Some 0"
  by (simp_all add: WhoHas_def only_sample_def u_whoHas.simps vec_get_def)

lemma only_partition:
  "PartitionAboutMyValue (only_sample tp) 0 2 2 0 = Some (only_sample tp, 2, 3)"
  apply (simp add: PartitionAboutMyValue_def GetLocalVal_def deref_def ExchangeLocalVals_def
      only_sample_def vec_get_def vec_set_def vtkPKdTree_new_def)
  apply (simp add: loop_my.simps scan_down_my.simps scan_up_my.simps gather_Ts.simps
      scan_up_eq.simps scan_down_eq.simps
      GetLocalVal_def deref_def ExchangeLocalVals_def vec_get_def vec_set_def Let_def)
  done

lemma only_me: "MyId (only_sample tp) = 0"
  by (simp add: only_sample_def)

lemma only_u_select: "u_select w (only_sample tp) 0 2 2 0 = Some (only_sample tp)"
  by (subst u_select.simps)
     (simp add: only_WhoHas PartitionSubArray_def only_me only_partition u_select_done)

lemma only_Select: "Select w (only_sample tp) (0, 0) 0 0 2 = Some (only_sample tp, 2)"
  unfolding Select_def
  apply (simp add: c_div_def c_add_def only_u_select only_WhoHas read_and_Broadcast_def only_me)
  apply (simp add: only_sample_def GetLocalVal_def deref_def vec_get_def)
  done

lemma only_root_run:
  "DivideRegion plain_helpers w (only_sample tp) (Leaf only_root) 0 0 1 =
   Some (only_sample tp, only_tree, 2)"
  apply (simp add: DivideRegion_def divide_many_def only_WhoHas only_me as_int_def c_int_def
      only_root_def plain_helpers_def map_upt_12 AllCheckForFailure_def)
  apply (simp add: SetDim_def only_Select vec_get_def AddChildNodes_def GetBounds_def z3_def
      as_int_def c_int_def
      numeral_eq_Suc only_tree_def only_root_def SetBounds_def SetDataBounds_def blank_node_def
      XDIM_def YDIM_def ZDIM_def)
  done

lemma only_Top: "(only_sample tp)\<lparr>Top := x\<rparr> = only_sample x"
  by (simp add: only_sample_def)

lemma only_queue:
  "divide_queue plain_helpers w
     (only_sample (Some only_tree), only_tree, [([False], 0, 1, 2), ([True], 2, 1, 3)], 0) =
   Some (only_sample (Some only_tree), only_tree, 0)"
  apply (subst divide_queue.simps)
  apply (simp add: only_tree_def DivideRegion_def plain_helpers_def only_Top)
  apply (subst divide_queue.simps)
  apply (simp add: only_tree_def DivideRegion_def plain_helpers_def only_Top)
  apply (subst divide_queue.simps)
  apply simp
  done

lemma only_run:
  "BreadthFirstDivide plain_helpers w (only_sample None) (replicate 6 (Finite 0)) =
   Some (only_sample (Some only_tree), 0)"
proof -
  have n: "TotalNumCells (only_sample None) = 3" by (simp add: only_sample_def)
  have k: "SetDataBounds (Finite 0) (Finite 0) (Finite 0) (Finite 0) (Finite 0) (Finite 0)
             ((SetBounds (Finite 0) (Finite 0) (Finite 0) (Finite 0) (Finite 0) (Finite 0)
                 (NewNode plain_helpers))\<lparr>NumberOfPoints := 3\<rparr>) = only_root"
    by (simp add: SetDataBounds_def SetBounds_def plain_helpers_def blank_node_def only_root_def
        z3_def)
  show ?thesis
    unfolding BreadthFirstDivide_def
    by (simp add: numeral_eq_Suc n k only_Top only_root_run only_queue)
qed

text \<open>
  Claim C4.  Whenever \<open>DivideRegion\<close> returns, either it has left the node without
  children, changing at most its split dimension, and returns \<open>-1\<close> or \<open>-3\<close>; or the
  node, which holds \<open>n\<close> points from index \<open>L\<close> on, has two new children whose point counts
  add up to \<open>n\<close>: the left one has \<open>midpt - L\<close> points and the right one \<open>R - midpt + 1\<close>
  with \<open>R = L + n - 1\<close>, and for \<open>n < 2\<close> the left one has \<open>n\<close> points, the right one none
  and \<open>midpt = L\<close>.  Whenever \<open>BreadthFirstDivide\<close> returns, the point count of every
  node with children in the tree it has built is the sum of the counts of its two
  children, and the counts of the leaves add up to \<open>TotalNumCells\<close>.
\<close>

theorem DivideRegion_counts:
  "(DivideRegion h w t kd L level tag = Some (t', kd', midpt) \<longrightarrow>
      (redimensioned kd kd' \<and> (midpt = - 1 \<or> midpt = - 3)) \<or>
      halved (NumberOfPoints (node_data kd)) L midpt kd') \<and>
   (BreadthFirstDivide h w t volBounds = Some (t'', ret) \<longrightarrow>
      (\<exists>tree. Top t'' = Some tree \<and> counts_ok tree \<and> leaf_sum tree = TotalNumCells t))"
proof (intro conjI impI)
  assume "DivideRegion h w t kd L level tag = Some (t', kd', midpt)"
  then show "(redimensioned kd kd' \<and> (midpt = - 1 \<or> midpt = - 3)) \<or>
             halved (NumberOfPoints (node_data kd)) L midpt kd'"
    by (rule DivideRegion_shape)
next
  assume "BreadthFirstDivide h w t volBounds = Some (t'', ret)"
  then show "\<exists>tree. Top t'' = Some tree \<and> counts_ok tree \<and> leaf_sum tree = TotalNumCells t"
    by (rule BreadthFirstDivide_counts)
qed

theorem DivideRegion_counts_witness:
  "DivideRegion plain_helpers still_world (only_sample None) (Leaf only_root) 0 0 1 =
     Some (only_sample None, only_tree, 2) \<and>
   halved 3 0 2 only_tree \<and>
   BreadthFirstDivide plain_helpers still_world (only_sample None) (replicate 6 (Finite 0)) =
     Some (only_sample (Some only_tree), 0) \<and>
   counts_ok only_tree \<and> leaf_sum only_tree = 3"
proof -
  have n: "TotalNumCells (only_sample None) = 3" "Top (only_sample (Some only_tree)) = Some only_tree"
    by (simp_all add: only_sample_def)
  have r: "NumberOfPoints (node_data (Leaf only_root)) = 3" by (simp add: only_root_def)
  have nr: "\<not> redimensioned (Leaf only_root) only_tree"
    by (simp add: redimensioned_def only_tree_def SetDim_def)
  from DivideRegion_counts [of plain_helpers still_world "only_sample None" "Leaf only_root" 0 0 1
      "only_sample None" only_tree 2 "replicate 6 (Finite 0)" "only_sample (Some only_tree)" 0]
  show ?thesis
    unfolding only_root_run only_run n r using nr by simp
qed

subsection \<open>Coincident points\<close>

text \<open>
  \<open>refusals\<close> follows \<open>Select\<close> through the directions of the list in turn, leaving out the
  direction \<open>maxdim\<close> and the ones \<open>ValidDirections\<close> does not permit, each \<open>Select\<close>
  working on the points as the one before left them: it is the state after the last of
  them if every one of them returns an index below \<open>L + 1\<close>, and \<open>None\<close> otherwise.
  \<open>coincident\<close> starts with the chosen direction \<open>maxdim\<close> itself and goes on with
  \<open>refusals\<close> over the three directions.
\<close>

fun refusals ::
  "World \<Rightarrow> PKdTree \<Rightarrow> int \<times> int \<Rightarrow> int \<Rightarrow> int \<Rightarrow> int \<Rightarrow> int list \<Rightarrow> PKdTree option" where
  "refusals w t sg maxdim L R [] = Some t"
| "refusals w t sg maxdim L R (d # ds) =
     (if d = maxdim \<or> \<not> bit (ValidDirections t) (nat d) then refusals w t sg maxdim L R ds
      else case Select w t sg d L R of
             None \<Rightarrow> None
           | Some (t1, m) \<Rightarrow> if m < L + 1 then refusals w t1 sg maxdim L R ds else None)"

declare refusals.simps [simp del]

definition coincident ::
  "World \<Rightarrow> PKdTree \<Rightarrow> int \<times> int \<Rightarrow> int \<Rightarrow> int \<Rightarrow> int \<Rightarrow> PKdTree option" where
  "coincident w t sg maxdim L R =
     (case Select w t sg maxdim L R of
        None \<Rightarrow> None
      | Some (t1, m) \<Rightarrow> if m < L + 1 then refusals w t1 sg maxdim L R [0, 1, 2] else None)"

lemma upto_2: "newdim + 1 \<le> 2 \<Longrightarrow> [newdim + 1..2] = (newdim + 1) # [newdim + 1 + 1..2]"
  by (simp add: upto_rec1)

lemma next_direction_None:
  "next_direction t maxdim newdim = None \<Longrightarrow>
   refusals w t sg maxdim L R [newdim + 1..2] = Some t"
proof (induction t maxdim newdim rule: next_direction.induct)
  case (1 t maxdim newdim)
  show ?case
  proof (cases "newdim + 1 > ZDIM")
    case True
    then show ?thesis by (simp add: ZDIM_def refusals.simps)
  next
    case False
    then have le: "newdim + 1 \<le> 2" by (simp add: ZDIM_def)
    from "1.prems" False
    have skip: "newdim + 1 = maxdim \<or> \<not> bit (ValidDirections t) (nat (newdim + 1))"
      and nx: "next_direction t maxdim (newdim + 1) = None"
      by (subst (asm) next_direction.simps; simp add: Let_def split: if_splits)+
    from "1.IH" [OF refl False skip nx] skip show ?thesis
      unfolding upto_2 [OF le] by (simp add: refusals.simps)
  qed
qed

lemma next_direction_Some:
  "next_direction t maxdim newdim = Some d \<Longrightarrow>
   refusals w t sg maxdim L R [newdim + 1..2] = refusals w t sg maxdim L R (d # [d + 1..2]) \<and>
   d \<noteq> maxdim \<and> bit (ValidDirections t) (nat d)"
proof (induction t maxdim newdim rule: next_direction.induct)
  case (1 t maxdim newdim)
  from "1.prems" have False: "\<not> newdim + 1 > ZDIM"
    by (subst (asm) next_direction.simps) (simp add: Let_def split: if_splits)
  then have le: "newdim + 1 \<le> 2" by (simp add: ZDIM_def)
  show ?case
  proof (cases "newdim + 1 = maxdim \<or> \<not> bit (ValidDirections t) (nat (newdim + 1))")
    case True
    with "1.prems" False have nx: "next_direction t maxdim (newdim + 1) = Some d"
      by (subst (asm) next_direction.simps) (simp add: Let_def)
    from "1.IH" [OF refl False True nx] True show ?thesis
      unfolding upto_2 [OF le] by (simp add: refusals.simps)
  next
    case no: False
    with "1.prems" False have "d = newdim + 1"
      by (subst (asm) next_direction.simps) (simp add: Let_def)
    with no show ?thesis unfolding upto_2 [OF le] by simp
  qed
qed

lemma try_directions_refusals:
  "refusals w t sg maxdim L R [newdim + 1..2] = Some t2 \<Longrightarrow>
   try_directions w t sg kd L R maxdim newdim =
     (if c_int (L + R) then Some (t2, SetDim maxdim kd, c_div (L + R) 2 + 1, maxdim) else None)"
proof (induction w t sg kd L R maxdim newdim rule: try_directions.induct)
  case (1 w t sg kd L R maxdim newdim)
  show ?case
  proof (cases "next_direction t maxdim newdim")
    case None
    from next_direction_None [OF None, of w sg L R] "1.prems" have "t2 = t" by simp
    with None show ?thesis
      by (subst try_directions.simps) (simp add: as_int_def)
  next
    case (Some d)
    note nd = next_direction_Some [OF Some, of w sg L R]
    with "1.prems" have r: "refusals w t sg maxdim L R (d # [d + 1..2]) = Some t2" by simp
    from nd have ok: "\<not> (d = maxdim \<or> \<not> bit (ValidDirections t) (nat d))" by simp
    from r ok obtain t1 m where s: "Select w t sg d L R = Some (t1, m)"
      by (cases "Select w t sg d L R") (auto simp: refusals.simps)
    from r ok s have m: "m < L + 1" and r1: "refusals w t1 sg maxdim L R [d + 1..2] = Some t2"
      by (simp_all add: refusals.simps split: if_splits)
    from "1.IH" [OF Some s refl m r1]
    have "try_directions w t1 sg (SetDim d kd) L R maxdim d =
      (if c_int (L + R) then Some (t2, SetDim maxdim (SetDim d kd), c_div (L + R) 2 + 1, maxdim)
       else None)" .
    with Some s m show ?thesis
      by (subst try_directions.simps) simp
  qed
qed

lemma found_coincident:
  assumes "coincident w t sg maxdim L R = Some t2"
  shows "\<exists>t1 m1. Select w t sg maxdim L R = Some (t1, m1) \<and>
           found w sg kd L R maxdim t1 m1 =
             (if c_int (L + R) then Some (t2, SetDim maxdim kd, c_div (L + R) 2 + 1, maxdim)
              else None)"
proof -
  from assms obtain t1 m1 where s: "Select w t sg maxdim L R = Some (t1, m1)"
    by (cases "Select w t sg maxdim L R") (auto simp: coincident_def)
  from assms s have m: "m1 < L + 1" and r: "refusals w t1 sg maxdim L R [0, 1, 2] = Some t2"
    by (simp_all add: coincident_def split: if_splits)
  have u: "[XDIM - 1 + 1..2] = [0, 1, 2]"
    by (simp add: XDIM_def upto_rec1)
  from r have "refusals w t1 sg maxdim L R [XDIM - 1 + 1..2] = Some t2" unfolding u .
  from try_directions_refusals [OF this, of "SetDim maxdim kd"] m
  have "found w sg kd L R maxdim t1 m1 =
          (if c_int (L + R) then Some (t2, SetDim maxdim kd, c_div (L + R) 2 + 1, maxdim)
           else None)"
    by (simp add: found_def)
  with s show ?thesis by blast
qed

lemma DivideRegion_general:
  assumes "DivideRegion h w t kd L level tag = Some (t', kd', midpt)" and "0 \<le> midpt"
    and "2 \<le> NumberOfPoints (node_data kd)"
  shows "divide_many h w t kd L (L + NumberOfPoints (node_data kd) - 1) = Some (t', kd', midpt)"
proof (cases "DivideTest h (NumberOfPoints (node_data kd)) level")
  case False
  with assms(1,2) show ?thesis by (simp add: DivideRegion_def)
next
  case True
  with assms(1,3) show ?thesis
    by (auto simp: DivideRegion_def Let_def dest!: as_int_Some split: Option.bind_splits)
qed

lemma DivideRegion_fallback:
  assumes dr: "DivideRegion h w t kd L level tag = Some (t', kd', midpt)" and div: "0 \<le> midpt"
    and n: "2 \<le> NumberOfPoints (node_data kd)" and L: "0 \<le> L"
    and R: "R = L + NumberOfPoints (node_data kd) - 1"
    and p: "WhoHas t L = Some p1" "WhoHas t R = Some p2"
    and co: "coincident w t (p1, p2) (SelectCutDirection h kd) L R = Some t2"
  shows "t' = t2 \<and> midpt = (L + R) div 2 + 1 \<and>
         (\<exists>d l r. kd' = Branch d (Leaf l) (Leaf r) \<and> Dim d = SelectCutDirection h kd \<and>
            NumberOfPoints l = midpt - L \<and> NumberOfPoints r = R - midpt + 1 \<and>
            1 \<le> NumberOfPoints l \<and> 1 \<le> NumberOfPoints r)"
proof -
  let ?md = "SelectCutDirection h kd"
  from DivideRegion_general [OF dr div n]
  have dm: "divide_many h w t kd L R = Some (t', kd', midpt)" unfolding R .
  have inside: "\<not> (MyId t < p1 \<or> MyId t > p2)"
  proof
    assume "MyId t < p1 \<or> MyId t > p2"
    with dm p have "midpt = - 1" by (simp add: divide_many_def)
    with div show False by simp
  qed
  from divide_many_stages [OF dm p inside] obtain t1 m1 kd2 m2 md2 where
    s: "Select w t (p1, p2) ?md L R = Some (t1, m1)"
    and f: "found w (p1, p2) kd L R ?md t1 m1 = Some (t', kd2, m2, md2)"
    and c: "AllCheckForFailure h t' 0 \<and> kd' = kd2 \<and> midpt = - 3 \<or>
            \<not> AllCheckForFailure h t' 0 \<and> midpt = m2 \<and>
            (\<exists>l r. kd' = Branch (node_data kd2) (Leaf l) (Leaf r) \<and>
                   NumberOfPoints l = m2 - L \<and> NumberOfPoints r = R - m2 + 1)"
    by blast
  from found_coincident [OF co, of kd] s
  have f2: "found w (p1, p2) kd L R ?md t1 m1 =
             (if c_int (L + R) then Some (t2, SetDim ?md kd, c_div (L + R) 2 + 1, ?md) else None)"
    by auto
  from f f2 have e: "t' = t2" "kd2 = SetDim ?md kd" "m2 = c_div (L + R) 2 + 1"
    by (auto split: if_splits)
  from L R n have LR: "0 \<le> L + R" "L < R" by simp_all
  then have cd: "c_div (L + R) 2 = (L + R) div 2" by (simp add: c_div_def sgn_if)
  from c div obtain l r where mm: "midpt = m2"
    and k: "kd' = Branch (node_data kd2) (Leaf l) (Leaf r)" "NumberOfPoints l = m2 - L"
      "NumberOfPoints r = R - m2 + 1"
    by auto
  have m: "midpt = (L + R) div 2 + 1" using mm e(3) cd by simp
  have d: "Dim (node_data kd2) = ?md" unfolding e(2) by simp
  from LR have "L \<le> (L + R) div 2" "(L + R) div 2 < R" by linarith+
  with m have "1 \<le> midpt - L" "1 \<le> R - midpt + 1" by simp_all
  with k mm d e(1) m show ?thesis by auto
qed

subsection \<open>Ten points at one place\<close>

definition ten_sample :: "int \<Rightarrow> KdNode option \<Rightarrow> PKdTree" where
  "ten_sample v tp = vtkPKdTree_new\<lparr>NumProcesses := 2, MyId := 0,
      StartVal := [0, 10], EndVal := [9, 9], NumCells := [10, 0], TotalNumCells := 10,
      ValidDirections := v, CurrentPtArray := replicate 10 (1, 2, 3), Top := tp\<rparr>"

lemma ten_WhoHas: "WhoHas (ten_sample v tp) 0 = Some 0" "WhoHas (ten_sample v tp) 9 = Some 0"
  "WhoHas (ten_sample v tp) 5 = Some 0" "WhoHas (ten_sample v tp) 4 = Some 0"
  by (simp_all add: WhoHas_def ten_sample_def u_whoHas.simps vec_get_def)

lemma ten_me: "MyId (ten_sample v tp) = 0" "ValidDirections (ten_sample v tp) = v"
  by (simp_all add: ten_sample_def)

lemma ten_partition:
  assumes "d = 0 \<or> d = 1 \<or> d = 2"
  shows "PartitionAboutMyValue (ten_sample v tp) 0 9 5 d = Some (ten_sample v tp, 0, 10)"
  using assms
  apply (elim disjE)
  apply (simp_all add: PartitionAboutMyValue_def GetLocalVal_def deref_def ExchangeLocalVals_def
      ten_sample_def vec_get_def vec_set_def vtkPKdTree_new_def numeral_eq_Suc)
  apply (simp_all add: loop_my.simps scan_down_my.simps scan_up_my.simps gather_Ts.simps
      scan_up_eq.simps scan_down_eq.simps
      GetLocalVal_def deref_def ExchangeLocalVals_def vec_get_def vec_set_def Let_def)
  done

lemma ten_u_select:
  assumes "d = 0 \<or> d = 1 \<or> d = 2"
  shows "u_select w (ten_sample v tp) 0 9 5 d = Some (ten_sample v tp)"
  by (subst u_select.simps)
     (simp add: ten_WhoHas PartitionSubArray_def ten_me ten_partition [OF assms] u_select_done)

lemma ten_Select:
  assumes "d = 0 \<or> d = 1 \<or> d = 2"
  shows "Select w (ten_sample v tp) (0, 0) d 0 9 = Some (ten_sample v tp, 0)"
proof -
  have r: "read_and_Broadcast w (ten_sample v tp) 0 5 d = read_and_Broadcast w (ten_sample v tp) 0 4 d"
    "read_and_Broadcast w (ten_sample v tp) 0 4 d \<noteq> None"
    using assms
    by (auto simp: read_and_Broadcast_def ten_sample_def GetLocalVal_def deref_def vec_get_def
        numeral_eq_Suc)
  then obtain x where x: "read_and_Broadcast w (ten_sample v tp) 0 4 d = Some x" by auto
  have f: "first_of_run (ten_sample v tp) d 5 x 0 = Some 0"
    using assms x
    apply (simp add: first_of_run_def ten_me)
    apply (auto simp: ten_sample_def GetLocalVal_def deref_def vec_get_def roll_back.simps
        read_and_Broadcast_def numeral_eq_Suc)
    done
  show ?thesis
    unfolding Select_def
    by (simp add: c_div_def c_add_def ten_u_select [OF assms] ten_WhoHas r(1) x f ReduceMin_def)
qed

lemma ten_refusals:
  assumes "md = 0 \<or> md = 1 \<or> md = 2"
  shows "coincident w (ten_sample v tp) (0, 0) md 0 9 = Some (ten_sample v tp)"
  by (simp add: coincident_def ten_Select [OF assms] refusals.simps ten_Select ten_me)

lemma ten_run:
  assumes n: "NumberOfPoints (node_data kd) = 10" and dt: "DivideTest h 10 0"
    and md: "SelectCutDirection h kd = 0 \<or> SelectCutDirection h kd = 1 \<or>
             SelectCutDirection h kd = 2"
    and ok: "\<not> AllCheckForFailure h (ten_sample v tp) 0"
  shows "\<exists>kd'. DivideRegion h w (ten_sample v tp) kd 0 0 1 = Some (ten_sample v tp, kd', 5)"
proof -
  let ?t = "ten_sample v tp"
  let ?md = "SelectCutDirection h kd"
  from found_coincident [OF ten_refusals [OF md], of w v tp kd]
  have f: "found w (0, 0) kd 0 9 ?md ?t 0 = Some (?t, SetDim ?md kd, 5, ?md)"
    by (simp add: ten_Select [OF md] c_int_def c_div_def)
  note b = map_upt_12 [of "GetDataBounds h ?t 0 5 9"]
  have dm: "\<exists>kd'. divide_many h w ?t kd 0 9 = Some (?t, kd', 5)"
    unfolding divide_many_def
    apply (simp only: ten_WhoHas Option.bind.simps ten_me)
    apply (simp only: Let_def ten_Select [OF md] Option.bind.simps prod.case)
    apply (simp only: f [unfolded found_def] Option.bind.simps prod.case)
    using md
    apply (elim disjE)
    apply (simp_all add: ok b vec_get_def as_int_def c_int_def AddChildNodes_def GetBounds_def)
    done
  then show ?thesis
    by (simp add: DivideRegion_def n dt as_int_def c_int_def)
qed

definition ten_root :: NodeData where
  "ten_root = only_root\<lparr>NumberOfPoints := 10\<rparr>"

definition ten_tree :: KdNode where
  "ten_tree = Branch (ten_root\<lparr>Dim := 0\<rparr>)
     (Leaf (only_root\<lparr>NumberOfPoints := 5\<rparr>)) (Leaf (only_root\<lparr>NumberOfPoints := 5\<rparr>))"

lemma ten_root_run:
  "DivideRegion plain_helpers w (ten_sample 7 tp) (Leaf ten_root) 0 0 1 =
   Some (ten_sample 7 tp, ten_tree, 5)"
proof -
  have md: "SelectCutDirection plain_helpers (Leaf ten_root) = 0 \<or>
            SelectCutDirection plain_helpers (Leaf ten_root) = 1 \<or>
            SelectCutDirection plain_helpers (Leaf ten_root) = 2"
    by (simp add: plain_helpers_def)
  have m0: "SelectCutDirection plain_helpers (Leaf ten_root) = 0" by (simp add: plain_helpers_def)
  from found_coincident [OF ten_refusals [OF md], of w 7 tp "Leaf ten_root"]
  have f: "found w (0, 0) (Leaf ten_root) 0 9 0 (ten_sample 7 tp) 0 =
           Some (ten_sample 7 tp, SetDim 0 (Leaf ten_root), 5, 0)"
    unfolding m0 by (simp add: ten_Select c_int_def c_div_def)
  have sel: "Select w (ten_sample 7 tp) (0, 0) 0 0 9 = Some (ten_sample 7 tp, 0)"
    by (rule ten_Select) simp
  have dm: "divide_many plain_helpers w (ten_sample 7 tp) (Leaf ten_root) 0 9 =
            Some (ten_sample 7 tp, ten_tree, 5)"
    unfolding divide_many_def
    apply (simp only: ten_WhoHas Option.bind.simps ten_me m0)
    apply (simp only: Let_def sel Option.bind.simps prod.case)
    apply (simp only: f [unfolded found_def] Option.bind.simps prod.case)
    apply (simp add: plain_helpers_def vec_get_def as_int_def c_int_def AddChildNodes_def
        map_upt_12 AllCheckForFailure_def
        GetBounds_def SetDim_def ten_root_def only_root_def ten_tree_def z3_def numeral_eq_Suc
        SetBounds_def SetDataBounds_def blank_node_def XDIM_def YDIM_def ZDIM_def)
    done
  have n: "NumberOfPoints (node_data (Leaf ten_root)) = 10" by (simp add: ten_root_def)
  show ?thesis
    unfolding DivideRegion_def n
    by (simp add: plain_helpers_def as_int_def c_int_def dm [unfolded plain_helpers_def])
qed

text \<open>
  Claim C6.  Let a process of the sub-group divide a node of at least two points from
  index \<open>L \<ge> 0\<close> on, \<open>R\<close> being the index of the last of them, and let \<open>Select\<close> return an
  index below \<open>L + 1\<close> on the chosen direction and then on every other permitted one.
  Then \<open>DivideRegion\<close> returns \<open>(L + R) / 2 + 1\<close>, the node is split on the direction
  chosen first, its left child has \<open>midpt - L\<close> points and its right child
  \<open>R - midpt + 1\<close>, and both have at least one.  Where ten points at one place are all
  held by the first of two processes, \<open>DivideRegion\<close> returns 5 at the root, whatever the
  permitted directions and the one chosen first.
\<close>

theorem DivideRegion_coincident:
  "(DivideRegion h w t kd L level tag = Some (t', kd', midpt) \<and> 0 \<le> midpt \<and>
    2 \<le> NumberOfPoints (node_data kd) \<and> 0 \<le> L \<and>
    R = L + NumberOfPoints (node_data kd) - 1 \<and>
    WhoHas t L = Some p1 \<and> WhoHas t R = Some p2 \<and>
    coincident w t (p1, p2) (SelectCutDirection h kd) L R = Some t2 \<longrightarrow>
      t' = t2 \<and> midpt = (L + R) div 2 + 1 \<and>
      (\<exists>d l r. kd' = Branch d (Leaf l) (Leaf r) \<and> Dim d = SelectCutDirection h kd \<and>
         NumberOfPoints l = midpt - L \<and> NumberOfPoints r = R - midpt + 1 \<and>
         1 \<le> NumberOfPoints l \<and> 1 \<le> NumberOfPoints r)) \<and>
   (NumberOfPoints (node_data top_node) = 10 \<and> DivideTest g 10 0 \<and>
    (SelectCutDirection g top_node = 0 \<or> SelectCutDirection g top_node = 1 \<or>
     SelectCutDirection g top_node = 2) \<and>
    \<not> AllCheckForFailure g (ten_sample v tp) 0 \<longrightarrow>
      (\<exists>kd'. DivideRegion g u (ten_sample v tp) top_node 0 0 1 = Some (ten_sample v tp, kd', 5)))"
proof (intro conjI impI)
  assume a: "DivideRegion h w t kd L level tag = Some (t', kd', midpt) \<and> 0 \<le> midpt \<and>
    2 \<le> NumberOfPoints (node_data kd) \<and> 0 \<le> L \<and>
    R = L + NumberOfPoints (node_data kd) - 1 \<and>
    WhoHas t L = Some p1 \<and> WhoHas t R = Some p2 \<and>
    coincident w t (p1, p2) (SelectCutDirection h kd) L R = Some t2"
  then have b: "DivideRegion h w t kd L level tag = Some (t', kd', midpt)" "0 \<le> midpt"
    "2 \<le> NumberOfPoints (node_data kd)" "0 \<le> L" "R = L + NumberOfPoints (node_data kd) - 1"
    "WhoHas t L = Some p1" "WhoHas t R = Some p2"
    "coincident w t (p1, p2) (SelectCutDirection h kd) L R = Some t2"
    by blast+
  have "t' = t2 \<and> midpt = (L + R) div 2 + 1 \<and>
      (\<exists>d l r. kd' = Branch d (Leaf l) (Leaf r) \<and> Dim d = SelectCutDirection h kd \<and>
         NumberOfPoints l = midpt - L \<and> NumberOfPoints r = R - midpt + 1 \<and>
         1 \<le> NumberOfPoints l \<and> 1 \<le> NumberOfPoints r)"
    by (rule DivideRegion_fallback [OF b])
  then show "t' = t2" "midpt = (L + R) div 2 + 1"
    "\<exists>d l r. kd' = Branch d (Leaf l) (Leaf r) \<and> Dim d = SelectCutDirection h kd \<and>
         NumberOfPoints l = midpt - L \<and> NumberOfPoints r = R - midpt + 1 \<and>
         1 \<le> NumberOfPoints l \<and> 1 \<le> NumberOfPoints r"
    by blast+
next
  assume "NumberOfPoints (node_data top_node) = 10 \<and> DivideTest g 10 0 \<and>
    (SelectCutDirection g top_node = 0 \<or> SelectCutDirection g top_node = 1 \<or>
     SelectCutDirection g top_node = 2) \<and>
    \<not> AllCheckForFailure g (ten_sample v tp) 0"
  then have c: "NumberOfPoints (node_data top_node) = 10" "DivideTest g 10 0"
    "SelectCutDirection g top_node = 0 \<or> SelectCutDirection g top_node = 1 \<or>
     SelectCutDirection g top_node = 2"
    "\<not> AllCheckForFailure g (ten_sample v tp) 0"
    by simp_all
  show "\<exists>kd'. DivideRegion g u (ten_sample v tp) top_node 0 0 1 = Some (ten_sample v tp, kd', 5)"
    by (rule ten_run [OF c])
qed

theorem DivideRegion_coincident_witness:
  "WhoHas (ten_sample 7 None) 0 = Some 0 \<and> WhoHas (ten_sample 7 None) 9 = Some 0 \<and>
   coincident still_world (ten_sample 7 None) (0, 0) 0 0 9 = Some (ten_sample 7 None) \<and>
   DivideRegion plain_helpers still_world (ten_sample 7 None) (Leaf ten_root) 0 0 1 =
     Some (ten_sample 7 None, ten_tree, 5) \<and>
   (\<exists>d l r. ten_tree = Branch d (Leaf l) (Leaf r) \<and> Dim d = 0 \<and>
      NumberOfPoints l = 5 \<and> NumberOfPoints r = 5)"
proof -
  have c: "coincident still_world (ten_sample 7 None) (0, 0) 0 0 9 = Some (ten_sample 7 None)"
    by (rule ten_refusals) simp
  have n: "NumberOfPoints (node_data (Leaf ten_root)) = 10" by (simp add: ten_root_def)
  have m0: "SelectCutDirection plain_helpers (Leaf ten_root) = 0" by (simp add: plain_helpers_def)
  have h: "DivideTest plain_helpers 10 0"
    "\<not> AllCheckForFailure plain_helpers (ten_sample 7 None) 0"
    by (simp_all add: plain_helpers_def AllCheckForFailure_def)
  from DivideRegion_coincident [of plain_helpers still_world "ten_sample 7 None" "Leaf ten_root"
      0 0 1 "ten_sample 7 None" ten_tree 5 9 0 0 "ten_sample 7 None" "Leaf ten_root"
      plain_helpers 7 None still_world]
  have "\<exists>d l r. ten_tree = Branch d (Leaf l) (Leaf r) \<and> Dim d = 0 \<and>
      NumberOfPoints l = 5 \<and> NumberOfPoints r = 5"
    unfolding ten_root_run n m0 ten_WhoHas c using h by auto
  with c show ?thesis by (simp add: ten_WhoHas ten_root_run)
qed

end
